(* ===== verification/Prelude.thy ===== *)
theory Prelude
  imports Main "HOL-Library.Word" "HOL-Library.Char_ord" "HOL-Library.List_Lexorder"
    "HOL-Library.Code_Target_Numeral"
begin

section \<open>Prelude: types, errors and generic lemmas\<close>

text \<open>
  Shared vocabulary of the development. Go strings and byte slices are lists of bytes
  (\<open>char\<close> is exactly one byte in HOL); \<open>uint64\<close> and \<open>int64\<close> (and \<open>int\<close>, which is 64 bits
  wide on the deployed linux/amd64 target) are both \<open>64 word\<close>, read with \<open>unat\<close> and \<open>sint\<close>.
  An \<open>error\<close> is a value: a text, a wrapped error (\<open>fmt.Errorf("...: %w", err)\<close>), or one of the
  two sentinel errors of package context.
\<close>

type_synonym bytes = string
type_synonym u64 = "64 word"
type_synonym i64 = "64 word"
type_synonym u32 = "32 word"
type_synonym i32 = "32 word"
type_synonym u16 = "16 word"

subsection \<open>Lemma collections\<close>

named_theorems go_std \<open>evaluation rules of the modelled standard library\<close>
named_theorems frame \<open>which parts of a state an operation leaves alone\<close>

subsection \<open>Errors\<close>

datatype gerror =
    ErrText bytes
  | Wrapped bytes gerror
  | CtxCanceled
  | CtxDeadlineExceeded

fun err_text :: "gerror \<Rightarrow> bytes" where
  "err_text (ErrText t) = t"
| "err_text (Wrapped p e) = p @ '': '' @ err_text e"
| "err_text CtxCanceled = ''context canceled''"
| "err_text CtxDeadlineExceeded = ''context deadline exceeded''"

text \<open>\<open>errors.Is\<close> against a sentinel error: walk the chain of wrapped errors.\<close>

fun errors_Is :: "gerror \<Rightarrow> gerror \<Rightarrow> bool" where
  "errors_Is (Wrapped p e) t = (Wrapped p e = t \<or> errors_Is e t)"
| "errors_Is e t = (e = t)"

subsection \<open>Key-sorted association lists\<close>

text \<open>
  A list of pairs with strictly increasing keys is determined by the map it represents. The
  bucket operations of the store are stated through maps; this lemma turns such a statement
  into one about the list that a cursor traverses.
\<close>

abbreviation keys_sorted :: "('k::linorder \<times> 'v) list \<Rightarrow> bool" where
  "keys_sorted xs \<equiv> sorted_wrt (<) (map fst xs)"

lemma keys_sorted_distinct: "keys_sorted xs \<Longrightarrow> distinct (map fst xs)"
  by (simp add: strict_sorted_iff)

lemma keys_sorted_filter: "keys_sorted xs \<Longrightarrow> keys_sorted (filter P xs)"
  by (simp add: sorted_wrt_map sorted_wrt_filter)

lemma keys_sorted_unique:
  assumes "keys_sorted xs" and "keys_sorted ys" and "map_of xs = map_of ys"
  shows "xs = ys"
proof -
  have d: "distinct (map fst xs)" "distinct (map fst ys)"
    using assms(1,2) by (simp_all add: keys_sorted_distinct)
  have "set (map fst xs) = set (map fst ys)"
    using assms(3) by (metis dom_map_of_conv_image_fst image_set)
  then have k: "map fst xs = map fst ys"
    using assms(1,2) by (simp add: strict_sorted_equal)
  have "set xs = set ys"
    using d assms(3) by (metis map_of_inject_set)
  then show ?thesis
    using k d by (metis distinct_map inj_on_Un map_injective sup.idem map_inj_on)
qed

lemma map_of_filter_key:
  "map_of (filter (\<lambda>kv. fst kv \<noteq> k) xs) = (map_of xs)(k := None)"
  by (induction xs) (auto simp: fun_eq_iff)

lemma map_of_replace:
  "map_of (map (\<lambda>kv. if fst kv = k then (k, v) else kv) xs) =
   (if k \<in> fst ` set xs then (map_of xs)(k \<mapsto> v) else map_of xs)"
  by (induction xs) (auto simp: fun_eq_iff)

lemma fst_replace:
  "map fst (map (\<lambda>kv. if fst kv = k then (k, v) else kv) xs) = map fst xs"
  by (induction xs) auto

lemma map_of_snoc: "k \<notin> fst ` set xs \<Longrightarrow> map_of (xs @ [(k, v)]) = (map_of xs)(k \<mapsto> v)"
  by (induction xs) (auto simp: fun_eq_iff)

subsection \<open>Words\<close>

lemma distinct_map_unique: "distinct (map f xs) \<Longrightarrow> x \<in> set xs \<Longrightarrow> y \<in> set xs \<Longrightarrow> f x = f y \<Longrightarrow> x = y"
  by (auto simp: distinct_map dest: inj_onD)

lemma word_succ_unat: "(w :: 'a::len word) \<noteq> - 1 \<Longrightarrow> unat (w + 1) = unat w + 1"
  by (metis Suc_eq_plus1 add.commute max_word_wrap unatSuc)

lemma word_less_succ: "(w :: 'a::len word) \<noteq> - 1 \<Longrightarrow> w < w + 1"
  by (simp add: word_less_nat_alt word_succ_unat)

end
