(* ===== verification/Bus.thy ===== *)
theory Bus
  imports Prelude "HOL-Library.Sublist"
begin

section \<open>internal/bus: in-process publish and subscribe\<close>

text \<open>
  Models bus.go. A channel is a number; \<open>chans\<close> holds the messages buffered in it, oldest first.
  \<open>Publish\<close> offers the message to every channel of the topic and drops it where the buffer of
  128 messages is full. A subscriber that reads its channel
  is the operation \<open>Receive\<close>. Two publishers may hold the read lock at once, but a send on a channel is
  atomic and every topic has one subscriber (Program.thy), so that a publication is one atomic send.
\<close>

record 'm Bus =
  subs :: "bytes \<Rightarrow> nat list"
  chans :: "nat \<Rightarrow> 'm list"
  next_chan :: nat

definition chan_cap :: nat where
  "chan_cap = 128"

definition New :: "'m Bus" where
  "New = \<lparr>subs = (\<lambda>_. []), chans = (\<lambda>_. []), next_chan = 0\<rparr>"

definition Subscribe :: "bytes \<Rightarrow> 'm Bus \<Rightarrow> nat \<times> 'm Bus" where
  "Subscribe topic b = (next_chan b,
     b\<lparr>subs := (subs b)(topic := subs b topic @ [next_chan b]), next_chan := Suc (next_chan b)\<rparr>)"

text \<open>\<open>select\<close> with one send and a default: send if there is room, else drop.\<close>

definition try_send :: "'m \<Rightarrow> nat \<Rightarrow> (nat \<Rightarrow> 'm list) \<Rightarrow> nat \<Rightarrow> 'm list" where
  "try_send msg ch cs = (if length (cs ch) < chan_cap then cs(ch := cs ch @ [msg]) else cs)"

definition Publish :: "bytes \<Rightarrow> 'm \<Rightarrow> 'm Bus \<Rightarrow> 'm Bus" where
  "Publish topic msg b = b\<lparr>chans := fold (try_send msg) (subs b topic) (chans b)\<rparr>"

text \<open>A subscriber takes the oldest message; \<open>None\<close> means it would wait.\<close>

definition Receive :: "nat \<Rightarrow> 'm Bus \<Rightarrow> 'm option \<times> 'm Bus" where
  "Receive ch b = (case chans b ch of [] \<Rightarrow> (None, b)
     | m # ms \<Rightarrow> (Some m, b\<lparr>chans := (chans b)(ch := ms)\<rparr>))"

subsection \<open>Invariant: every channel belongs to one subscription\<close>

definition bus_ok :: "'m Bus \<Rightarrow> bool" where
  "bus_ok b \<longleftrightarrow> (\<forall>t. distinct (subs b t) \<and> (\<forall>ch\<in>set (subs b t). ch < next_chan b))
     \<and> (\<forall>t u. t \<noteq> u \<longrightarrow> set (subs b t) \<inter> set (subs b u) = {})
     \<and> (\<forall>ch. length (chans b ch) \<le> chan_cap) \<and> (\<forall>ch\<ge>next_chan b. chans b ch = [])"

lemma bus_ok_New: "bus_ok New"
  by (simp add: bus_ok_def New_def)

lemma bus_ok_Subscribe: "bus_ok b \<Longrightarrow> bus_ok (snd (Subscribe t b))"
  unfolding bus_ok_def Subscribe_def by (force simp: less_Suc_eq)

lemma try_send_other: "ch \<noteq> c \<Longrightarrow> try_send msg c cs ch = cs ch"
  by (simp add: try_send_def)

lemma fold_try_send_other: "ch \<notin> set cl \<Longrightarrow> fold (try_send msg) cl cs ch = cs ch"
  by (induction cl arbitrary: cs) (simp_all add: try_send_other)

text \<open>What one publication does to one channel.\<close>

lemma fold_try_send:
  "distinct cl \<Longrightarrow> ch \<in> set cl \<Longrightarrow>
   fold (try_send msg) cl cs ch = (if length (cs ch) < chan_cap then cs ch @ [msg] else cs ch)"
proof (induction cl arbitrary: cs)
  case (Cons c cl)
  show ?case
  proof (cases "ch = c")
    case True
    then show ?thesis
      using Cons.prems fold_try_send_other [of c cl msg "try_send msg c cs"] by (auto simp: try_send_def [of msg c cs])
  next
    case False
    then show ?thesis using Cons by (simp add: try_send_other)
  qed
qed simp

lemma Publish_chan:
  "bus_ok b \<Longrightarrow> chans (Publish t msg b) ch =
     (if ch \<in> set (subs b t) \<and> length (chans b ch) < chan_cap then chans b ch @ [msg] else chans b ch)"
  by (cases "ch \<in> set (subs b t)")
     (simp_all add: Publish_def bus_ok_def fold_try_send fold_try_send_other)

lemma bus_ok_Publish: "bus_ok b \<Longrightarrow> bus_ok (Publish t msg b)"
proof -
  assume b: "bus_ok b"
  have "subs (Publish t msg b) = subs b" "next_chan (Publish t msg b) = next_chan b"
    by (simp_all add: Publish_def)
  moreover have "length (chans (Publish t msg b) ch) \<le> chan_cap" for ch
    using b by (auto simp: Publish_chan [OF b] bus_ok_def)
  moreover have "chans (Publish t msg b) ch = []" if "next_chan b \<le> ch" for ch
    using that b by (auto simp: Publish_chan [OF b] bus_ok_def dest!: spec)
  ultimately show ?thesis using b by (simp add: bus_ok_def)
qed

lemma bus_ok_Receive: "bus_ok b \<Longrightarrow> bus_ok (snd (Receive ch b))"
  unfolding Receive_def bus_ok_def by (auto split: list.split) (metis Suc_leD length_Cons)

subsection \<open>What a subscriber sees\<close>

datatype 'm bus_op = OpSubscribe bytes | OpPublish bytes 'm | OpReceive nat

fun bus_step :: "'m bus_op \<Rightarrow> 'm Bus \<Rightarrow> 'm Bus" where
  "bus_step (OpSubscribe t) b = snd (Subscribe t b)"
| "bus_step (OpPublish t m) b = Publish t m b"
| "bus_step (OpReceive ch) b = snd (Receive ch b)"

text \<open>The messages the reader of a channel receives during a sequence of operations, and the
  messages published on a topic by it.\<close>

fun received :: "nat \<Rightarrow> 'm bus_op list \<Rightarrow> 'm Bus \<Rightarrow> 'm list" where
  "received ch [] b = []"
| "received ch (op # ops) b =
     (case op of
        OpReceive c \<Rightarrow> (if c = ch then (case fst (Receive ch b) of None \<Rightarrow> [] | Some m \<Rightarrow> [m]) else [])
      | _ \<Rightarrow> []) @ received ch ops (bus_step op b)"

fun published :: "bytes \<Rightarrow> 'm bus_op list \<Rightarrow> 'm list" where
  "published t [] = []"
| "published t (op # ops) =
     (case op of OpPublish u m \<Rightarrow> if u = t then [m] else [] | _ \<Rightarrow> []) @ published t ops"

lemma bus_ok_step: "bus_ok b \<Longrightarrow> bus_ok (bus_step op b)"
  by (cases op) (simp_all add: bus_ok_Subscribe bus_ok_Publish bus_ok_Receive)

lemma subs_step: "ch \<in> set (subs b t) \<Longrightarrow> ch \<in> set (subs (bus_step op b) t)"
  by (cases op) (auto simp: Subscribe_def Publish_def Receive_def split: list.split)

text \<open>One operation: the channel's messages are extended by a published one or dropped.\<close>

lemma bus_step_chan:
  assumes "bus_ok b" and "ch \<in> set (subs b t)"
  shows "received ch [op] b @ chans (bus_step op b) ch = chans b ch @ published t [op]
       \<or> (\<exists>m. op = OpPublish t m \<and> length (chans b ch) = chan_cap
            \<and> received ch [op] b @ chans (bus_step op b) ch = chans b ch)"
proof (cases op)
  case (OpSubscribe u)
  then show ?thesis by (simp add: Subscribe_def)
next
  case (OpPublish u m)
  have "length (chans b ch) \<le> chan_cap" using assms(1) by (simp add: bus_ok_def)
  moreover have "ch \<in> set (subs b u) \<longleftrightarrow> u = t" using assms unfolding bus_ok_def by blast
  ultimately show ?thesis using OpPublish by (auto simp: Publish_chan [OF assms(1)])
next
  case (OpReceive c)
  then show ?thesis by (auto simp: Receive_def split: list.split)
qed

lemma received_split:
  "received ch (op # ops) b = received ch [op] b @ received ch ops (bus_step op b)"
  by simp

lemma published_split: "published t (op # ops) = published t [op] @ published t ops"
  by simp

lemma received_subseq:
  assumes "bus_ok b" and "ch \<in> set (subs b t)"
  shows "subseq (received ch ops b @ chans (fold bus_step ops b) ch) (chans b ch @ published t ops)"
  using assms
proof (induction ops arbitrary: b)
  case (Cons op ops)
  have IH: "subseq (received ch ops (bus_step op b) @ chans (fold bus_step ops (bus_step op b)) ch)
      (chans (bus_step op b) ch @ published t ops)"
    using Cons.IH [OF bus_ok_step [OF Cons.prems(1)] subs_step [OF Cons.prems(2)]] .
  have "subseq (received ch [op] b @ chans (bus_step op b) ch) (chans b ch @ published t [op])"
    using bus_step_chan [OF Cons.prems, of op] by auto
  then have "subseq (received ch [op] b @ chans (bus_step op b) ch @ published t ops)
      (chans b ch @ published t (op # ops))"
    by (metis append.assoc list_emb_append_mono published_split subseq_order.order_refl)
  moreover have "subseq (received ch (op # ops) b @ chans (fold bus_step (op # ops) b) ch)
      (received ch [op] b @ chans (bus_step op b) ch @ published t ops)"
    using IH unfolding received_split [of ch op ops b] by (simp add: subseq_append')
  ultimately show ?case by (meson subseq_order.order_trans)
qed simp

lemma received_all:
  assumes "bus_ok b" and "ch \<in> set (subs b t)"
    and "length (chans b ch) + length (published t ops) \<le> chan_cap"
  shows "received ch ops b @ chans (fold bus_step ops b) ch = chans b ch @ published t ops"
  using assms
proof (induction ops arbitrary: b)
  case (Cons op ops)
  have e: "received ch [op] b @ chans (bus_step op b) ch = chans b ch @ published t [op]"
    using bus_step_chan [OF Cons.prems(1,2), of op] Cons.prems(3) by auto
  have "length (chans (bus_step op b) ch) \<le> length (chans b ch) + length (published t [op])"
    using arg_cong [OF e, of length] by simp
  then have "length (chans (bus_step op b) ch) + length (published t ops) \<le> chan_cap"
    using Cons.prems(3) published_split [of t op ops] by simp
  from Cons.IH [OF bus_ok_step [OF Cons.prems(1)] subs_step [OF Cons.prems(2)] this]
  show ?case using e unfolding received_split [of ch op ops b] published_split [of t op ops]
    by (metis (no_types, lifting) append.assoc fold_simps(2))
qed simp

subsection \<open>Properties\<close>

text \<open>A subscriber receives the messages of its topic in the order of publication. From a
  subscription on, what its reader received followed by what waits in its channel is a subsequence
  of what was published on the topic, whatever other operations (on this or other topics) happen;
  nothing is lost as long as at most 128 messages were published, and no channel ever holds
  more than 128.\<close>

theorem bus_fifo_delivery:
  assumes "bus_ok b" and "Subscribe t b = (ch, b')"
  shows "subseq (received ch ops b' @ chans (fold bus_step ops b') ch) (published t ops)
    \<and> (length (published t ops) \<le> 128 \<longrightarrow>
        received ch ops b' @ chans (fold bus_step ops b') ch = published t ops)
    \<and> length (chans (fold bus_step ops b') ch) \<le> 128"
proof -
  have "bus_ok b'" using bus_ok_Subscribe [OF assms(1), of t] assms(2) by simp
  moreover have "ch \<in> set (subs b' t)" using assms(2) by (auto simp: Subscribe_def)
  moreover have "chans b' ch = []" using assms by (auto simp: Subscribe_def bus_ok_def)
  ultimately have b': "bus_ok b'" "ch \<in> set (subs b' t)" "chans b' ch = []" by simp_all
  have "bus_ok (fold bus_step ops b')"
    using b'(1) by (induction ops arbitrary: b') (simp_all add: bus_ok_step)
  then show ?thesis
    using received_subseq [OF b'(1,2), of ops] received_all [OF b'(1,2), of ops] b'(3)
    by (simp add: chan_cap_def bus_ok_def)
qed

theorem bus_fifo_delivery_witness:
  "received 0 [OpPublish ''t'' (1::nat), OpPublish ''u'' 2, OpPublish ''t'' 3, OpReceive 0]
     (snd (Subscribe ''t'' New)) = [1]
   \<and> chans (fold bus_step [OpPublish ''t'' (1::nat), OpPublish ''u'' 2, OpPublish ''t'' 3, OpReceive 0]
     (snd (Subscribe ''t'' New))) 0 = [3]"
proof -
  let ?ops = "[OpPublish ''t'' (1::nat), OpPublish ''u'' 2, OpPublish ''t'' 3, OpReceive 0]"
  have "Subscribe ''t'' New = (0, snd (Subscribe ''t'' New))" by (simp add: Subscribe_def New_def)
  from bus_fifo_delivery [OF bus_ok_New this, of ?ops]
  have "received 0 ?ops (snd (Subscribe ''t'' New)) @ chans (fold bus_step ?ops (snd (Subscribe ''t'' New))) 0 = [1, 3]"
    by (simp del: received.simps fold_simps)
  moreover have "received 0 ?ops (snd (Subscribe ''t'' New)) = [1]" by code_simp
  ultimately show ?thesis by simp
qed

end
