(* ===== verification/GoStd.thy ===== *)
theory GoStd
  imports Prelude
begin

section \<open>The Go standard library, as far as the source uses it\<close>

text \<open>
  Byte-level models of encoding/binary (big-endian), strconv (decimal printing and parsing),
  encoding/base64, encoding/hex and package strings, with the round trips and the order
  property the store needs. Unicode tables (\<open>strings.ToLower\<close> beyond ASCII) are an argument.
\<close>

subsection \<open>encoding/binary: big-endian words\<close>

fun be_bytes :: "nat \<Rightarrow> nat \<Rightarrow> bytes" where
  "be_bytes 0 n = []"
| "be_bytes (Suc k) n = char_of (n div 256 ^ k) # be_bytes k n"

fun be_value :: "nat \<Rightarrow> bytes \<Rightarrow> nat" where
  "be_value a [] = a"
| "be_value a (c # cs) = be_value (a * 256 + of_char c) cs"

text \<open>\<open>binary.BigEndian.PutUint64\<close> into a fresh 8-byte slice, and \<open>binary.BigEndian.Uint64\<close>.\<close>

definition PutUint64 :: "u64 \<Rightarrow> bytes" where
  "PutUint64 w = be_bytes 8 (unat w)"

definition Uint64 :: "bytes \<Rightarrow> u64" where
  "Uint64 bs = of_nat (be_value 0 (take 8 bs))"

lemma length_be_bytes [simp]: "length (be_bytes k n) = k"
  by (induction k) auto

lemma length_PutUint64 [simp]: "length (PutUint64 w) = 8"
  by (simp add: PutUint64_def)

lemma be_value_be_bytes: "be_value a (be_bytes k n) = a * 256 ^ k + n mod 256 ^ k"
proof (induction k arbitrary: a)
  case (Suc k)
  have "be_value a (be_bytes (Suc k) n) = (a * 256 + n div 256 ^ k mod 256) * 256 ^ k + n mod 256 ^ k"
    by (simp add: Suc)
  also have "\<dots> = a * 256 ^ Suc k + (n div 256 ^ k mod 256 * 256 ^ k + n mod 256 ^ k)"
    by (simp add: algebra_simps)
  also have "n div 256 ^ k mod 256 * 256 ^ k + n mod 256 ^ k = n mod 256 ^ Suc k"
    unfolding power_Suc2 mod_mult2_eq by (simp add: mult.commute)
  finally show ?case .
qed simp

lemma Uint64_PutUint64 [simp, go_std]: "Uint64 (PutUint64 w) = w"
proof -
  have "unat w < 256 ^ 8"
    using unsigned_less [of w, where ?'a = nat] by simp
  then show ?thesis
    by (simp add: Uint64_def PutUint64_def be_value_be_bytes)
qed

lemma PutUint64_inject [simp]: "PutUint64 v = PutUint64 w \<longleftrightarrow> v = w"
  by (metis Uint64_PutUint64)

text \<open>Byte order of the encodings is the numeric order: what makes a bucket keyed by them FIFO.\<close>

lemma be_bytes_mod: "be_bytes k (n mod 256 ^ k) = be_bytes k n"
proof -
  have *: "j \<le> k \<Longrightarrow> be_bytes j (n mod 256 ^ k) = be_bytes j n" for j
  proof (induction j)
    case (Suc j)
    then have "(256::nat) ^ k = 256 ^ j * 256 ^ (k - j)"
      by (simp flip: power_add)
    then have "n mod 256 ^ k div 256 ^ j = n div 256 ^ j mod 256 ^ (k - j)"
      by (simp add: mod_mult2_eq)
    moreover have "char_of (m mod 256 ^ (k - j)) = char_of m" for m :: nat
    proof -
      have "256 dvd (256::nat) ^ (k - j)"
        using Suc.prems by (simp add: dvd_power)
      then have "m mod 256 ^ (k - j) mod 256 = m mod 256"
        by (simp add: mod_mod_cancel)
      then show ?thesis
        by (metis char_of_mod_256)
    qed
    ultimately show ?case using Suc by simp
  qed simp
  then show ?thesis by simp
qed

lemma less_div_mod:
  "m < n \<longleftrightarrow> m div p < n div p \<or> m div p = n div p \<and> m mod p < n mod p" for m n p :: nat
proof (cases "m div p" "n div p" rule: linorder_cases)
  case less
  then show ?thesis by (metis div_le_mono leD leI)
next
  case equal
  have "m = m div p * p + m mod p" by simp
  moreover from equal have "n = m div p * p + n mod p" by (metis div_mult_mod_eq)
  ultimately show ?thesis using equal by (metis nat_add_left_cancel_less nat_less_le)
next
  case greater
  then show ?thesis by (metis div_le_mono less_le_not_le nat_less_le order_less_imp_le)
qed

lemma be_bytes_less:
  "m < 256 ^ k \<Longrightarrow> n < 256 ^ k \<Longrightarrow> be_bytes k m < be_bytes k n \<longleftrightarrow> m < n"
proof (induction k arbitrary: m n)
  case (Suc k)
  let ?p = "(256::nat) ^ k"
  have hi: "m div ?p < 256" "n div ?p < 256"
    using Suc.prems by (simp_all add: less_mult_imp_div_less)
  have "be_bytes k (m mod ?p) < be_bytes k (n mod ?p) \<longleftrightarrow> m mod ?p < n mod ?p"
    by (rule Suc.IH) simp_all
  then have lo: "be_bytes k m < be_bytes k n \<longleftrightarrow> m mod ?p < n mod ?p"
    by (simp add: be_bytes_mod)
  have c: "(char_of (m div ?p) :: char) < char_of (n div ?p) \<longleftrightarrow> m div ?p < n div ?p"
    using hi by (simp add: less_char_def)
  have e: "(char_of (m div ?p) :: char) = char_of (n div ?p) \<longleftrightarrow> m div ?p = n div ?p"
    using hi by (metis mod_less of_char_of)
  have "m < n \<longleftrightarrow> m div ?p < n div ?p \<or> m div ?p = n div ?p \<and> m mod ?p < n mod ?p"
    by (rule less_div_mod)
  then show ?case
    by (simp only: be_bytes.simps Cons_less_Cons c e lo)
qed simp

lemma PutUint64_less [simp]: "PutUint64 v < PutUint64 w \<longleftrightarrow> v < w"
proof -
  have "unat v < 256 ^ 8" "unat w < 256 ^ 8"
    using unsigned_less [of v, where ?'a = nat] unsigned_less [of w, where ?'a = nat]
    by simp_all
  then show ?thesis
    by (simp add: PutUint64_def be_bytes_less word_less_nat_alt)
qed

subsection \<open>strconv: decimal numbers\<close>

definition digit :: "nat \<Rightarrow> char" where
  "digit d = char_of (48 + d)"

definition is_digit :: "char \<Rightarrow> bool" where
  "is_digit c \<longleftrightarrow> CHR ''0'' \<le> c \<and> c \<le> CHR ''9''"

definition digit_val :: "char \<Rightarrow> nat" where
  "digit_val c = of_char c - 48"

text \<open>\<open>strconv.FormatUint(n, 10)\<close> and \<open>strconv.FormatInt(i, 10)\<close> (also \<open>strconv.Itoa\<close>).\<close>

fun dec_nat :: "nat \<Rightarrow> bytes" where
  "dec_nat n = (if n < 10 then [digit n] else dec_nat (n div 10) @ [digit (n mod 10)])"

declare dec_nat.simps [simp del]

definition dec_int :: "int \<Rightarrow> bytes" where
  "dec_int i = (if i < 0 then CHR ''-'' # dec_nat (nat (- i)) else dec_nat (nat i))"

datatype num_err = ErrSyntax | ErrRange

text \<open>
  \<open>strconv.ParseUint(s, 10, 64)\<close>: the loop returns at the first byte that is no digit, with 0 and
  \<open>ErrSyntax\<close>, or at the first digit that overflows, with the largest value and \<open>ErrRange\<close>.
\<close>

fun parse_digits :: "nat \<Rightarrow> bytes \<Rightarrow> nat \<times> num_err option" where
  "parse_digits n [] = (n, None)"
| "parse_digits n (c # cs) =
     (if \<not> is_digit c then (0, Some ErrSyntax)
      else if 2 ^ 64 \<le> n * 10 + digit_val c then (2 ^ 64 - 1, Some ErrRange)
      else parse_digits (n * 10 + digit_val c) cs)"

definition ParseUint :: "bytes \<Rightarrow> u64 \<times> num_err option" where
  "ParseUint s = (if s = [] then (0, Some ErrSyntax)
                  else case parse_digits 0 s of (n, e) \<Rightarrow> (of_nat n, e))"

text \<open>\<open>strconv.ParseInt(s, 10, 64)\<close>, with its optional sign.\<close>

definition parse_signed :: "bool \<Rightarrow> bytes \<Rightarrow> i64 \<times> num_err option" where
  "parse_signed neg s =
     (if s = [] then (0, Some ErrSyntax)
      else case parse_digits 0 s of (un, e) \<Rightarrow>
        if e = Some ErrSyntax then (0, e)
        else if \<not> neg \<and> 2 ^ 63 \<le> un then (of_nat (2 ^ 63 - 1), Some ErrRange)
        else if neg \<and> 2 ^ 63 < un then (- of_nat (2 ^ 63), Some ErrRange)
        else (if neg then - of_nat un else of_nat un, None))"

definition ParseInt :: "bytes \<Rightarrow> i64 \<times> num_err option" where
  "ParseInt s = (case s of
       [] \<Rightarrow> (0, Some ErrSyntax)
     | c # cs \<Rightarrow> if c = CHR ''+'' then parse_signed False cs
                else if c = CHR ''-'' then parse_signed True cs
                else parse_signed False s)"

lemma of_char_digit [simp]: "d < 10 \<Longrightarrow> of_char (digit d) = 48 + d"
  by (simp add: digit_def)

lemma is_digit_digit [simp]: "d < 10 \<Longrightarrow> is_digit (digit d)"
  by (simp add: is_digit_def less_eq_char_def)

lemma digit_val_digit [simp]: "d < 10 \<Longrightarrow> digit_val (digit d) = d"
  by (simp add: digit_val_def)

lemma dec_nat_nonempty [simp]: "dec_nat n \<noteq> []"
  by (subst dec_nat.simps) simp

lemma dec_nat_digits: "c \<in> set (dec_nat n) \<Longrightarrow> is_digit c"
proof (induction n rule: dec_nat.induct)
  case (1 n)
  then show ?case
    by (auto simp: dec_nat.simps [of n] split: if_splits)
qed

lemma parse_digits_append:
  "parse_digits n xs = (m, None) \<Longrightarrow> parse_digits n (xs @ ys) = parse_digits m ys"
  by (induction n xs rule: parse_digits.induct) (auto split: if_splits)

lemma parse_digits_dec_nat: "n < 2 ^ 64 \<Longrightarrow> parse_digits 0 (dec_nat n) = (n, None)"
proof (induction n rule: dec_nat.induct)
  case (1 n)
  show ?case
  proof (cases "n < 10")
    case True
    then show ?thesis by (simp add: dec_nat.simps [of n])
  next
    case False
    then have "parse_digits 0 (dec_nat (n div 10)) = (n div 10, None)"
      using "1" by simp
    from parse_digits_append [OF this, of "[digit (n mod 10)]"] False "1.prems"
    show ?thesis by (simp add: dec_nat.simps [of n])
  qed
qed

lemma ParseUint_dec [simp, go_std]: "ParseUint (dec_nat (unat w)) = (w, None)"
  using unsigned_less [of w, where ?'a = nat]
  by (simp add: ParseUint_def parse_digits_dec_nat)

lemma dec_nat_hd: "\<exists>c cs. dec_nat n = c # cs \<and> is_digit c"
  by (metis dec_nat_digits dec_nat_nonempty list.exhaust list.set_intros(1))

lemma not_sign_digit: "is_digit c \<Longrightarrow> c \<noteq> CHR ''+'' \<and> c \<noteq> CHR ''-''"
  by (auto simp: is_digit_def)

lemma parse_signed_dec:
  "n < 2 ^ 63 \<or> neg \<and> n = 2 ^ 63 \<Longrightarrow>
   parse_signed neg (dec_nat n) = (if neg then - of_nat n else of_nat n, None)"
  by (auto simp: parse_signed_def parse_digits_dec_nat)

lemma ParseInt_dec [simp, go_std]: "ParseInt (dec_int (sint (w :: i64))) = (w, None)"
proof (cases "sint w < 0")
  case True
  have "- (2 ^ 63) \<le> sint w" using sint_ge [of w] by simp
  then have "nat (- sint w) < 2 ^ 63 \<or> nat (- sint w) = 2 ^ 63" by auto
  then have "parse_signed True (dec_nat (nat (- sint w))) = (- of_nat (nat (- sint w)), None)"
    by (simp add: parse_signed_dec)
  moreover have "- of_nat (nat (- sint w)) = w" using True by simp
  ultimately show ?thesis using True by (simp add: ParseInt_def dec_int_def)
next
  case False
  have "sint w < 2 ^ 63" using sint_lt [of w] by simp
  then have "nat (sint w) < 2 ^ 63" using False by auto
  then have "parse_signed False (dec_nat (nat (sint w))) = (of_nat (nat (sint w)), None)"
    by (simp add: parse_signed_dec)
  moreover have "of_nat (nat (sint w)) = w" using False by simp
  moreover obtain c cs where "dec_nat (nat (sint w)) = c # cs" "is_digit c"
    using dec_nat_hd by blast
  ultimately show ?thesis
    using False not_sign_digit [of c] by (simp add: ParseInt_def dec_int_def)
qed

subsection \<open>encoding/base64: StdEncoding\<close>

text \<open>The four sextets of three bytes, the padded forms of a last group, and the alphabet.\<close>

definition b64_char :: "nat \<Rightarrow> char" where
  "b64_char i = (if i < 26 then char_of (65 + i)
                 else if i < 52 then char_of (97 + (i - 26))
                 else if i < 62 then char_of (48 + (i - 52))
                 else if i = 62 then CHR ''+'' else CHR 0x2F)"

definition b64_val :: "char \<Rightarrow> nat option" where
  "b64_val c = (let n = of_char c :: nat in
     if 65 \<le> n \<and> n \<le> 90 then Some (n - 65)
     else if 97 \<le> n \<and> n \<le> 122 then Some (n - 97 + 26)
     else if 48 \<le> n \<and> n \<le> 57 then Some (n - 48 + 52)
     else if n = 43 then Some 62 else if n = 47 then Some 63 else None)"

fun b64_enc :: "bytes \<Rightarrow> bytes" where
  "b64_enc [] = []"
| "b64_enc [a] = [b64_char (of_char a div 4), b64_char (of_char a mod 4 * 16),
     CHR ''='', CHR ''='']"
| "b64_enc [a, b] = [b64_char (of_char a div 4),
     b64_char (of_char a mod 4 * 16 + of_char b div 16),
     b64_char (of_char b mod 16 * 4), CHR ''='']"
| "b64_enc (a # b # c # cs) = b64_char (of_char a div 4)
     # b64_char (of_char a mod 4 * 16 + of_char b div 16)
     # b64_char (of_char b mod 16 * 4 + of_char c div 64)
     # b64_char (of_char c mod 64) # b64_enc cs"

text \<open>
  \<open>StdEncoding.Decode\<close>: line breaks are skipped, padding is required and only at the end, the
  unused bits of a padded group are not checked.
\<close>

fun b64_groups :: "bytes \<Rightarrow> bytes option" where
  "b64_groups [] = Some []"
| "b64_groups (a # b # c # d # r) =
     (case (b64_val a, b64_val b) of
        (Some x, Some y) \<Rightarrow>
          (if c = CHR ''='' \<and> d = CHR ''='' then
             (if r = [] then Some [char_of (x * 4 + y div 16)] else None)
           else case b64_val c of None \<Rightarrow> None | Some z \<Rightarrow>
             (if d = CHR ''='' then
                (if r = [] then Some [char_of (x * 4 + y div 16), char_of (y mod 16 * 16 + z div 4)]
                 else None)
              else case (b64_val d, b64_groups r) of
                (Some w, Some bs) \<Rightarrow>
                  Some (char_of (x * 4 + y div 16) # char_of (y mod 16 * 16 + z div 4)
                        # char_of (z mod 4 * 64 + w) # bs)
              | _ \<Rightarrow> None))
      | _ \<Rightarrow> None)"
| "b64_groups _ = None"

definition b64_dec :: "bytes \<Rightarrow> bytes option" where
  "b64_dec s = b64_groups (filter (\<lambda>c. c \<noteq> CHR 0x0A \<and> c \<noteq> CHR 0x0D) s)"

lemma b64_val_char [simp]: "i < 64 \<Longrightarrow> b64_val (b64_char i) = Some i"
  by (auto simp: b64_val_def b64_char_def Let_def)

lemma b64_val_pad: "b64_val (CHR ''='') = None" by code_simp

lemma b64_char_not_pad [simp]: "i < 64 \<Longrightarrow> b64_char i \<noteq> CHR ''=''"
  by (metis b64_val_char b64_val_pad option.distinct(1))

text \<open>Every character of an encoding is printable ASCII that JSON leaves alone.\<close>

definition b64_safe :: "char \<Rightarrow> bool" where
  "b64_safe c \<longleftrightarrow> b64_val c \<noteq> None \<or> c = CHR ''=''"

lemma sextets_nat:
  fixes a b c :: nat
  assumes "a < 256" "b < 256" "c < 256"
  shows "a div 4 < 64" "a mod 4 * 16 < 64" "a mod 4 * 16 + b div 16 < 64"
    "b mod 16 * 4 < 64" "b mod 16 * 4 + c div 64 < 64" "c mod 64 < 64"
proof -
  have m: "a mod 4 < 4" "b mod 16 < 16" by simp_all
  have d: "b div 16 < 16" "c div 64 < 4" using assms by (simp_all add: div_less_iff_less_mult)
  show "a div 4 < 64" using assms by (simp add: div_less_iff_less_mult)
  show "a mod 4 * 16 < 64" "a mod 4 * 16 + b div 16 < 64" "b mod 16 * 4 < 64"
    "b mod 16 * 4 + c div 64 < 64" "c mod 64 < 64" using m d by simp_all
qed

lemmas sextets = sextets_nat [OF nat_of_char_less_256 nat_of_char_less_256 nat_of_char_less_256]

lemma unsextets:
  fixes a b c :: nat
  assumes "b < 256" "c < 256"
  shows "a div 4 * 4 + (a mod 4 * 16) div 16 = a"
    "a div 4 * 4 + (a mod 4 * 16 + b div 16) div 16 = a"
    "(a mod 4 * 16 + b div 16) mod 16 * 16 + (b mod 16 * 4) div 4 = b"
    "(a mod 4 * 16 + b div 16) mod 16 * 16 + (b mod 16 * 4 + c div 64) div 4 = b"
    "(b mod 16 * 4 + c div 64) mod 4 * 64 + c mod 64 = c"
proof -
  have d: "b div 16 < 16" "c div 64 < 4" using assms by (simp_all add: div_less_iff_less_mult)
  have e: "(a mod 4 * 16 + b div 16) div 16 = a mod 4"
    "(a mod 4 * 16 + b div 16) mod 16 = b div 16"
    "(b mod 16 * 4 + c div 64) div 4 = b mod 16"
    "(b mod 16 * 4 + c div 64) mod 4 = c div 64" using d by simp_all
  show "a div 4 * 4 + (a mod 4 * 16) div 16 = a" by simp
  show "a div 4 * 4 + (a mod 4 * 16 + b div 16) div 16 = a"
    "(a mod 4 * 16 + b div 16) mod 16 * 16 + (b mod 16 * 4) div 4 = b"
    "(a mod 4 * 16 + b div 16) mod 16 * 16 + (b mod 16 * 4 + c div 64) div 4 = b"
    "(b mod 16 * 4 + c div 64) mod 4 * 64 + c mod 64 = c"
    by (simp_all only: e) simp_all
qed

lemmas unsextets_char = unsextets [OF nat_of_char_less_256 nat_of_char_less_256]

lemma b64_groups_enc: "b64_groups (b64_enc s) = Some s"
proof (induction s rule: b64_enc.induct)
  case (2 a)
  show ?case
    by (simp only: b64_enc.simps b64_groups.simps b64_val_char sextets prod.case option.case
        unsextets_char simp_thms if_True char_of_char)
next
  case (3 a b)
  show ?case
    by (simp only: b64_enc.simps b64_groups.simps b64_val_char b64_char_not_pad sextets prod.case
        option.case unsextets_char simp_thms if_True if_False char_of_char)
next
  case (4 a b c cs)
  then show ?case
    by (simp only: b64_enc.simps b64_groups.simps b64_val_char b64_char_not_pad sextets prod.case
        option.case unsextets_char simp_thms if_True if_False char_of_char)
qed simp

lemma b64_safe_char: "i < 64 \<Longrightarrow> b64_safe (b64_char i)"
  by (simp add: b64_safe_def)

lemma b64_enc_safe: "c \<in> set (b64_enc s) \<Longrightarrow> b64_safe c"
  by (induction s rule: b64_enc.induct)
     (auto simp: sextets b64_safe_char b64_safe_def [of "CHR ''=''"])

lemma b64_safe_graph: "b64_safe c \<Longrightarrow> c \<noteq> CHR 0x0A \<and> c \<noteq> CHR 0x0D"
  by (auto simp: b64_safe_def b64_val_def)

lemma b64_dec_enc [simp, go_std]: "b64_dec (b64_enc s) = Some s"
proof -
  have "filter (\<lambda>c. c \<noteq> CHR 0x0A \<and> c \<noteq> CHR 0x0D) (b64_enc s) = b64_enc s"
    by (rule filter_True) (use b64_enc_safe b64_safe_graph in blast)
  then show ?thesis by (simp add: b64_dec_def b64_groups_enc)
qed

end
