(* ===== verification/Json.thy ===== *)
theory Json
  imports GoStd
begin

section \<open>encoding/json, as far as the source uses it\<close>

text \<open>
  \<open>json.Marshal\<close> of structs is printing of a document; \<open>json.Unmarshal\<close> first parses the whole
  input (any syntax error fails before a field is written) and then stores the members of the
  object, in order, into the fields whose name matches exactly or up to case. The parser is a
  total function: its recursion is on the rest of the input, and the guards \<open>length _ < length _\<close>
  that make it terminate always hold.
\<close>

datatype json =
    JNull
  | JBool bool
  | JNum bytes
  | JStr bytes
  | JArr "json list"
  | JObj "(bytes \<times> json) list"

subsection \<open>UTF-8\<close>

definition cont_byte :: "char \<Rightarrow> bool" where
  "cont_byte c \<longleftrightarrow> 0x80 \<le> (of_char c :: nat) \<and> (of_char c :: nat) \<le> 0xBF"

definition byte_in :: "nat \<Rightarrow> nat \<Rightarrow> char \<Rightarrow> bool" where
  "byte_in lo hi c \<longleftrightarrow> lo \<le> of_char c \<and> of_char c \<le> hi"

definition rune_error :: nat where
  "rune_error = 0xFFFD"

text \<open>\<open>utf8.DecodeRune\<close>: the rune and its width; an invalid byte is \<open>(RuneError, 1)\<close>.\<close>

definition DecodeRune :: "bytes \<Rightarrow> nat \<times> nat" where
  "DecodeRune s = (case s of [] \<Rightarrow> (rune_error, 0) | c # cs \<Rightarrow>
     let b = of_char c :: nat; n = length cs;
         c1 = cs ! 0; c2 = cs ! 1; c3 = cs ! 2;
         v1 = of_char c1 mod 64; v2 = of_char c2 mod 64; v3 = of_char c3 mod 64
     in if b < 0x80 then (b, 1)
        else if 0xC2 \<le> b \<and> b \<le> 0xDF then
          (if 1 \<le> n \<and> cont_byte c1 then (b mod 32 * 64 + v1, 2) else (rune_error, 1))
        else if 0xE0 \<le> b \<and> b \<le> 0xEF then
          (if 2 \<le> n
              \<and> byte_in (if b = 0xE0 then 0xA0 else 0x80) (if b = 0xED then 0x9F else 0xBF) c1
              \<and> cont_byte c2
           then (b mod 16 * 4096 + v1 * 64 + v2, 3) else (rune_error, 1))
        else if 0xF0 \<le> b \<and> b \<le> 0xF4 then
          (if 3 \<le> n
              \<and> byte_in (if b = 0xF0 then 0x90 else 0x80) (if b = 0xF4 then 0x8F else 0xBF) c1
              \<and> cont_byte c2 \<and> cont_byte c3
           then (b mod 8 * 262144 + v1 * 4096 + v2 * 64 + v3, 4) else (rune_error, 1))
        else (rune_error, 1))"

definition EncodeRune :: "nat \<Rightarrow> bytes" where
  "EncodeRune r0 =
     (let r = (if 0x10FFFF < r0 \<or> 0xD800 \<le> r0 \<and> r0 \<le> 0xDFFF then rune_error else r0) in
      if r < 0x80 then [char_of r]
      else if r < 0x800 then [char_of (0xC0 + r div 64), char_of (0x80 + r mod 64)]
      else if r < 0x10000 then
        [char_of (0xE0 + r div 4096), char_of (0x80 + r div 64 mod 64), char_of (0x80 + r mod 64)]
      else [char_of (0xF0 + r div 262144), char_of (0x80 + r div 4096 mod 64),
            char_of (0x80 + r div 64 mod 64), char_of (0x80 + r mod 64)])"

subsection \<open>Strings: quoting and unquoting\<close>

definition DQ :: char where "DQ = CHR 0x22"
definition BSL :: char where "BSL = CHR 0x5C"

lemmas json_chars = DQ_def BSL_def

definition hex_char :: "nat \<Rightarrow> char" where
  "hex_char d = (if d < 10 then char_of (48 + d) else char_of (97 + (d - 10)))"

definition hex_val :: "char \<Rightarrow> nat option" where
  "hex_val c = (let n = of_char c :: nat in
     if 48 \<le> n \<and> n \<le> 57 then Some (n - 48)
     else if 97 \<le> n \<and> n \<le> 102 then Some (n - 87)
     else if 65 \<le> n \<and> n \<le> 70 then Some (n - 55) else None)"

text \<open>Bytes the HTML-safe encoder copies unchanged.\<close>

definition plain :: "char \<Rightarrow> bool" where
  "plain c \<longleftrightarrow> 0x20 \<le> (of_char c :: nat) \<and> (of_char c :: nat) < 0x80
     \<and> c \<notin> {DQ, BSL, CHR ''<'', CHR ''>'', CHR ''&''}"

definition escape_byte :: "char \<Rightarrow> bytes" where
  "escape_byte c =
     (if c = DQ \<or> c = BSL then [BSL, c]
      else if c = CHR 0x08 then [BSL, CHR ''b'']
      else if c = CHR 0x0C then [BSL, CHR ''f'']
      else if c = CHR 0x0A then [BSL, CHR ''n'']
      else if c = CHR 0x0D then [BSL, CHR ''r'']
      else if c = CHR 0x09 then [BSL, CHR ''t'']
      else BSL # ''u00'' @ [hex_char (of_char c div 16), hex_char (of_char c mod 16)])"

function json_escape :: "bytes \<Rightarrow> bytes" where
  "json_escape [] = []"
| "json_escape (c # cs) =
     (if (of_char c :: nat) < 0x80 then
        (if plain c then [c] else escape_byte c) @ json_escape cs
      else case DecodeRune (c # cs) of (r, n) \<Rightarrow>
        if r = rune_error \<and> n = 1 then BSL # ''ufffd'' @ json_escape cs
        else if r = 0x2028 \<or> r = 0x2029 then
          BSL # ''u202'' @ [hex_char (r mod 16)] @ json_escape (drop (n - 1) cs)
        else take n (c # cs) @ json_escape (drop (n - 1) cs))"
  by pat_completeness auto
termination
  by (relation "measure length") auto

definition json_quote :: "bytes \<Rightarrow> bytes" where
  "json_quote s = DQ # json_escape s @ [DQ]"

text \<open>The raw contents of a string literal, up to the closing quote.\<close>

fun lex_str :: "bytes \<Rightarrow> (bytes \<times> bytes) option" where
  "lex_str [] = None"
| "lex_str (c # cs) =
     (if c = DQ then Some ([], cs)
      else if c = BSL then
        (case cs of [] \<Rightarrow> None | e # cs' \<Rightarrow>
           if e \<in> set ''bfnrt/'' \<or> e = DQ \<or> e = BSL then
             map_option (\<lambda>(r, t). (c # e # r, t)) (lex_str cs')
           else if e = CHR ''u'' then
             (case cs' of
                h1 # h2 # h3 # h4 # cs'' \<Rightarrow>
                  if hex_val h1 \<noteq> None \<and> hex_val h2 \<noteq> None \<and> hex_val h3 \<noteq> None \<and> hex_val h4 \<noteq> None
                  then map_option (\<lambda>(r, t). (c # e # h1 # h2 # h3 # h4 # r, t)) (lex_str cs'')
                  else None
              | _ \<Rightarrow> None)
           else None)
      else if (of_char c :: nat) < 0x20 then None
      else map_option (\<lambda>(r, t). (c # r, t)) (lex_str cs))"

text \<open>\<open>getu4\<close>: the value of a \<open>\u\<close> escape at the head of the input.\<close>

definition getu4 :: "bytes \<Rightarrow> nat option" where
  "getu4 s = (case s of
     b # u # h1 # h2 # h3 # h4 # _ \<Rightarrow>
       if b = BSL \<and> u = CHR ''u'' then
         (case (hex_val h1, hex_val h2, hex_val h3, hex_val h4) of
            (Some a, Some b, Some c, Some d) \<Rightarrow> Some (((a * 16 + b) * 16 + c) * 16 + d)
          | _ \<Rightarrow> None)
       else None
   | _ \<Rightarrow> None)"

definition unescape_byte :: "char \<Rightarrow> char" where
  "unescape_byte e =
     (if e = CHR ''b'' then CHR 0x08 else if e = CHR ''f'' then CHR 0x0C
      else if e = CHR ''n'' then CHR 0x0A else if e = CHR ''r'' then CHR 0x0D
      else if e = CHR ''t'' then CHR 0x09 else e)"

function unquote :: "bytes \<Rightarrow> bytes" where
  "unquote [] = []"
| "unquote (c # cs) =
     (if c = BSL then
        (case getu4 (c # cs) of
           Some r \<Rightarrow>
             (if 0xD800 \<le> r \<and> r \<le> 0xDFFF then
                (case getu4 (drop 5 cs) of
                   Some r2 \<Rightarrow>
                     (if r < 0xDC00 \<and> 0xDC00 \<le> r2 \<and> r2 \<le> 0xDFFF
                      then EncodeRune ((r - 0xD800) * 1024 + (r2 - 0xDC00) + 0x10000)
                           @ unquote (drop 11 cs)
                      else EncodeRune rune_error @ unquote (drop 5 cs))
                 | None \<Rightarrow> EncodeRune rune_error @ unquote (drop 5 cs))
              else EncodeRune r @ unquote (drop 5 cs))
         | None \<Rightarrow> (case cs of [] \<Rightarrow> [] | e # cs' \<Rightarrow> unescape_byte e # unquote cs'))
      else if (of_char c :: nat) < 0x80 then c # unquote cs
      else case DecodeRune (c # cs) of (r, n) \<Rightarrow> EncodeRune r @ unquote (drop (n - 1) cs))"
  by pat_completeness auto
termination
  by (relation "measure length") auto

subsection \<open>Numbers\<close>

definition lex_int :: "bytes \<Rightarrow> (bytes \<times> bytes) option" where
  "lex_int s = (case s of [] \<Rightarrow> None
     | c # cs \<Rightarrow> if c = CHR ''0'' then Some ([c], cs)
                else if is_digit c then Some (takeWhile is_digit s, dropWhile is_digit s)
                else None)"

definition lex_frac :: "bytes \<Rightarrow> (bytes \<times> bytes) option" where
  "lex_frac s = (case s of [] \<Rightarrow> Some ([], [])
     | c # cs \<Rightarrow> if c = CHR ''.'' then
                  (if takeWhile is_digit cs = [] then None
                   else Some (c # takeWhile is_digit cs, dropWhile is_digit cs))
                else Some ([], s))"

definition lex_exp :: "bytes \<Rightarrow> (bytes \<times> bytes) option" where
  "lex_exp s = (case s of [] \<Rightarrow> Some ([], [])
     | c # cs \<Rightarrow> if c = CHR ''e'' \<or> c = CHR ''E'' then
          (let sg = (case cs of x # _ \<Rightarrow> if x = CHR ''+'' \<or> x = CHR ''-'' then [x] else [] | [] \<Rightarrow> []);
               t = drop (length sg) cs
           in if takeWhile is_digit t = [] then None
              else Some (c # sg @ takeWhile is_digit t, dropWhile is_digit t))
        else Some ([], s))"

definition lex_num :: "bytes \<Rightarrow> (bytes \<times> bytes) option" where
  "lex_num s =
     (let sg = (case s of x # _ \<Rightarrow> if x = CHR ''-'' then [x] else [] | [] \<Rightarrow> []) in
      case lex_int (drop (length sg) s) of None \<Rightarrow> None | Some (i, r1) \<Rightarrow>
      case lex_frac r1 of None \<Rightarrow> None | Some (f, r2) \<Rightarrow>
      case lex_exp r2 of None \<Rightarrow> None | Some (e, r3) \<Rightarrow> Some (sg @ i @ f @ e, r3))"

subsection \<open>The parser\<close>

definition is_ws :: "char \<Rightarrow> bool" where
  "is_ws c \<longleftrightarrow> c = CHR '' '' \<or> c = CHR 0x09 \<or> c = CHR 0x0A \<or> c = CHR 0x0D"

definition skip_ws :: "bytes \<Rightarrow> bytes" where
  "skip_ws s = dropWhile is_ws s"

definition strip_prefix :: "bytes \<Rightarrow> bytes \<Rightarrow> bytes option" where
  "strip_prefix p s = (if take (length p) s = p then Some (drop (length p) s) else None)"

definition parse_lit :: "bytes \<Rightarrow> json \<Rightarrow> bytes \<Rightarrow> (json \<times> bytes) option" where
  "parse_lit p v s = map_option (\<lambda>r. (v, r)) (strip_prefix p s)"

lemma length_skip_ws: "length (skip_ws s) \<le> length s"
  by (simp add: skip_ws_def length_dropWhile_le)

lemma skip_ws_length: "skip_ws s = c # cs \<Longrightarrow> length cs < length s"
  using length_skip_ws [of s] by simp

text \<open>
  \<open>d\<close> is the number of containers that may still be opened (Go refuses more than 10000 levels).
\<close>

function parse_val :: "nat \<Rightarrow> bytes \<Rightarrow> (json \<times> bytes) option"
  and parse_elems :: "nat \<Rightarrow> bytes \<Rightarrow> (json list \<times> bytes) option"
  and parse_members :: "nat \<Rightarrow> bytes \<Rightarrow> ((bytes \<times> json) list \<times> bytes) option" where
  "parse_val d s = (case skip_ws s of
     [] \<Rightarrow> None
   | c # cs \<Rightarrow>
       if c = CHR ''{'' then
         (if d = 0 then None
          else if take 1 (skip_ws cs) = ''}'' then Some (JObj [], drop 1 (skip_ws cs))
          else map_option (\<lambda>(kvs, r). (JObj kvs, r)) (parse_members (d - 1) cs))
       else if c = CHR ''['' then
         (if d = 0 then None
          else if take 1 (skip_ws cs) = '']'' then Some (JArr [], drop 1 (skip_ws cs))
          else map_option (\<lambda>(vs, r). (JArr vs, r)) (parse_elems (d - 1) cs))
       else if c = DQ then map_option (\<lambda>(raw, r). (JStr (unquote raw), r)) (lex_str cs)
       else if c = CHR ''-'' \<or> is_digit c then
         map_option (\<lambda>(l, r). (JNum l, r)) (lex_num (c # cs))
       else if c = CHR ''t'' then parse_lit ''true'' (JBool True) (c # cs)
       else if c = CHR ''f'' then parse_lit ''false'' (JBool False) (c # cs)
       else if c = CHR ''n'' then parse_lit ''null'' JNull (c # cs)
       else None)"
| "parse_elems d s = (case parse_val d s of
     None \<Rightarrow> None
   | Some (v, r) \<Rightarrow> (case skip_ws r of
       [] \<Rightarrow> None
     | c # r' \<Rightarrow>
         if c = CHR '']'' then Some ([v], r')
         else if c = CHR '','' \<and> length r' < length s then
           map_option (\<lambda>(vs, t). (v # vs, t)) (parse_elems d r')
         else None))"
| "parse_members d s = (case skip_ws s of
     [] \<Rightarrow> None
   | q # cs \<Rightarrow>
       if q \<noteq> DQ then None
       else (case lex_str cs of
         None \<Rightarrow> None
       | Some (k, r) \<Rightarrow> (case skip_ws r of
           [] \<Rightarrow> None
         | c # r' \<Rightarrow>
             if c = CHR '':'' \<and> length r' < length s then
               (case parse_val d r' of
                  None \<Rightarrow> None
                | Some (v, t) \<Rightarrow> (case skip_ws t of
                    [] \<Rightarrow> None
                  | e # t' \<Rightarrow>
                      if e = CHR ''}'' then Some ([(unquote k, v)], t')
                      else if e = CHR '','' \<and> length t' < length s then
                        map_option (\<lambda>(kvs, u). ((unquote k, v) # kvs, u)) (parse_members d t')
                      else None))
             else None)))"
  by pat_completeness auto
termination
  by (relation "measure (\<lambda>x. case x of Inl (d, s) \<Rightarrow> 2 * length s
        | Inr (Inl (d, s)) \<Rightarrow> 2 * length s + 1 | Inr (Inr (d, s)) \<Rightarrow> 2 * length s + 1)")
     (auto dest: skip_ws_length)

declare parse_val.simps [simp del] parse_elems.simps [simp del] parse_members.simps [simp del]

text \<open>The whole input must be one value (\<open>checkValid\<close>).\<close>

definition json_parse :: "bytes \<Rightarrow> json option" where
  "json_parse s = (case parse_val 10000 s of
     None \<Rightarrow> None
   | Some (v, r) \<Rightarrow> if skip_ws r = [] then Some v else None)"

subsection \<open>The printer\<close>

fun print_json :: "json \<Rightarrow> bytes"
  and print_elems :: "json list \<Rightarrow> bytes"
  and print_members :: "(bytes \<times> json) list \<Rightarrow> bytes" where
  "print_json JNull = ''null''"
| "print_json (JBool b) = (if b then ''true'' else ''false'')"
| "print_json (JNum l) = l"
| "print_json (JStr s) = json_quote s"
| "print_json (JArr vs) = ''['' @ print_elems vs @ '']''"
| "print_json (JObj kvs) = ''{'' @ print_members kvs @ ''}''"
| "print_elems [] = []"
| "print_elems [v] = print_json v"
| "print_elems (v # w # vs) = print_json v @ '','' @ print_elems (w # vs)"
| "print_members [] = []"
| "print_members [(k, v)] = json_quote k @ '':'' @ print_json v"
| "print_members ((k, v) # kv # kvs) = json_quote k @ '':'' @ print_json v @ '','' @ print_members (kv # kvs)"

subsection \<open>Decoding into Go values\<close>

text \<open>
  Field names match exactly, or up to \<open>foldName\<close>: ASCII letters without case, and the two
  characters beyond ASCII that fold to an ASCII letter (the Kelvin sign and the long s).
\<close>

fun fold_key :: "bytes \<Rightarrow> bytes" where
  "fold_key [] = []"
| "fold_key (c # cs) =
     (if take 3 (c # cs) = [CHR 0xE2, CHR 0x84, CHR 0xAA] then CHR ''K'' # fold_key (drop 2 cs)
      else if take 2 (c # cs) = [CHR 0xC5, CHR 0xBF] then CHR ''S'' # fold_key (drop 1 cs)
      else (if CHR ''a'' \<le> c \<and> c \<le> CHR ''z'' then char_of (of_char c - 32 :: nat) else c) # fold_key cs)"

definition field_of :: "bytes list \<Rightarrow> bytes \<Rightarrow> bytes option" where
  "field_of names k = (if k \<in> set names then Some k else find (\<lambda>n. fold_key n = fold_key k) names)"

text \<open>
  Store the members of an object, in order, with a setter that knows the canonical field names;
  \<open>None\<close> is a value of the wrong type (Unmarshal returns the error at the end).
\<close>

fun set_fields :: "bytes list \<Rightarrow> (bytes \<Rightarrow> json \<Rightarrow> 'r \<Rightarrow> 'r option) \<Rightarrow>
    (bytes \<times> json) list \<Rightarrow> 'r \<Rightarrow> 'r option" where
  "set_fields names f [] r = Some r"
| "set_fields names f ((k, v) # kvs) r =
     (case field_of names k of
        None \<Rightarrow> set_fields names f kvs r
      | Some n \<Rightarrow> (case f n v r of None \<Rightarrow> None | Some r' \<Rightarrow> set_fields names f kvs r'))"

definition decode_struct :: "bytes list \<Rightarrow> (bytes \<Rightarrow> json \<Rightarrow> 'r \<Rightarrow> 'r option) \<Rightarrow> json \<Rightarrow> 'r \<Rightarrow> 'r option" where
  "decode_struct names f j r = (case j of
     JNull \<Rightarrow> Some r
   | JObj kvs \<Rightarrow> set_fields names f kvs r
   | _ \<Rightarrow> None)"

definition json_Unmarshal :: "bytes list \<Rightarrow> (bytes \<Rightarrow> json \<Rightarrow> 'r \<Rightarrow> 'r option) \<Rightarrow> bytes \<Rightarrow> 'r \<Rightarrow> 'r option" where
  "json_Unmarshal names f s r = (case json_parse s of None \<Rightarrow> None | Some j \<Rightarrow> decode_struct names f j r)"

definition as_int64 :: "json \<Rightarrow> i64 \<Rightarrow> i64 option" where
  "as_int64 j old = (case j of JNull \<Rightarrow> Some old
     | JNum l \<Rightarrow> (case ParseInt l of (w, None) \<Rightarrow> Some w | _ \<Rightarrow> None) | _ \<Rightarrow> None)"

definition as_uint64 :: "json \<Rightarrow> u64 \<Rightarrow> u64 option" where
  "as_uint64 j old = (case j of JNull \<Rightarrow> Some old
     | JNum l \<Rightarrow> (case ParseUint l of (w, None) \<Rightarrow> Some w | _ \<Rightarrow> None) | _ \<Rightarrow> None)"

definition as_string :: "json \<Rightarrow> bytes \<Rightarrow> bytes option" where
  "as_string j old = (case j of JNull \<Rightarrow> Some old | JStr s \<Rightarrow> Some s | _ \<Rightarrow> None)"

definition as_bool :: "json \<Rightarrow> bool \<Rightarrow> bool option" where
  "as_bool j old = (case j of JNull \<Rightarrow> Some old | JBool b \<Rightarrow> Some b | _ \<Rightarrow> None)"

text \<open>An element of a \<open>[]byte\<close> given as an array of numbers.\<close>

definition as_uint8 :: "json \<Rightarrow> char option" where
  "as_uint8 j = (case j of JNull \<Rightarrow> Some (char_of (0 :: nat))
     | JNum l \<Rightarrow> (case ParseUint l of
         (w, None) \<Rightarrow> if unat w < 256 then Some (char_of (unat w)) else None | _ \<Rightarrow> None)
     | _ \<Rightarrow> None)"

fun sequence_opt :: "'a option list \<Rightarrow> 'a list option" where
  "sequence_opt [] = Some []"
| "sequence_opt (x # xs) = (case (x, sequence_opt xs) of (Some a, Some as) \<Rightarrow> Some (a # as) | _ \<Rightarrow> None)"

text \<open>A Go byte slice is nil or a list of bytes; \<open>null\<close> decodes to nil.\<close>

definition as_bytes :: "json \<Rightarrow> bytes option option" where
  "as_bytes j = (case j of JNull \<Rightarrow> Some None
     | JStr s \<Rightarrow> map_option Some (b64_dec s)
     | JArr vs \<Rightarrow> map_option Some (sequence_opt (map as_uint8 vs))
     | _ \<Rightarrow> None)"

definition as_strings :: "json \<Rightarrow> bytes list option" where
  "as_strings j = (case j of JNull \<Rightarrow> Some []
     | JArr vs \<Rightarrow> sequence_opt (map (\<lambda>v. as_string v []) vs)
     | _ \<Rightarrow> None)"

subsection \<open>Printing and parsing flat objects\<close>

lemma DQ_simps [simp]:
  "\<not> is_ws DQ" "\<not> is_digit DQ" "DQ \<noteq> CHR ''{''" "DQ \<noteq> CHR ''[''" "DQ \<noteq> CHR ''-''"
  "DQ \<noteq> CHR ''t''" "DQ \<noteq> CHR ''f''" "DQ \<noteq> CHR ''n''" "DQ \<noteq> CHR ''}''" "\<not> is_ws (CHR '':'')"
  "\<not> is_ws (CHR ''}'')" "\<not> is_ws (CHR '','')"
  by (simp_all add: DQ_def is_ws_def is_digit_def)

lemma skip_ws_Cons [simp]: "\<not> is_ws c \<Longrightarrow> skip_ws (c # cs) = c # cs"
  by (simp add: skip_ws_def)

abbreviation all_plain :: "bytes \<Rightarrow> bool" where
  "all_plain s \<equiv> \<forall>c\<in>set s. plain c"

lemma plainD:
  assumes "plain c"
  shows "c \<noteq> DQ" "c \<noteq> BSL" "\<not> (of_char c :: nat) < 0x20" "(of_char c :: nat) < 0x80"
  using assms by (auto simp: plain_def)

lemma json_escape_plain: "all_plain s \<Longrightarrow> json_escape s = s"
  by (induction s) (auto dest: plainD)

lemma lex_str_plain: "all_plain s \<Longrightarrow> lex_str (s @ DQ # r) = Some (s, r)"
  by (induction s) (auto dest: plainD)

lemma unquote_plain: "all_plain s \<Longrightarrow> unquote s = s"
  by (induction s) (auto dest: plainD)

lemma b64_safe_plain: "b64_safe c \<Longrightarrow> plain c"
  by (auto simp: b64_safe_def b64_val_def plain_def json_chars Let_def split: if_splits)

lemma b64_enc_plain: "all_plain (b64_enc s)"
  using b64_enc_safe b64_safe_plain by blast

text \<open>What may follow a number literal.\<close>

definition num_end :: "bytes \<Rightarrow> bool" where
  "num_end r \<longleftrightarrow> (case r of [] \<Rightarrow> True
     | c # _ \<Rightarrow> \<not> is_digit c \<and> c \<noteq> CHR ''.'' \<and> c \<noteq> CHR ''e'' \<and> c \<noteq> CHR ''E'')"

lemma num_end_simps [simp]: "num_end []" "num_end (CHR '','' # r)" "num_end (CHR ''}'' # r)"
  by (simp_all add: num_end_def is_digit_def)

lemma num_end_lex: "num_end r \<Longrightarrow> lex_frac r = Some ([], r) \<and> lex_exp r = Some ([], r)"
  by (cases r) (auto simp: num_end_def lex_frac_def lex_exp_def)

lemma takeWhile_digits:
  "(\<forall>c\<in>set ds. is_digit c) \<Longrightarrow> num_end r \<Longrightarrow>
   takeWhile is_digit (ds @ r) = ds \<and> dropWhile is_digit (ds @ r) = r"
  by (cases r) (auto simp: num_end_def takeWhile_append2 dropWhile_append2)

lemma dec_nat_lead: "0 < n \<Longrightarrow> \<exists>c cs. dec_nat n = c # cs \<and> is_digit c \<and> c \<noteq> CHR ''0''"
proof (induction n rule: dec_nat.induct)
  case (1 n)
  show ?case
  proof (cases "n < 10")
    case True
    have "of_char (digit n) \<noteq> (48 :: nat)" using True "1.prems" by simp
    then have "digit n \<noteq> CHR ''0''" by auto
    then show ?thesis using True by (simp add: dec_nat.simps [of n])
  next
    case False
    then have "0 < n div 10" by (simp add: div_greater_zero_iff)
    with "1.IH" [OF False] show ?thesis using False by (auto simp: dec_nat.simps [of n])
  qed
qed

lemma lex_int_dec:
  assumes "num_end r"
  shows "lex_int (dec_nat n @ r) = Some (dec_nat n, r)"
proof (cases "n = 0")
  case True
  moreover have "digit 0 = CHR ''0''" by code_simp
  ultimately have "dec_nat n = ''0''" by (simp add: dec_nat.simps [of 0])
  then show ?thesis by (simp add: lex_int_def)
next
  case False
  then obtain c cs where c: "dec_nat n = c # cs" "is_digit c" "c \<noteq> CHR ''0''"
    using dec_nat_lead by blast
  have "takeWhile is_digit (dec_nat n @ r) = dec_nat n \<and> dropWhile is_digit (dec_nat n @ r) = r"
    using assms dec_nat_digits by (intro takeWhile_digits) auto
  then show ?thesis using c by (simp add: lex_int_def)
qed

lemma lex_num_dec_nat: "num_end r \<Longrightarrow> lex_num (dec_nat n @ r) = Some (dec_nat n, r)"
proof -
  assume r: "num_end r"
  obtain c cs where c: "dec_nat n = c # cs" "is_digit c" using dec_nat_hd by blast
  then have "c \<noteq> CHR ''-''" using not_sign_digit by blast
  then show ?thesis
    using lex_int_dec [OF r, of n] num_end_lex [OF r] c(1) by (simp add: lex_num_def Let_def)
qed

lemma lex_num_dec_int: "num_end r \<Longrightarrow> lex_num (dec_int i @ r) = Some (dec_int i, r)"
  using lex_int_dec [of r "nat (- i)"] num_end_lex [of r] lex_num_dec_nat [of r "nat i"]
  by (simp add: dec_int_def lex_num_def)

text \<open>The scalar documents whose printed form parses back, whatever follows.\<close>

fun scalar :: "json \<Rightarrow> bool" where
  "scalar JNull = True"
| "scalar (JBool b) = True"
| "scalar (JNum l) = (\<exists>i. l = dec_int i)"
| "scalar (JStr s) = all_plain s"
| "scalar _ = False"

lemma scalar_num [simp]: "scalar (JNum (dec_nat n))" "scalar (JNum (dec_int i))"
  by (auto simp: dec_int_def intro: exI [of _ "int n"])

lemma field_of_mem [simp]: "n \<in> set names \<Longrightarrow> field_of names n = Some n"
  by (simp add: field_of_def)

lemma is_ws_digit: "is_digit c \<Longrightarrow> \<not> is_ws c"
  by (auto simp: is_ws_def is_digit_def)

lemma digit_not_special:
  "is_digit c \<Longrightarrow> c \<noteq> CHR ''{'' \<and> c \<noteq> CHR ''['' \<and> c \<noteq> DQ"
  by (auto simp: is_digit_def DQ_def)

lemma dec_int_hd: "\<exists>c cs. dec_int i = c # cs \<and> (c = CHR ''-'' \<or> is_digit c)"
  using dec_nat_hd [of "nat i"] by (auto simp: dec_int_def)

lemma parse_val_num:
  assumes "num_end r"
  shows "parse_val d (dec_int i @ r) = Some (JNum (dec_int i), r)"
proof -
  obtain c cs where c: "dec_int i = c # cs" "c = CHR ''-'' \<or> is_digit c"
    using dec_int_hd by blast
  then have "\<not> is_ws c" "c \<noteq> CHR ''{''" "c \<noteq> CHR ''[''" "c \<noteq> DQ"
    using is_ws_digit digit_not_special by (auto simp: is_ws_def DQ_def)
  then show ?thesis
    using c lex_num_dec_int [OF assms, of i]
    by (simp add: parse_val.simps [of d "c # cs @ r"] skip_ws_Cons)
qed

lemma parse_val_scalar:
  assumes "scalar v" and "num_end r"
  shows "parse_val d (print_json v @ r) = Some (v, r)"
proof (cases v)
  case JNull
  then show ?thesis
    by (simp add: parse_val.simps skip_ws_def is_ws_def is_digit_def DQ_def parse_lit_def strip_prefix_def)
next
  case (JBool b)
  then show ?thesis
    by (simp add: parse_val.simps skip_ws_def is_ws_def is_digit_def DQ_def parse_lit_def strip_prefix_def)
next
  case (JNum l)
  then show ?thesis using assms parse_val_num by auto
next
  case (JStr s)
  with assms have s: "all_plain s" by simp
  show ?thesis
    using JStr lex_str_plain [OF s, of r]
    by (simp add: parse_val.simps [of d "DQ # s @ DQ # r"] json_quote_def json_escape_plain [OF s]
        unquote_plain [OF s])
qed (use assms in auto)

lemma parse_members_step:
  assumes k: "all_plain k" and v: "parse_val d (t @ u) = Some (v, u)"
    and u: "u = e # u'" "\<not> is_ws e"
  shows "parse_members d (json_quote k @ CHR '':'' # t @ u) =
    (if e = CHR ''}'' then Some ([(k, v)], u')
     else if e = CHR '','' then map_option (\<lambda>(kvs, w). ((k, v) # kvs, w)) (parse_members d u')
     else None)"
proof -
  define s where "s = DQ # k @ DQ # CHR '':'' # t @ u"
  have s: "json_quote k @ CHR '':'' # t @ u = s"
    by (simp add: s_def json_quote_def json_escape_plain [OF k])
  have q: "skip_ws s = DQ # k @ DQ # CHR '':'' # t @ u" by (simp add: s_def)
  have w: "skip_ws u = e # u'" using u by simp
  have l: "length t + length u < length s" "length u' < length s" using u by (simp_all add: s_def)
  show ?thesis
    unfolding s
    by (simp add: parse_members.simps [of d s] q lex_str_plain [OF k] unquote_plain [OF k] v w l)
qed

lemma parse_members_print:
  assumes "kvs \<noteq> []" and "\<forall>(k, v)\<in>set kvs. all_plain k \<and> scalar v"
  shows "parse_members d (print_members kvs @ CHR ''}'' # r) = Some (kvs, r)"
  using assms
proof (induction kvs rule: induct_list012)
  case (2 kv)
  obtain k v where kv: "kv = (k, v)" by (cases kv)
  with 2 have "all_plain k" "scalar v" by auto
  from parse_members_step [OF this(1) parse_val_scalar [OF this(2)] refl, of "CHR ''}''" r d]
  show ?case by (simp add: kv is_ws_def)
next
  case (3 kv kw kvs)
  obtain k v where kv: "kv = (k, v)" by (cases kv)
  with 3 have "all_plain k" "scalar v" by auto
  from parse_members_step [OF this(1) parse_val_scalar [OF this(2)] refl,
      of "CHR '',''" "print_members (kw # kvs) @ CHR ''}'' # r" d] 3
  show ?case by (simp add: kv is_ws_def)
qed simp

theorem json_parse_print:
  assumes "\<forall>(k, v)\<in>set kvs. all_plain k \<and> scalar v"
  shows "json_parse (print_json (JObj kvs)) = Some (JObj kvs)"
proof (cases "kvs = []")
  case True
  then show ?thesis
    by (simp add: json_parse_def parse_val.simps skip_ws_def is_ws_def)
next
  case False
  then obtain k v kvs' where "kvs = (k, v) # kvs'" by (cases kvs) auto
  then obtain t where t: "print_members kvs = DQ # t"
    by (cases kvs') (auto simp: json_quote_def)
  from parse_members_print [OF False assms, of 9999 "[]"] show ?thesis
    by (simp add: json_parse_def parse_val.simps [of 10000] skip_ws_def is_ws_def t DQ_def)
qed

end
