(* ===== verification/Config.thy ===== *)
theory Config
  imports Json
begin

section \<open>internal/config: bootstrap.json\<close>

text \<open>
  Models config.go: the structures, their JSON fields, \<open>Load\<close> with its defaults and checks, and
  \<open>HasRole\<close>. Reading the file is an argument, as is the wording \<open>jerr\<close> of a decoding error of
  encoding/json.
\<close>

record TLSConfig =
  Enabled :: bool
  CAPath :: bytes
  CertPath :: bytes
  KeyPath :: bytes
  ServerName :: bytes

record Config =
  MiniminihubID :: bytes
  Slug :: bytes
  ParentEndpoint :: bytes
  Mode :: bytes
  Roles :: "bytes list"
  HeartbeatMs :: i64
  StorePath :: bytes
  TLS :: TLSConfig

definition zero_TLS :: TLSConfig where
  "zero_TLS = \<lparr>Enabled = False, CAPath = [], CertPath = [], KeyPath = [], ServerName = []\<rparr>"

definition zero_Config :: Config where
  "zero_Config = \<lparr>MiniminihubID = [], Slug = [], ParentEndpoint = [], Mode = [], Roles = [],
     HeartbeatMs = 0, StorePath = [], TLS = zero_TLS\<rparr>"

definition tls_fields :: "bytes list" where
  "tls_fields = [''enabled'', ''ca_path'', ''cert_path'', ''key_path'', ''server_name'']"

definition set_tls_field :: "bytes \<Rightarrow> json \<Rightarrow> TLSConfig \<Rightarrow> TLSConfig option" where
  "set_tls_field n j t =
     (if n = ''enabled'' then map_option (\<lambda>v. t\<lparr>Enabled := v\<rparr>) (as_bool j (Enabled t))
      else if n = ''ca_path'' then map_option (\<lambda>v. t\<lparr>CAPath := v\<rparr>) (as_string j (CAPath t))
      else if n = ''cert_path'' then map_option (\<lambda>v. t\<lparr>CertPath := v\<rparr>) (as_string j (CertPath t))
      else if n = ''key_path'' then map_option (\<lambda>v. t\<lparr>KeyPath := v\<rparr>) (as_string j (KeyPath t))
      else map_option (\<lambda>v. t\<lparr>ServerName := v\<rparr>) (as_string j (ServerName t)))"

definition config_fields :: "bytes list" where
  "config_fields = [''miniminihub_id'', ''slug'', ''parent_minihub_endpoint'', ''mode'', ''roles'',
     ''heartbeat_ms'', ''store_path'', ''tls'']"

definition set_config_field :: "bytes \<Rightarrow> json \<Rightarrow> Config \<Rightarrow> Config option" where
  "set_config_field n j c =
     (if n = ''miniminihub_id'' then map_option (\<lambda>v. c\<lparr>MiniminihubID := v\<rparr>) (as_string j (MiniminihubID c))
      else if n = ''slug'' then map_option (\<lambda>v. c\<lparr>Slug := v\<rparr>) (as_string j (Slug c))
      else if n = ''parent_minihub_endpoint''
        then map_option (\<lambda>v. c\<lparr>ParentEndpoint := v\<rparr>) (as_string j (ParentEndpoint c))
      else if n = ''mode'' then map_option (\<lambda>v. c\<lparr>Mode := v\<rparr>) (as_string j (Mode c))
      else if n = ''roles'' then map_option (\<lambda>v. c\<lparr>Roles := v\<rparr>) (as_strings j)
      else if n = ''heartbeat_ms'' then map_option (\<lambda>v. c\<lparr>HeartbeatMs := v\<rparr>) (as_int64 j (HeartbeatMs c))
      else if n = ''store_path'' then map_option (\<lambda>v. c\<lparr>StorePath := v\<rparr>) (as_string j (StorePath c))
      else map_option (\<lambda>v. c\<lparr>TLS := v\<rparr>) (decode_struct tls_fields set_tls_field j (TLS c)))"

definition config_Unmarshal :: "bytes \<Rightarrow> Config option" where
  "config_Unmarshal s = json_Unmarshal config_fields set_config_field s zero_Config"

definition Load :: "(bytes \<Rightarrow> gerror + bytes) \<Rightarrow> (bytes \<Rightarrow> gerror) \<Rightarrow> bytes \<Rightarrow> gerror + Config" where
  "Load ReadFile jerr path = (case ReadFile path of
     Inl e \<Rightarrow> Inl (Wrapped (''read bootstrap '' @ path) e)
   | Inr data \<Rightarrow> (case config_Unmarshal data of
       None \<Rightarrow> Inl (Wrapped ''parse bootstrap'' (jerr data))
     | Some c \<Rightarrow>
         (if ParentEndpoint c = [] then Inl (ErrText ''parent_minihub_endpoint is required'')
          else
            let c = (if Slug c = [] then c\<lparr>Slug := ''mmh-unknown''\<rparr> else c);
                c = (if sint (HeartbeatMs c) \<le> 0 then c\<lparr>HeartbeatMs := 30000\<rparr> else c);
                c = (if StorePath c = [] then c\<lparr>StorePath := ''/var/lib/mmh/store.db''\<rparr> else c)
            in if Enabled (TLS c) \<and>
                  (CertPath (TLS c) = [] \<or> KeyPath (TLS c) = [] \<or> CAPath (TLS c) = [])
               then Inl (ErrText ''tls enabled but ca_path/cert_path/key_path missing'')
               else Inr c)))"

fun HasRole_loop :: "bytes list \<Rightarrow> bytes \<Rightarrow> bool" where
  "HasRole_loop [] role = False"
| "HasRole_loop (r # rs) role = (if r = role then True else HasRole_loop rs role)"

definition HasRole :: "Config \<Rightarrow> bytes \<Rightarrow> bool" where
  "HasRole c role = HasRole_loop (Roles c) role"

subsection \<open>What a loaded configuration guarantees\<close>

definition tls_complete :: "TLSConfig \<Rightarrow> bool" where
  "tls_complete t \<longleftrightarrow> (Enabled t \<longrightarrow> CertPath t \<noteq> [] \<and> KeyPath t \<noteq> [] \<and> CAPath t \<noteq> [])"

definition config_ok :: "Config \<Rightarrow> bool" where
  "config_ok c \<longleftrightarrow> ParentEndpoint c \<noteq> [] \<and> Slug c \<noteq> [] \<and> 0 < sint (HeartbeatMs c)
     \<and> StorePath c \<noteq> [] \<and> tls_complete (TLS c)"

text \<open>The defaults, field by field.\<close>

definition with_defaults :: "Config \<Rightarrow> Config" where
  "with_defaults c = c\<lparr>
     Slug := (if Slug c = [] then ''mmh-unknown'' else Slug c),
     HeartbeatMs := (if sint (HeartbeatMs c) \<le> 0 then 30000 else HeartbeatMs c),
     StorePath := (if StorePath c = [] then ''/var/lib/mmh/store.db'' else StorePath c)\<rparr>"

lemma with_defaults_simps [simp]:
  "ParentEndpoint (with_defaults c) = ParentEndpoint c" "TLS (with_defaults c) = TLS c"
  "Roles (with_defaults c) = Roles c" "Slug (with_defaults c) \<noteq> []" "StorePath (with_defaults c) \<noteq> []"
  "0 < sint (HeartbeatMs (with_defaults c))"
  by (simp_all add: with_defaults_def)

lemma with_defaults_ok: "config_ok c \<Longrightarrow> with_defaults c = c"
  by (auto simp: with_defaults_def config_ok_def)

lemma Load_cases:
  "Load ReadFile jerr path = (case ReadFile path of
     Inl e \<Rightarrow> Inl (Wrapped (''read bootstrap '' @ path) e)
   | Inr data \<Rightarrow> (case config_Unmarshal data of
       None \<Rightarrow> Inl (Wrapped ''parse bootstrap'' (jerr data))
     | Some c \<Rightarrow>
         if ParentEndpoint c = [] then Inl (ErrText ''parent_minihub_endpoint is required'')
         else if \<not> tls_complete (TLS c) then Inl (ErrText ''tls enabled but ca_path/cert_path/key_path missing'')
         else Inr (with_defaults c)))"
  by (auto simp: Load_def Let_def tls_complete_def with_defaults_def split: sum.split option.split)

lemma HasRole_set: "HasRole c role \<longleftrightarrow> role \<in> set (Roles c)"
proof -
  have "HasRole_loop rs role \<longleftrightarrow> role \<in> set rs" for rs by (induction rs) auto
  then show ?thesis by (simp add: HasRole_def)
qed

subsection \<open>Properties\<close>

text \<open>C31: A configuration is accepted exactly when its file can be read and decoded, it names the
  parent endpoint and, with TLS enabled, all three paths. What is accepted is the decoded file with
  the defaults for a missing slug and store path and for a heartbeat that is not positive; it
  satisfies every requirement the other parts rely on.\<close>

theorem load_accepts_valid_config:
  "Load ReadFile jerr path = Inr c \<longleftrightarrow>
     (\<exists>data c0. ReadFile path = Inr data \<and> config_Unmarshal data = Some c0 \<and> ParentEndpoint c0 \<noteq> []
        \<and> tls_complete (TLS c0) \<and> c = with_defaults c0 \<and> config_ok c)"
  by (auto simp: Load_cases config_ok_def split: sum.splits option.splits if_splits)

end
