(* ===== verification/Supervisor.thy ===== *)
theory Supervisor
  imports Prelude "HOL-Library.Multiset"
begin

section \<open>internal/mop: the supervisor of the workers\<close>

text \<open>
  Models supervisor.go. A worker is what the interface \<open>Worker\<close> of mop.go offers: its name, its
  priority and \<open>Init\<close>, an operation on the state of the program. \<open>Run\<close> sorts the workers, calls
  \<open>Init\<close> in that order and then supervises every worker in a goroutine of its own. A goroutine is
  driven by what its environment does in each round: whether the context is already cancelled, what
  the worker's \<open>Run\<close> returns, and whether the context ends during the wait. Durations are
  nanoseconds in 64 bits (\<open>time.Duration\<close>).
\<close>

subsection \<open>Workers\<close>

record 's Worker =
  w_Name :: bytes
  StartPriority :: i64
  w_Init :: "'s \<Rightarrow> gerror option \<times> 's"

definition by_priority :: "'s Worker list \<Rightarrow> 's Worker list" where
  "by_priority ws = sort_key (\<lambda>w. sint (StartPriority w)) ws"

text \<open>The \<open>Init\<close> phase: the names of the workers whose \<open>Init\<close> was called, the error, the state.\<close>

fun init_phase :: "'s Worker list \<Rightarrow> 's \<Rightarrow> bytes list \<times> gerror option \<times> 's" where
  "init_phase [] s = ([], None, s)"
| "init_phase (w # ws) s = (case w_Init w s of
     (Some e, s') \<Rightarrow> ([w_Name w], Some (Wrapped (''init worker '' @ w_Name w) e), s')
   | (None, s') \<Rightarrow> (case init_phase ws s' of (called, r, t) \<Rightarrow> (w_Name w # called, r, t)))"

subsection \<open>Supervision of one worker\<close>

record round =
  ctx_before :: bool
  run_err :: "gerror option"
  ctx_after :: bool
  ctx_in_wait :: bool

datatype sup_event =
    WorkerRun
  | ExitError gerror i64
  | ExitWarn i64
  | Waited i64
  | Returned

definition base_backoff :: i64 where
  "base_backoff = 1000000000"

definition max_backoff :: i64 where
  "max_backoff = 30000000000"

definition next_backoff :: "i64 \<Rightarrow> i64" where
  "next_backoff b = (let b' = b * 2 in if sint max_backoff < sint b' then max_backoff else b')"

text \<open>The trace of the loop over the rounds its environment plays.\<close>

fun supervise_loop :: "i64 \<Rightarrow> round list \<Rightarrow> sup_event list" where
  "supervise_loop backoff [] = []"
| "supervise_loop backoff (r # rs) =
     (if ctx_before r then [Returned]
      else WorkerRun #
        (if ctx_after r then [Returned]
         else (case run_err r of Some e \<Rightarrow> ExitError e backoff | None \<Rightarrow> ExitWarn backoff) #
           (if ctx_in_wait r then [Returned]
            else Waited backoff # supervise_loop (next_backoff backoff) rs)))"

definition superviseRun :: "round list \<Rightarrow> sup_event list" where
  "superviseRun rs = supervise_loop base_backoff rs"

subsection \<open>Run\<close>

text \<open>
  \<open>Run\<close>: the order in which the workers were initialised, the traces of the supervised workers and
  the result. \<open>env w\<close> are the rounds of worker \<open>w\<close>; \<open>drained\<close> tells whether every goroutine ended
  within 30 s of the shutdown signal.
\<close>

definition Supervisor_Run :: "'s Worker list \<Rightarrow> (bytes \<Rightarrow> round list) \<Rightarrow> bool \<Rightarrow> 's \<Rightarrow>
    bytes list \<times> (bytes \<times> sup_event list) list \<times> gerror option \<times> 's" where
  "Supervisor_Run workers env drained s =
     (let ws = by_priority workers in
      case init_phase ws s of
        (called, Some e, s') \<Rightarrow> (called, [], Some e, s')
      | (called, None, s') \<Rightarrow>
          (called, map (\<lambda>w. (w_Name w, superviseRun (env (w_Name w)))) ws,
           (if drained then None else Some (ErrText ''shutdown timeout: workers still running after 30s'')),
           s'))"

subsection \<open>Lemmas\<close>

lemma backoff_values: "sint base_backoff = 10 ^ 9" "sint max_backoff = 30 * 10 ^ 9"
  by (simp_all add: base_backoff_def max_backoff_def)

lemma next_backoff_value:
  assumes "10 ^ 9 \<le> sint b" and "sint b \<le> 30 * 10 ^ 9"
  shows "sint (next_backoff b) = min (2 * sint b) (30 * 10 ^ 9)"
proof -
  have "sint (b * 2) = 2 * sint b"
    using assms by (simp add: sint_word_ariths signed_take_bit_int_eq_self)
  then show ?thesis using backoff_values by (simp add: next_backoff_def Let_def)
qed

text \<open>The waits of a trace are the powers of two times the base, capped.\<close>

definition waits :: "sup_event list \<Rightarrow> int list" where
  "waits es = concat (map (\<lambda>e. case e of Waited b \<Rightarrow> [sint b] | _ \<Rightarrow> []) es)"

lemma waits_simps [simp]:
  "waits [] = []" "waits (WorkerRun # es) = waits es" "waits (ExitError e b # es) = waits es"
  "waits (ExitWarn b # es) = waits es" "waits (Waited b # es) = sint b # waits es"
  "waits (Returned # es) = waits es"
  by (simp_all add: waits_def)

lemma supervise_waits:
  assumes "sint b = min (2 ^ k * 10 ^ 9) (30 * 10 ^ 9)"
  shows "waits (supervise_loop b rs) =
    map (\<lambda>i. min (2 ^ (k + i) * 10 ^ 9) (30 * 10 ^ 9)) [0 ..< length (waits (supervise_loop b rs))]"
  using assms
proof (induction rs arbitrary: b k)
  case (Cons r rs)
  have ge: "(10 :: int) ^ 9 \<le> sint b" "sint b \<le> 30 * 10 ^ 9"
    using Cons.prems one_le_power [of "2 :: int" k] by auto
  have n: "sint (next_backoff b) = min (2 ^ Suc k * 10 ^ 9) (30 * 10 ^ 9)"
    using next_backoff_value [OF ge] Cons.prems by auto
  from Cons.IH [OF n] Cons.prems show ?case
    by (auto simp: upt_conv_Cons map_Suc_upt [symmetric] comp_def
        simp del: upt_Suc map_Suc_upt split: option.split)
qed simp

lemma init_phase_prefix:
  "init_phase ws s = (called, r, t) \<Longrightarrow>
   called = map w_Name (take (length called) ws) \<and> (r = None \<longrightarrow> length called = length ws)"
proof (induction ws arbitrary: s called)
  case (Cons w ws)
  then show ?case by (auto split: prod.splits option.splits)
qed simp

text \<open>After a failed \<open>Init\<close> no further worker is initialised.\<close>

lemma init_phase_error:
  "init_phase ws s = (called, Some e, t) \<Longrightarrow>
   called \<noteq> [] \<and> (\<exists>err. e = Wrapped (''init worker '' @ last called) err)"
proof (induction ws arbitrary: s called)
  case (Cons w ws)
  then show ?case by (fastforce split: prod.splits option.splits)
qed simp

definition ctx_ends :: "round \<Rightarrow> bool" where
  "ctx_ends r \<longleftrightarrow> ctx_before r \<or> ctx_after r \<or> ctx_in_wait r"

lemma supervise_returns: "Returned \<in> set (supervise_loop b rs) \<longleftrightarrow> list_ex ctx_ends rs"
  by (induction rs arbitrary: b) (auto simp: ctx_ends_def split: option.split)

lemma supervise_runs:
  "\<not> list_ex ctx_ends rs \<Longrightarrow> length (filter (\<lambda>e. e = WorkerRun) (supervise_loop b rs)) = length rs"
  by (induction rs arbitrary: b) (auto simp: ctx_ends_def split: option.split)

subsection \<open>Properties\<close>

text \<open>Start-up order. The workers are initialised by increasing priority, workers of the same
  priority in the order they were registered. Either all of them are initialised and each of them is
  supervised, or one \<open>Init\<close> fails: then its error is returned, naming that worker, no later worker
  is initialised and none is run.\<close>

theorem supervisor_start_order:
  assumes "Supervisor_Run workers env drained s = (called, traces, res, t)"
  shows "\<exists>ws. mset ws = mset workers \<and> sorted (map (\<lambda>w. sint (StartPriority w)) ws)
    \<and> (\<forall>p. filter (\<lambda>w. sint (StartPriority w) = p) ws = filter (\<lambda>w. sint (StartPriority w) = p) workers)
    \<and> called = map w_Name (take (length called) ws)
    \<and> (length called = length ws \<and> map fst traces = called \<and> (res = None \<longleftrightarrow> drained)
       \<or> traces = [] \<and> (\<exists>err. res = Some (Wrapped (''init worker '' @ last called) err)))"
proof (intro exI conjI allI)
  show "mset (by_priority workers) = mset workers" by (simp add: by_priority_def)
  show "sorted (map (\<lambda>w. sint (StartPriority w)) (by_priority workers))" by (simp add: by_priority_def)
  show "filter (\<lambda>w. sint (StartPriority w) = p) (by_priority workers) =
      filter (\<lambda>w. sint (StartPriority w) = p) workers" for p
    unfolding by_priority_def by (rule sort_key_stable)
  obtain c r u where i: "init_phase (by_priority workers) s = (c, r, u)"
    by (cases "init_phase (by_priority workers) s")
  then have c: "called = c" using assms by (auto simp: Supervisor_Run_def split: option.splits)
  show "called = map w_Name (take (length called) (by_priority workers))"
    using init_phase_prefix [OF i] c by simp
  show "length called = length (by_priority workers) \<and> map fst traces = called \<and> (res = None \<longleftrightarrow> drained)
       \<or> traces = [] \<and> (\<exists>err. res = Some (Wrapped (''init worker '' @ last called) err))"
  proof (cases r)
    case None
    then show ?thesis
      using assms i init_phase_prefix [OF i]
      by (cases drained) (auto simp: Supervisor_Run_def comp_def)
  next
    case (Some e)
    then show ?thesis
      using assms i init_phase_error [of "by_priority workers" s c e u]
      by (auto simp: Supervisor_Run_def)
  qed
qed

theorem supervisor_start_order_witness:
  "fst (Supervisor_Run
     [\<lparr>w_Name = ''state'', StartPriority = 200, w_Init = (\<lambda>s. (None, s + 1))\<rparr>,
      \<lparr>w_Name = ''tunnel'', StartPriority = 100, w_Init = (\<lambda>s. (None, s + 10))\<rparr>]
     (\<lambda>_. []) True (0 :: nat)) = [''tunnel'', ''state'']"
proof -
  let ?ws = "[\<lparr>w_Name = ''state'', StartPriority = 200, w_Init = (\<lambda>s. (None, s + 1))\<rparr>,
      \<lparr>w_Name = ''tunnel'', StartPriority = 100, w_Init = (\<lambda>s :: nat. (None, s + 10))\<rparr>]"
  have "Supervisor_Run ?ws (\<lambda>_. []) True 0 =
      ([''tunnel'', ''state''], [(''tunnel'', []), (''state'', [])], None, 11)"
    by (simp add: Supervisor_Run_def by_priority_def superviseRun_def Let_def)
  from supervisor_start_order [OF this] this show ?thesis by simp
qed

text \<open>C33: Restarts. A supervised worker is run again after every exit, with or without an error,
  until the context ends, and the loop returns only then. The waits between two runs are 1 s, 2 s,
  4 s, 8 s, 16 s and then 30 s each, without overflow.\<close>

theorem supervise_backoff:
  "waits (superviseRun rs) = map (\<lambda>i. min (2 ^ i * 10 ^ 9) (30 * 10 ^ 9)) [0 ..< length (waits (superviseRun rs))]
   \<and> (Returned \<in> set (superviseRun rs) \<longleftrightarrow> list_ex ctx_ends rs)
   \<and> (list_ex ctx_ends rs \<or> length (filter (\<lambda>e. e = WorkerRun) (superviseRun rs)) = length rs)"
  using supervise_waits [of base_backoff 0 rs] supervise_returns supervise_runs
  by (auto simp: superviseRun_def backoff_values)

end
