(* ===== verification/GoText.thy ===== *)
theory GoText
  imports Json
begin

section \<open>Packages strings, encoding/hex and net, as far as the source uses them\<close>

text \<open>
  Operations on Go strings, byte by byte and, where the package works on runes, on the decoded
  runes. Tables beyond ASCII for case mapping are an argument; the white space of package unicode
  is a short list and is written out.
\<close>

subsection \<open>Runes\<close>

text \<open>The runes of a string with the bytes each was decoded from.\<close>

function runes :: "bytes \<Rightarrow> (nat \<times> bytes) list" where
  "runes [] = []"
| "runes (c # cs) = (case DecodeRune (c # cs) of (r, n) \<Rightarrow>
     (r, take n (c # cs)) # runes (drop (n - 1) cs))"
  by pat_completeness auto
termination
  by (relation "measure length") auto

definition ascii :: "char \<Rightarrow> bool" where
  "ascii c \<longleftrightarrow> (of_char c :: nat) < 0x80"

lemma runes_ascii: "\<forall>c\<in>set s. ascii c \<Longrightarrow> runes s = map (\<lambda>c. (of_char c, [c])) s"
  by (induction s) (simp_all add: DecodeRune_def ascii_def Let_def)

text \<open>\<open>unicode.IsSpace\<close>.\<close>

definition IsSpace :: "nat \<Rightarrow> bool" where
  "IsSpace r \<longleftrightarrow> (0x09 \<le> r \<and> r \<le> 0x0D) \<or> r = 0x20 \<or> r = 0x85 \<or> r = 0xA0 \<or> r = 0x1680
     \<or> (0x2000 \<le> r \<and> r \<le> 0x200A) \<or> r = 0x2028 \<or> r = 0x2029 \<or> r = 0x202F \<or> r = 0x205F \<or> r = 0x3000"

subsection \<open>Package strings\<close>

definition HasPrefix :: "bytes \<Rightarrow> bytes \<Rightarrow> bool" where
  "HasPrefix s p = (take (length p) s = p)"

definition TrimSuffix :: "bytes \<Rightarrow> bytes \<Rightarrow> bytes" where
  "TrimSuffix s p = (if length p \<le> length s \<and> drop (length s - length p) s = p
     then take (length s - length p) s else s)"

text \<open>\<open>strings.LastIndex\<close> of a one-byte separator, and \<open>strings.Cut\<close> at one.\<close>

fun LastIndex :: "bytes \<Rightarrow> char \<Rightarrow> nat option" where
  "LastIndex [] c = None"
| "LastIndex (x # xs) c = (case LastIndex xs c of
     Some i \<Rightarrow> Some (Suc i) | None \<Rightarrow> if x = c then Some 0 else None)"

fun Cut :: "bytes \<Rightarrow> char \<Rightarrow> bytes \<times> bytes \<times> bool" where
  "Cut [] c = ([], [], False)"
| "Cut (x # xs) c = (if x = c then ([], xs, True)
     else case Cut xs c of (a, b, ok) \<Rightarrow> (x # a, b, ok))"

text \<open>\<open>strings.Fields\<close>: the maximal runs of runes that are no white space.\<close>

fun fields_loop :: "bytes \<Rightarrow> (nat \<times> bytes) list \<Rightarrow> bytes list" where
  "fields_loop cur [] = (if cur = [] then [] else [cur])"
| "fields_loop cur ((r, b) # rs) =
     (if IsSpace r then (if cur = [] then [] else [cur]) @ fields_loop [] rs
      else fields_loop (cur @ b) rs)"

definition Fields :: "bytes \<Rightarrow> bytes list" where
  "Fields s = fields_loop [] (runes s)"

definition TrimSpace :: "bytes \<Rightarrow> bytes" where
  "TrimSpace s = concat (map snd (rev (dropWhile (\<lambda>rb. IsSpace (fst rb))
     (rev (dropWhile (\<lambda>rb. IsSpace (fst rb)) (runes s))))))"

definition lower_ascii :: "char \<Rightarrow> char" where
  "lower_ascii c = (if CHR ''A'' \<le> c \<and> c \<le> CHR ''Z'' then char_of (of_char c + 32 :: nat) else c)"

definition upper_ascii :: "char \<Rightarrow> char" where
  "upper_ascii c = (if CHR ''a'' \<le> c \<and> c \<le> CHR ''z'' then char_of (of_char c - 32 :: nat) else c)"

text \<open>\<open>strings.ToLower\<close> and \<open>strings.ToUpper\<close>; \<open>tab\<close> maps the runes of a string that is not ASCII.\<close>

definition ToLower :: "(nat \<Rightarrow> nat) \<Rightarrow> bytes \<Rightarrow> bytes" where
  "ToLower tab s = (if list_all ascii s then map lower_ascii s
     else concat (map (\<lambda>rb. EncodeRune (tab (fst rb))) (runes s)))"

definition ToUpper :: "(nat \<Rightarrow> nat) \<Rightarrow> bytes \<Rightarrow> bytes" where
  "ToUpper tab s = (if list_all ascii s then map upper_ascii s
     else concat (map (\<lambda>rb. EncodeRune (tab (fst rb))) (runes s)))"

subsection \<open>encoding/hex and net\<close>

definition hex_EncodeToString :: "bytes \<Rightarrow> bytes" where
  "hex_EncodeToString s = concat (map (\<lambda>c. [hex_char (of_char c div 16), hex_char (of_char c mod 16)]) s)"

definition JoinHostPort :: "bytes \<Rightarrow> bytes \<Rightarrow> bytes" where
  "JoinHostPort host port =
     (if CHR '':'' \<in> set host then ''['' @ host @ '']:'' @ port else host @ '':'' @ port)"

subsection \<open>Facts\<close>

lemma LastIndex_None: "LastIndex s c = None \<longleftrightarrow> c \<notin> set s"
  by (induction s) (auto split: option.split)

lemma LastIndex_Some:
  "LastIndex s c = Some i \<longleftrightarrow> (\<exists>u v. s = u @ c # v \<and> c \<notin> set v \<and> length u = i)"
proof (induction s arbitrary: i)
  case (Cons x xs)
  show ?case
  proof (cases "LastIndex xs c")
    case None
    then have n: "c \<notin> set xs" by (simp add: LastIndex_None)
    have "x # xs = u @ c # v \<Longrightarrow> u = []" for u v using n by (cases u) auto
    then show ?thesis using None n by (auto simp: Cons_eq_append_conv)
  next
    case (Some j)
    then obtain u v where uv: "xs = u @ c # v" "c \<notin> set v" "length u = j"
      using Cons.IH by blast
    have "i = Suc j" if "x # xs = u' @ c # v'" "c \<notin> set v'" "length u' = i" for u' v'
    proof (cases u')
      case Nil
      then show ?thesis using that uv(1) by auto
    next
      case (Cons y u'')
      then have "LastIndex xs c = Some (length u'')" using that Cons.IH by auto
      then show ?thesis using Some that(3) Cons by simp
    qed
    moreover have "x # xs = (x # u) @ c # v" using uv by simp
    ultimately show ?thesis using Some uv by (auto intro: exI [of _ "x # u"])
  qed
qed simp

lemma Cut_append: "c \<notin> set a \<Longrightarrow> Cut (a @ c # b) c = (a, b, True)"
  by (induction a) auto

lemma lower_ascii_idem: "lower_ascii (lower_ascii c) = lower_ascii c"
  by (cases "CHR ''A'' \<le> c \<and> c \<le> CHR ''Z''") (auto simp: lower_ascii_def less_eq_char_def)

end
