(* ===== verification/Proto.thy ===== *)
theory Proto
  imports Prelude
begin

section \<open>proto/mmhpb: the messages exchanged with the parent\<close>

text \<open>
  The message types of miniminihub.pb.go, one record per struct and one datatype per \<open>oneof\<close>
  (\<open>None\<close> is a \<open>oneof\<close> that is not set). A Go map is a partial function. The wire format belongs
  to google.golang.org/protobuf: the two functions the code calls are the fields of a record, and
  the locale \<open>proto_codec\<close> states that what was marshalled can be unmarshalled.
\<close>

subsection \<open>Control messages\<close>

record HeartbeatRequest =
  hb_MiniminihubId :: bytes
  hb_Slug :: bytes
  ClientTsMs :: i64
  hb_Sequence :: u64
  CpuLoadPct :: i32
  MemPct :: i32
  DiskPct :: i32
  ConnsByService :: "bytes \<rightharpoonup> i32"

record HeartbeatResponse =
  hr_Accepted :: bool
  ServerTsMs :: i64
  NextIntervalMs :: i32
  TraceId :: bytes

record PollRequest =
  poll_MiniminihubId :: bytes
  poll_Slug :: bytes

record PingCommand =
  Note :: bytes

record EgressOpenCommand =
  ConnId :: bytes
  Host :: bytes
  Port :: u32
  ViaTor :: bool

record RotateEgressCommand =
  rot_RequestId :: bytes

record SmtpSendCommand =
  RequestId :: bytes
  MailFrom :: bytes
  RcptTo :: "bytes list"
  Data :: bytes
  Starttls :: bool
  Helo :: bytes

record ReportHub =
  HubKey :: bytes
  Recipients :: "bytes list"
  SubjectTpl :: bytes

record JobSpec =
  Id :: bytes
  job_Enabled :: bool
  Schedule :: bytes
  Timezone :: bytes
  AgentKind :: bytes
  AgentParams :: "bytes \<rightharpoonup> bytes"
  PromptTemplate :: bytes
  PromptVars :: "bytes \<rightharpoonup> bytes"
  TimeoutMs :: i64
  Overlap :: bytes
  MaxAttempts :: i32
  BackoffMs :: i64
  ReportHubs :: "ReportHub list"

record ConfigureBatchCommand =
  Jobs :: "JobSpec list"

datatype isCommand_Payload =
    Command_Ping PingCommand
  | Command_EgressOpen EgressOpenCommand
  | Command_RotateEgress RotateEgressCommand
  | Command_SmtpSend SmtpSendCommand
  | Command_ConfigureBatch ConfigureBatchCommand

record Command =
  CommandId :: bytes
  IssuedAtMs :: i64
  cmd_Payload :: "isCommand_Payload option"

subsection \<open>Results\<close>

record BatchReport =
  JobId :: bytes
  RunId :: bytes
  rep_Status :: bytes
  ReportMd :: bytes
  rep_Metrics :: "bytes \<rightharpoonup> bytes"
  StartedAtMs :: i64
  EndedAtMs :: i64
  rep_Error :: bytes
  rep_ReportHubs :: "ReportHub list"

record SmtpResult =
  Accepted :: bool
  sr_Status :: bytes
  SmtpCode :: bytes
  SmtpMessage :: bytes
  MxHost :: bytes
  sr_Error :: bytes

datatype isResultMsg_Payload =
    ResultMsg_SmtpResult SmtpResult
  | ResultMsg_BatchReport BatchReport

record ResultMsg =
  res_RequestId :: bytes
  res_Payload :: "isResultMsg_Payload option"

record ResultAck =
  ack_Accepted :: bool

record EgressFrame =
  fr_ConnId :: bytes
  fr_Data :: bytes
  fr_Close :: bool
  fr_Error :: bytes

text \<open>A getter of a message pointer: the zero value for nil.\<close>

definition GetRunId :: "BatchReport option \<Rightarrow> bytes" where
  "GetRunId x = (case x of Some r \<Rightarrow> RunId r | None \<Rightarrow> [])"

definition GetSmtpResult :: "ResultMsg option \<Rightarrow> SmtpResult option" where
  "GetSmtpResult x = (case x of
     Some m \<Rightarrow> (case res_Payload m of Some (ResultMsg_SmtpResult r) \<Rightarrow> Some r | _ \<Rightarrow> None)
   | None \<Rightarrow> None)"

definition GetBatchReport :: "ResultMsg option \<Rightarrow> BatchReport option" where
  "GetBatchReport x = (case x of
     Some m \<Rightarrow> (case res_Payload m of Some (ResultMsg_BatchReport r) \<Rightarrow> Some r | _ \<Rightarrow> None)
   | None \<Rightarrow> None)"

subsection \<open>The wire format\<close>

record 'm codec =
  Marshal :: "'m \<Rightarrow> gerror + bytes"
  Unmarshal :: "bytes \<Rightarrow> 'm option"

locale proto_codec =
  fixes C :: "'m codec"
  assumes Unmarshal_Marshal: "Marshal C m = Inr bs \<Longrightarrow> Unmarshal C bs = Some m"
begin

lemma Marshal_inject: "Marshal C m = Inr bs \<Longrightarrow> Marshal C n = Inr bs \<Longrightarrow> m = n"
  using Unmarshal_Marshal [of m bs] Unmarshal_Marshal [of n bs] by simp

end

text \<open>A codec of one message, for witnesses.\<close>

definition one_codec :: "'m \<Rightarrow> 'm codec" where
  "one_codec m = \<lparr>Marshal = (\<lambda>n. if n = m then Inr [CHR 0x0A] else Inl (ErrText ''unsupported'')),
     Unmarshal = (\<lambda>bs. if bs = [CHR 0x0A] then Some m else None)\<rparr>"

interpretation one: proto_codec "one_codec m" for m
  by unfold_locales (simp add: one_codec_def split: if_splits)

lemma one_codec_codec: "proto_codec (one_codec m)"
  by unfold_locales

end
