(* ===== verification/Smtp.thy ===== *)
theory Smtp
  imports GoText Proto
begin

section \<open>internal/worker/smtp.go: direct delivery to the MX\<close>

text \<open>
  The SMTP role. The network is an environment: \<open>LookupMX\<close> and \<open>LookupHost\<close> are the resolver,
  a delivery attempt is a dialogue with one MX whose answers are given, and \<open>quote\<close> and \<open>lower\<close>
  are the tables behind \<open>%q\<close> and \<open>strings.ToLower\<close> beyond ASCII. Everything the code decides from
  those answers is written out: the recipient check, the order of the MX hosts, the dialogue with
  its early exits, the classification of the outcome and the result that is reported.
\<close>

subsection \<open>Recipients\<close>

definition err_no_rcpt :: gerror where
  "err_no_rcpt = ErrText ''aucun destinataire''"

text \<open>The loop of \<open>singleDomain\<close>, with the domain found so far.\<close>

fun singleDomain_loop :: "(bytes \<Rightarrow> bytes) \<Rightarrow> (bytes \<Rightarrow> bytes) \<Rightarrow> bytes \<Rightarrow> bytes list \<Rightarrow> gerror + bytes" where
  "singleDomain_loop quote lower domain [] = Inr domain"
| "singleDomain_loop quote lower domain (r # rs) =
     (case LastIndex r (CHR ''@'') of
        None \<Rightarrow> Inl (ErrText (''destinataire invalide: '' @ quote r))
      | Some at \<Rightarrow>
          if at = length r - 1 then Inl (ErrText (''destinataire invalide: '' @ quote r))
          else
            let d = lower (drop (at + 1) r) in
            if domain = [] then singleDomain_loop quote lower d rs
            else if d \<noteq> domain then
              Inl (ErrText (''destinataires multi-domaines non support'' @ [CHR 0xC3, CHR 0xA9] @ ''s ('' @
                     domain @ '' vs '' @ d @ '')''))
            else singleDomain_loop quote lower domain rs)"

definition singleDomain :: "(bytes \<Rightarrow> bytes) \<Rightarrow> (bytes \<Rightarrow> bytes) \<Rightarrow> bytes list \<Rightarrow> gerror + bytes" where
  "singleDomain quote lower rcpts =
     (if rcpts = [] then Inl err_no_rcpt else singleDomain_loop quote lower [] rcpts)"

subsection \<open>Resolution\<close>

record MX =
  MX_Host :: bytes
  Pref :: u16

record resolver =
  LookupMX :: "bytes \<Rightarrow> MX list \<times> gerror option"
  LookupHost :: "bytes \<Rightarrow> gerror option"

definition resolveMX :: "resolver \<Rightarrow> bytes \<Rightarrow> gerror + bytes list" where
  "resolveMX R domain = (case LookupMX R domain of (mxs, err) \<Rightarrow>
     if err = None \<and> 0 < length mxs then
       Inr (map (\<lambda>mx. TrimSuffix (MX_Host mx) ''.'') (sort_key (\<lambda>mx. unat (Pref mx)) mxs))
     else if LookupHost R domain = None then Inr [domain]
     else (case err of None \<Rightarrow> Inl (ErrText ''aucun MX ni A/AAAA'') | Some e \<Rightarrow> Inl e))"

subsection \<open>Replies\<close>

definition isPermanent :: "bytes \<Rightarrow> bool" where
  "isPermanent code = HasPrefix code ''5''"

definition smtpErr :: "gerror option \<Rightarrow> bytes \<times> bytes \<times> gerror option" where
  "smtpErr err = (case err of
     None \<Rightarrow> ([], [], None)
   | Some e \<Rightarrow>
       (let s = err_text e;
            code = (if 3 \<le> length s \<and> CHR ''0'' \<le> s ! 0 \<and> s ! 0 \<le> CHR ''9'' then take 3 s else [])
        in (code, s, Some e)))"

subsection \<open>One delivery\<close>

text \<open>
  The answers of an MX to each step of the dialogue; \<open>None\<close> is success. \<open>ans_Rcpt\<close> answers the
  recipients, \<open>ans_STARTTLS\<close> tells whether the extension is announced.
\<close>

record mx_answers =
  ans_dial :: "gerror option"
  ans_client :: "gerror option"
  ans_Hello :: "bytes \<Rightarrow> gerror option"
  ans_STARTTLS :: bool
  ans_StartTLS :: "gerror option"
  ans_Mail :: "bytes \<Rightarrow> gerror option"
  ans_Rcpt :: "bytes \<Rightarrow> gerror option"
  ans_Data :: "gerror option"
  ans_Write :: "bytes \<Rightarrow> gerror option"
  ans_Close :: "gerror option"

fun first_error :: "(bytes \<Rightarrow> gerror option) \<Rightarrow> bytes list \<Rightarrow> gerror option" where
  "first_error f [] = None"
| "first_error f (r # rs) = (case f r of Some e \<Rightarrow> Some e | None \<Rightarrow> first_error f rs)"

definition deliver :: "(bytes \<Rightarrow> mx_answers) \<Rightarrow> bytes \<Rightarrow> bytes \<Rightarrow> bytes \<Rightarrow> bytes list \<Rightarrow> bytes \<Rightarrow> bool \<Rightarrow>
    bytes \<times> bytes \<times> gerror option" where
  "deliver net mx helo from_addr rcpts dat starttls =
     (let addr = JoinHostPort mx ''25''; a = net mx in
      case ans_dial a of Some e \<Rightarrow> ([], [], Some (Wrapped (''dial '' @ addr) e)) | None \<Rightarrow>
      case ans_client a of Some e \<Rightarrow> ([], [], Some (Wrapped (''smtp client '' @ mx) e)) | None \<Rightarrow>
      case ans_Hello a helo of Some e \<Rightarrow> smtpErr (Some e) | None \<Rightarrow>
      if starttls \<and> ans_STARTTLS a \<and> ans_StartTLS a \<noteq> None
      then smtpErr (Some (Wrapped ''starttls'' (the (ans_StartTLS a))))
      else
      case ans_Mail a from_addr of Some e \<Rightarrow> smtpErr (Some e) | None \<Rightarrow>
      case first_error (ans_Rcpt a) rcpts of Some e \<Rightarrow> smtpErr (Some e) | None \<Rightarrow>
      case ans_Data a of Some e \<Rightarrow> smtpErr (Some e) | None \<Rightarrow>
      case ans_Write a dat of Some e \<Rightarrow> smtpErr (Some e) | None \<Rightarrow>
      case ans_Close a of Some e \<Rightarrow> smtpErr (Some e) | None \<Rightarrow>
      (''250'', ''accepted'', None))"

subsection \<open>Handling one command\<close>

record SmtpResultData =
  RequestID :: bytes
  srd_Accepted :: bool
  srd_Status :: bytes
  SMTPCode :: bytes
  SMTPMessage :: bytes
  MXHost :: bytes
  srd_Error :: bytes

definition empty_result :: "bytes \<Rightarrow> SmtpResultData" where
  "empty_result rid = \<lparr>RequestID = rid, srd_Accepted = False, srd_Status = [], SMTPCode = [],
     SMTPMessage = [], MXHost = [], srd_Error = []\<rparr>"

text \<open>\<open>%v\<close> of an error value; nil prints as \<open><nil>\<close>.\<close>

definition fmt_err :: "gerror option \<Rightarrow> bytes" where
  "fmt_err e = (case e of None \<Rightarrow> ''<nil>'' | Some x \<Rightarrow> err_text x)"

text \<open>
  The loop over the MX hosts, each with its index in the range: the result so far, the last error;
  \<open>True\<close> when one accepted. A host that is listed twice may answer differently the second time.
\<close>

fun mx_loop :: "(nat \<times> bytes \<Rightarrow> bytes \<times> bytes \<times> gerror option) \<Rightarrow> (nat \<times> bytes) list \<Rightarrow> SmtpResultData \<Rightarrow> gerror option \<Rightarrow>
    bool \<times> SmtpResultData \<times> gerror option" where
  "mx_loop dlv [] res lastErr = (False, res, lastErr)"
| "mx_loop dlv (mx # mxs) res lastErr =
     (case dlv mx of (code, msg, derr) \<Rightarrow>
        let res = res\<lparr>MXHost := snd mx, SMTPCode := code, SMTPMessage := msg\<rparr> in
        case derr of
          None \<Rightarrow> (True, res\<lparr>srd_Accepted := True, srd_Status := ''SENT''\<rparr>, lastErr)
        | Some e \<Rightarrow> mx_loop dlv mxs res (Some e))"

text \<open>
  \<open>handle\<close> (\<open>net i mx\<close> are the answers of host \<open>mx\<close> at attempt \<open>i\<close>): the result that is reported, and whether the counter \<open>smtp_sent\<close> is incremented
  (through \<open>incr\<close>) on the way. \<open>wHelo\<close> is the worker's own name.
\<close>

definition smtp_handle :: "resolver \<Rightarrow> (bytes \<Rightarrow> bytes) \<Rightarrow> (bytes \<Rightarrow> bytes) \<Rightarrow> (nat \<Rightarrow> bytes \<Rightarrow> mx_answers) \<Rightarrow> bytes \<Rightarrow>
    (bytes \<Rightarrow> 's \<Rightarrow> u64 \<times> gerror option \<times> 's) \<Rightarrow> SmtpSendCommand \<Rightarrow> 's \<Rightarrow> SmtpResultData \<times> 's" where
  "smtp_handle R quote lower net wHelo incr cmd s =
     (let res = empty_result (RequestId cmd);
          helo = (if Helo cmd = [] then wHelo else Helo cmd)
      in case singleDomain quote lower (RcptTo cmd) of
           Inl e \<Rightarrow> (res\<lparr>srd_Status := ''FAILED'', srd_Error := err_text e\<rparr>, s)
         | Inr domain \<Rightarrow>
             (let mxr = resolveMX R domain;
                  hosts = (case mxr of Inl _ \<Rightarrow> [] | Inr hs \<Rightarrow> hs);
                  err = (case mxr of Inl e \<Rightarrow> Some e | Inr _ \<Rightarrow> None)
              in if err \<noteq> None \<or> length hosts = 0 then
                   (res\<lparr>srd_Status := ''FAILED'',
                        srd_Error := ''r'' @ [CHR 0xC3, CHR 0xA9] @ ''solution MX '' @ domain @ '': '' @ fmt_err err\<rparr>, s)
                 else
                   (case mx_loop (\<lambda>(i, mx). deliver (net i) mx helo (MailFrom cmd) (RcptTo cmd) (Data cmd) (Starttls cmd))
                           (List.enumerate 0 hosts) res None of
                      (True, res', _) \<Rightarrow> (case incr ''smtp_sent'' s of (_, _, s') \<Rightarrow> (res', s'))
                    | (False, res', lastErr) \<Rightarrow>
                        (res'\<lparr>srd_Error := ''aucun MX joignable/acceptant: '' @ fmt_err lastErr,
                              srd_Status := (if isPermanent (SMTPCode res') then ''FAILED'' else ''DEFERRED'')\<rparr>, s))))"

text \<open>What \<open>PushSmtpResult\<close> sends to the parent.\<close>

definition smtp_result_msg :: "SmtpResultData \<Rightarrow> ResultMsg" where
  "smtp_result_msg r = \<lparr>res_RequestId = RequestID r, res_Payload = Some (ResultMsg_SmtpResult
     \<lparr>Accepted = srd_Accepted r, sr_Status = srd_Status r, SmtpCode = SMTPCode r,
      SmtpMessage = SMTPMessage r, MxHost = MXHost r, sr_Error = srd_Error r\<rparr>)\<rparr>"

subsection \<open>Lemmas\<close>

lemma EncodeRune_nonempty [simp]: "EncodeRune r \<noteq> []"
  by (simp add: EncodeRune_def Let_def)

lemma ToLower_empty [simp]: "ToLower tab s = [] \<longleftrightarrow> s = []"
proof (cases s)
  case (Cons c cs)
  obtain r n where "DecodeRune (c # cs) = (r, n)" by (cases "DecodeRune (c # cs)")
  then show ?thesis using Cons by (simp add: ToLower_def)
qed (simp add: ToLower_def)

text \<open>The domain of an address: what follows the last at-sign, if anything does.\<close>

definition addr_domain :: "bytes \<Rightarrow> bytes option" where
  "addr_domain r = (case LastIndex r (CHR ''@'') of
     None \<Rightarrow> None | Some i \<Rightarrow> if drop (i + 1) r = [] then None else Some (drop (i + 1) r))"

lemma addr_domain_Some:
  "addr_domain r = Some d \<longleftrightarrow> d \<noteq> [] \<and> CHR ''@'' \<notin> set d \<and> (\<exists>u. r = u @ CHR ''@'' # d)"
proof (cases "LastIndex r (CHR ''@'')")
  case None
  then have "addr_domain r = None" "CHR ''@'' \<notin> set r" 
    by (simp add: addr_domain_def) (use None in \<open>simp add: LastIndex_None [symmetric]\<close>)
  then show ?thesis by auto
next
  case (Some i)
  then obtain u v where uv: "r = u @ CHR ''@'' # v" "CHR ''@'' \<notin> set v" "length u = i"
    by (auto simp: LastIndex_Some)
  have "v = d" if "r = u' @ CHR ''@'' # d" "CHR ''@'' \<notin> set d" for u'
  proof -
    have "LastIndex r (CHR ''@'') = Some (length u')" using that by (auto simp: LastIndex_Some)
    then show ?thesis using Some uv that by simp
  qed
  then show ?thesis using uv Some by (auto simp: addr_domain_def)
qed

lemma singleDomain_step:
  "singleDomain_loop quote (ToLower tab) domain (r # rs) = (case addr_domain r of
     None \<Rightarrow> Inl (ErrText (''destinataire invalide: '' @ quote r))
   | Some x \<Rightarrow> if domain = [] \<or> domain = ToLower tab x
       then singleDomain_loop quote (ToLower tab) (ToLower tab x) rs
       else Inl (ErrText (''destinataires multi-domaines non support'' @ [CHR 0xC3, CHR 0xA9] @ ''s ('' @
              domain @ '' vs '' @ ToLower tab x @ '')'')))"
proof (cases "LastIndex r (CHR ''@'')")
  case (Some i)
  then obtain u v where "r = u @ CHR ''@'' # v" "length u = i" by (auto simp: LastIndex_Some)
  then show ?thesis using Some by (auto simp: addr_domain_def Let_def)
qed (simp add: addr_domain_def)

lemma singleDomain_loop_Inr:
  assumes "domain \<noteq> []"
  shows "singleDomain_loop quote (ToLower tab) domain rs = Inr d \<longleftrightarrow>
    d = domain \<and> (\<forall>r\<in>set rs. \<exists>x. addr_domain r = Some x \<and> ToLower tab x = domain)"
  using assms
proof (induction rs)
  case (Cons r rs)
  then show ?case by (auto simp: singleDomain_step simp del: singleDomain_loop.simps(2) split: option.split)
qed auto

lemma first_error_None: "first_error f rs = None \<longleftrightarrow> (\<forall>r\<in>set rs. f r = None)"
  by (induction rs) (auto split: option.split)

text \<open>Every step of the dialogue succeeded.\<close>

definition dialogue_ok :: "mx_answers \<Rightarrow> bytes \<Rightarrow> bytes \<Rightarrow> bytes list \<Rightarrow> bytes \<Rightarrow> bool \<Rightarrow> bool" where
  "dialogue_ok a helo from_addr rcpts dat starttls \<longleftrightarrow>
     ans_dial a = None \<and> ans_client a = None \<and> ans_Hello a helo = None
     \<and> (starttls \<and> ans_STARTTLS a \<longrightarrow> ans_StartTLS a = None) \<and> ans_Mail a from_addr = None
     \<and> (\<forall>r\<in>set rcpts. ans_Rcpt a r = None) \<and> ans_Data a = None \<and> ans_Write a dat = None
     \<and> ans_Close a = None"

lemma smtpErr_Some [simp]: "snd (snd (smtpErr (Some e))) = Some e"
  by (simp add: smtpErr_def Let_def)

lemma deliver_None:
  "deliver net mx helo from_addr rcpts dat starttls = (code, msg, None) \<longleftrightarrow>
   dialogue_ok (net mx) helo from_addr rcpts dat starttls \<and> code = ''250'' \<and> msg = ''accepted''"
  unfolding deliver_def dialogue_ok_def first_error_None [symmetric] Let_def
  by (auto simp: smtpErr_def Let_def split: option.split if_split)

text \<open>The hosts tried before, and including, the first that accepts.\<close>

lemma mx_loop_accept:
  assumes "mx_loop dlv mxs res lastErr = (True, res', e)"
  shows "\<exists>pre mx post. mxs = pre @ mx # post \<and> (\<forall>m\<in>set pre. snd (snd (dlv m)) \<noteq> None)
    \<and> snd (snd (dlv mx)) = None \<and> res' = res\<lparr>MXHost := snd mx, SMTPCode := fst (dlv mx),
        SMTPMessage := fst (snd (dlv mx)), srd_Accepted := True, srd_Status := ''SENT''\<rparr>"
  using assms
proof (induction mxs arbitrary: res lastErr)
  case (Cons mx mxs)
  obtain code msg derr where d: "dlv mx = (code, msg, derr)" by (cases "dlv mx")
  show ?case
  proof (cases derr)
    case None
    then show ?thesis using Cons.prems d by (intro exI [of _ "[]"] exI [of _ mx] exI [of _ mxs]) auto
  next
    case (Some x)
    with Cons.prems d have "mx_loop dlv mxs (res\<lparr>MXHost := snd mx, SMTPCode := code, SMTPMessage := msg\<rparr>) (Some x) = (True, res', e)"
      by simp
    from Cons.IH [OF this] obtain pre m post where i: "mxs = pre @ m # post"
      "\<forall>m\<in>set pre. snd (snd (dlv m)) \<noteq> None" "snd (snd (dlv m)) = None"
      "res' = res\<lparr>MXHost := snd m, SMTPCode := fst (dlv m), SMTPMessage := fst (snd (dlv m)),
        srd_Accepted := True, srd_Status := ''SENT''\<rparr>" by auto
    then show ?thesis using d Some by (intro exI [of _ "mx # pre"] exI [of _ m] exI [of _ post]) auto
  qed
qed simp

lemma mx_loop_reject:
  assumes "mx_loop dlv mxs res lastErr = (False, res', e)" and "mxs \<noteq> []"
  shows "(\<forall>m\<in>set mxs. snd (snd (dlv m)) \<noteq> None) \<and> e = snd (snd (dlv (last mxs)))
    \<and> res' = res\<lparr>MXHost := snd (last mxs), SMTPCode := fst (dlv (last mxs)), SMTPMessage := fst (snd (dlv (last mxs)))\<rparr>"
  using assms
proof (induction mxs arbitrary: res lastErr)
  case (Cons mx mxs)
  obtain code msg derr where d: "dlv mx = (code, msg, derr)" by (cases "dlv mx")
  with Cons.prems obtain x where x: "derr = Some x" by (cases derr) auto
  show ?case
  proof (cases "mxs = []")
    case True
    then show ?thesis using Cons.prems d x by auto
  next
    case False
    with Cons.prems d x
    have "mx_loop dlv mxs (res\<lparr>MXHost := snd mx, SMTPCode := code, SMTPMessage := msg\<rparr>) (Some x) = (False, res', e)"
      by simp
    from Cons.IH [OF this False] show ?thesis using d x False by auto
  qed
qed simp

text \<open>The hosts a command is tried on, and one attempt.\<close>

definition smtp_hosts :: "resolver \<Rightarrow> (bytes \<Rightarrow> bytes) \<Rightarrow> (bytes \<Rightarrow> bytes) \<Rightarrow> SmtpSendCommand \<Rightarrow> bytes list" where
  "smtp_hosts R quote lower cmd = (case singleDomain quote lower (RcptTo cmd) of Inl _ \<Rightarrow> []
     | Inr d \<Rightarrow> (case resolveMX R d of Inl _ \<Rightarrow> [] | Inr hs \<Rightarrow> hs))"

definition smtp_attempt :: "(nat \<Rightarrow> bytes \<Rightarrow> mx_answers) \<Rightarrow> bytes \<Rightarrow> SmtpSendCommand \<Rightarrow> nat \<times> bytes \<Rightarrow>
    bytes \<times> bytes \<times> gerror option" where
  "smtp_attempt net wHelo cmd a = deliver (net (fst a)) (snd a) (if Helo cmd = [] then wHelo else Helo cmd)
     (MailFrom cmd) (RcptTo cmd) (Data cmd) (Starttls cmd)"

definition accepts :: "(nat \<Rightarrow> bytes \<Rightarrow> mx_answers) \<Rightarrow> bytes \<Rightarrow> SmtpSendCommand \<Rightarrow> nat \<times> bytes \<Rightarrow> bool" where
  "accepts net wHelo cmd a \<longleftrightarrow> snd (snd (smtp_attempt net wHelo cmd a)) = None"

text \<open>The attempts in order: the hosts with their indices.\<close>

abbreviation smtp_tries :: "resolver \<Rightarrow> (bytes \<Rightarrow> bytes) \<Rightarrow> (bytes \<Rightarrow> bytes) \<Rightarrow> SmtpSendCommand \<Rightarrow> (nat \<times> bytes) list" where
  "smtp_tries R quote lower cmd \<equiv> List.enumerate 0 (smtp_hosts R quote lower cmd)"

lemma enumerate_Nil_iff [simp]: "List.enumerate n xs = [] \<longleftrightarrow> xs = []"
  by (cases xs) simp_all

lemma smtp_handle_no_host:
  assumes "smtp_hosts R quote lower cmd = []"
    and "smtp_handle R quote lower net wHelo incr cmd s = (res, s')"
  shows "RequestID res = RequestId cmd \<and> \<not> srd_Accepted res \<and> s' = s \<and> srd_Status res = ''FAILED''"
  using assms
  by (auto simp: smtp_handle_def smtp_hosts_def empty_result_def Let_def split: sum.splits)

lemma smtp_handle_hosts:
  assumes "smtp_hosts R quote lower cmd \<noteq> []"
    and "smtp_handle R quote lower net wHelo incr cmd s = (res, s')"
  shows "(res, s') = (case mx_loop (smtp_attempt net wHelo cmd) (smtp_tries R quote lower cmd)
       (empty_result (RequestId cmd)) None of
     (True, res', _) \<Rightarrow> (res', snd (snd (incr ''smtp_sent'' s)))
   | (False, res', lastErr) \<Rightarrow>
       (res'\<lparr>srd_Error := ''aucun MX joignable/acceptant: '' @ fmt_err lastErr,
             srd_Status := (if isPermanent (SMTPCode res') then ''FAILED'' else ''DEFERRED'')\<rparr>, s))"
  using assms
  by (auto simp: smtp_handle_def smtp_hosts_def smtp_attempt_def [abs_def] split_def Let_def
      split: sum.splits prod.splits bool.splits)

subsection \<open>Properties\<close>

text \<open>Recipient check. A message is accepted for delivery exactly when it has recipients, each
  of them has a non-empty part after its last at-sign, and these parts are the same up to case; the
  result is that domain in lower case.\<close>

theorem single_domain_exact:
  "singleDomain quote (ToLower tab) rcpts = Inr d \<longleftrightarrow>
   rcpts \<noteq> [] \<and> list_all (\<lambda>r. \<exists>x. addr_domain r = Some x \<and> ToLower tab x = d) rcpts"
proof (cases rcpts)
  case Nil
  then show ?thesis by (simp add: singleDomain_def)
next
  case (Cons r rs)
  show ?thesis
  proof (cases "addr_domain r")
    case None
    then show ?thesis
      using Cons by (simp add: singleDomain_def singleDomain_step del: singleDomain_loop.simps(2))
  next
    case (Some x)
    then have "ToLower tab x \<noteq> []" by (simp add: addr_domain_Some)
    from singleDomain_loop_Inr [OF this, of quote tab rs d] show ?thesis
      using Cons Some by (auto simp: singleDomain_def singleDomain_step list_all_iff simp del: singleDomain_loop.simps(2))
  qed
qed

text \<open>MX order. When the domain has MX records, the hosts are all of them, by increasing
  preference and in the order of the answer among equal preferences, without a final dot; otherwise
  the domain itself if it resolves; otherwise an error.\<close>

theorem resolve_mx_order:
  "resolveMX R domain =
     (case LookupMX R domain of
        (mx # mxs, None) \<Rightarrow> Inr (map (\<lambda>m. TrimSuffix (MX_Host m) ''.'') (sort_key (\<lambda>m. unat (Pref m)) (mx # mxs)))
      | (_, err) \<Rightarrow> if LookupHost R domain = None then Inr [domain]
                    else Inl (case err of Some e \<Rightarrow> e | None \<Rightarrow> ErrText ''aucun MX ni A/AAAA''))"
  by (auto simp: resolveMX_def split: prod.split option.split list.split)

text \<open>A delivery succeeds exactly when every step of the dialogue did: connection, greeting,
  STARTTLS if asked for and announced, sender, every recipient, data and its final answer. Success
  is reported as 250, any failure with an error.\<close>

theorem deliver_success:
  "deliver net mx helo from_addr rcpts dat starttls = (code, msg, None) \<longleftrightarrow>
   dialogue_ok (net mx) helo from_addr rcpts dat starttls \<and> code = ''250'' \<and> msg = ''accepted''"
  by (rule deliver_None)

text \<open>C23: Outcome of a command. The result carries the request's id. It is SENT, and the counter of
  sent messages is incremented once, exactly when an MX accepted the message; then that MX is the
  first in order of preference that accepts, and every one before it refused. (A host that the
  answer lists twice is tried twice, and may answer differently.) If all refuse, the
  status is FAILED for a 5xx code of the last MX tried and DEFERRED otherwise; without a valid
  common domain or an MX it is FAILED, and nothing is counted.\<close>

theorem smtp_outcome:
  assumes "smtp_handle R quote lower net wHelo incr cmd s = (res, s')"
  shows "RequestID res = RequestId cmd
    \<and> (if list_ex (accepts net wHelo cmd) (smtp_tries R quote lower cmd)
       then srd_Status res = ''SENT'' \<and> srd_Accepted res \<and> s' = snd (snd (incr ''smtp_sent'' s))
          \<and> map_option snd (find (accepts net wHelo cmd) (smtp_tries R quote lower cmd)) = Some (MXHost res)
       else \<not> srd_Accepted res \<and> s' = s \<and> srd_Status res =
          (if smtp_hosts R quote lower cmd = []
              \<or> take 1 (fst (smtp_attempt net wHelo cmd (last (smtp_tries R quote lower cmd)))) = ''5''
           then ''FAILED'' else ''DEFERRED''))"
proof (cases "smtp_hosts R quote lower cmd = []")
  case True
  then show ?thesis using smtp_handle_no_host [OF True assms] by simp
next
  case False
  let ?dlv = "smtp_attempt net wHelo cmd" and ?tries = "smtp_tries R quote lower cmd"
  obtain ok r e where m: "mx_loop ?dlv ?tries (empty_result (RequestId cmd)) None = (ok, r, e)"
    by (cases "mx_loop ?dlv ?tries (empty_result (RequestId cmd)) None")
  note h = smtp_handle_hosts [OF False assms, unfolded m]
  show ?thesis
  proof (cases ok)
    case True
    with m mx_loop_accept [of ?dlv ?tries "empty_result (RequestId cmd)" None r e]
    obtain pre mx post where x: "?tries = pre @ mx # post"
      "\<forall>m\<in>set pre. \<not> accepts net wHelo cmd m" "accepts net wHelo cmd mx"
      and r: "MXHost r = snd mx" "srd_Status r = ''SENT''" "srd_Accepted r" "RequestID r = RequestId cmd"
      by (auto simp: empty_result_def accepts_def)
    have "find (accepts net wHelo cmd) (pre @ mx # post) = Some mx"
      using x(2,3) by (induction pre) auto
    then show ?thesis using h True r x by (auto split: prod.splits)
  next
    case ok: False
    with m mx_loop_reject [of ?dlv ?tries "empty_result (RequestId cmd)" None r e] False
    have r: "\<forall>m\<in>set ?tries. \<not> accepts net wHelo cmd m" "\<not> srd_Accepted r"
      "SMTPCode r = fst (?dlv (last ?tries))" "RequestID r = RequestId cmd"
      by (auto simp: empty_result_def accepts_def)
    then show ?thesis using h ok False by (auto simp: list_ex_iff isPermanent_def HasPrefix_def)
  qed
qed

text \<open>A concrete network: the preferred MX cannot be reached, the second accepts.\<close>

definition demo_resolver :: resolver where
  "demo_resolver = \<lparr>LookupMX = (\<lambda>_. ([\<lparr>MX_Host = ''b.x.'', Pref = 20\<rparr>, \<lparr>MX_Host = ''a.x.'', Pref = 10\<rparr>], None)),
     LookupHost = (\<lambda>_. None)\<rparr>"

definition demo_net :: "nat \<Rightarrow> bytes \<Rightarrow> mx_answers" where
  "demo_net i mx = \<lparr>ans_dial = (if mx = ''a.x'' then Some (ErrText ''refused'') else None), ans_client = None,
     ans_Hello = (\<lambda>_. None), ans_STARTTLS = False, ans_StartTLS = None, ans_Mail = (\<lambda>_. None),
     ans_Rcpt = (\<lambda>_. None), ans_Data = None, ans_Write = (\<lambda>_. None), ans_Close = None\<rparr>"

definition demo_mail :: SmtpSendCommand where
  "demo_mail = \<lparr>RequestId = ''r1'', MailFrom = ''me@y'', RcptTo = [''u@X'', ''v@x''], Data = ''hi'',
     Starttls = True, Helo = []\<rparr>"

theorem smtp_outcome_witness:
  "fst (smtp_handle demo_resolver id (ToLower id) demo_net ''mmh'' (\<lambda>_ n. (0, None, Suc n)) demo_mail 0) =
     \<lparr>RequestID = ''r1'', srd_Accepted = True, srd_Status = ''SENT'', SMTPCode = ''250'',
      SMTPMessage = ''accepted'', MXHost = ''b.x'', srd_Error = []\<rparr>"
proof -
  let ?r = "smtp_handle demo_resolver id (ToLower id) demo_net ''mmh'' (\<lambda>_ n. (0, None, Suc n)) demo_mail 0"
  have h: "smtp_hosts demo_resolver id (ToLower id) demo_mail = [''a.x'', ''b.x'']" by code_simp
  have "accepts demo_net ''mmh'' demo_mail (1, ''b.x'')" "\<not> accepts demo_net ''mmh'' demo_mail (0, ''a.x'')"
    by code_simp+
  then have "MXHost (fst ?r) = ''b.x''"
    using smtp_outcome [OF prod.collapse [symmetric], of demo_resolver id "ToLower id" demo_net "''mmh''"
        "\<lambda>_ n. (0, None, Suc n)" demo_mail 0] h
    by simp
  moreover have "?r = (\<lparr>RequestID = ''r1'', srd_Accepted = True, srd_Status = ''SENT'', SMTPCode = ''250'',
      SMTPMessage = ''accepted'', MXHost = ''b.x'', srd_Error = []\<rparr>, 1)" by code_simp
  ultimately show ?thesis by simp
qed

end
