(* ===== verification/Bolt.thy ===== *)
theory Bolt
  imports Prelude
begin

section \<open>The bbolt interface\<close>

text \<open>
  bbolt (\<open>go.etcd.io/bbolt\<close>) is a third-party package: its operations are the fields of a record
  that every definition of the store takes as an argument. \<open>bkt_items\<close> is what a cursor yields
  from \<open>First\<close> by repeated \<open>Next\<close>; \<open>bkt_CreateErr\<close> is the answer of \<open>CreateBucketIfNotExists\<close> to
  a bucket name, \<open>tx_CommitErr n\<close> the outcome of committing the \<open>n\<close>-th write transaction (a full
  disk, an I/O error). The locale \<open>bolt_bucket\<close> states the documented behaviour the code relies on.
\<close>

record 'b bolt =
  bkt_empty :: 'b
  bkt_Get :: "'b \<Rightarrow> bytes \<Rightarrow> bytes option"
  bkt_Put :: "'b \<Rightarrow> bytes \<Rightarrow> bytes \<Rightarrow> gerror + 'b"
  bkt_Delete :: "'b \<Rightarrow> bytes \<Rightarrow> gerror + 'b"
  bkt_NextSequence :: "'b \<Rightarrow> u64 \<times> 'b"
  bkt_Sequence :: "'b \<Rightarrow> u64"
  bkt_items :: "'b \<Rightarrow> (bytes \<times> bytes) list"
  bkt_KeyN :: "'b \<Rightarrow> nat"
  bkt_CreateErr :: "bytes \<Rightarrow> gerror option"
  tx_CommitErr :: "nat \<Rightarrow> gerror option"

subsection \<open>A reference bucket\<close>

text \<open>
  A log of bindings, newest first, and the sequence counter; traversal sorts the log. It is used
  to instantiate the interface in witnesses and to show that its laws are consistent.
\<close>

fun ins_key :: "'k::linorder \<Rightarrow> 'v \<Rightarrow> ('k \<times> 'v) list \<Rightarrow> ('k \<times> 'v) list" where
  "ins_key k v [] = [(k, v)]"
| "ins_key k v ((l, w) # xs) =
     (if k < l then (k, v) # (l, w) # xs else if k = l then (k, v) # xs else (l, w) # ins_key k v xs)"

fun sort_log :: "('k::linorder \<times> 'v) list \<Rightarrow> ('k \<times> 'v) list" where
  "sort_log [] = []"
| "sort_log ((k, v) # xs) = ins_key k v (sort_log xs)"

type_synonym log_bucket = "(bytes \<times> bytes) list \<times> u64"

definition log_bolt :: "(nat \<Rightarrow> gerror option) \<Rightarrow> log_bucket bolt" where
  "log_bolt faults = \<lparr>
     bkt_empty = ([], 0),
     bkt_Get = (\<lambda>b k. map_of (fst b) k),
     bkt_Put = (\<lambda>b k v. if k = [] then Inl (ErrText ''key required'') else Inr ((k, v) # fst b, snd b)),
     bkt_Delete = (\<lambda>b k. Inr (filter (\<lambda>kv. fst kv \<noteq> k) (fst b), snd b)),
     bkt_NextSequence = (\<lambda>b. (snd b + 1, (fst b, snd b + 1))),
     bkt_Sequence = snd,
     bkt_items = (\<lambda>b. sort_log (fst b)),
     bkt_KeyN = (\<lambda>b. length (sort_log (fst b))),
     bkt_CreateErr = (\<lambda>n. if n = [] then Some (ErrText ''bucket name required'') else None),
     tx_CommitErr = faults\<rparr>"

abbreviation ref_bolt :: "log_bucket bolt" where
  "ref_bolt \<equiv> log_bolt (\<lambda>_. None)"

lemma fst_ins_key: "set (map fst (ins_key k v xs)) = insert k (set (map fst xs))"
  by (induction k v xs rule: ins_key.induct) auto

lemma keys_sorted_ins_key: "keys_sorted xs \<Longrightarrow> keys_sorted (ins_key k v xs)"
proof (induction k v xs rule: ins_key.induct)
  case (2 k v l w xs)
  then show ?case using fst_ins_key [of k v xs] by auto
qed simp

lemma map_of_ins_key: "keys_sorted xs \<Longrightarrow> map_of (ins_key k v xs) = (map_of xs)(k \<mapsto> v)"
proof (induction k v xs rule: ins_key.induct)
  case (2 k v l w xs)
  then show ?case by (auto simp: fun_eq_iff)
qed simp

lemma keys_sorted_sort_log: "keys_sorted (sort_log xs)"
  by (induction xs rule: sort_log.induct) (simp_all add: keys_sorted_ins_key)

lemma map_of_sort_log: "map_of (sort_log xs) = map_of xs"
  by (induction xs rule: sort_log.induct)
     (simp_all add: map_of_ins_key keys_sorted_sort_log fun_eq_iff)

subsection \<open>The laws\<close>

locale bolt_bucket =
  fixes B :: "'b bolt"
  assumes Get_empty: "bkt_Get B (bkt_empty B) k = None"
    and Sequence_empty: "bkt_Sequence B (bkt_empty B) = 0"
    and Get_Put: "bkt_Put B b k v = Inr b' \<Longrightarrow> bkt_Get B b' = (bkt_Get B b)(k \<mapsto> v)"
    and Sequence_Put: "bkt_Put B b k v = Inr b' \<Longrightarrow> bkt_Sequence B b' = bkt_Sequence B b"
    and Get_Delete: "bkt_Delete B b k = Inr b' \<Longrightarrow> bkt_Get B b' = (bkt_Get B b)(k := None)"
    and Sequence_Delete: "bkt_Delete B b k = Inr b' \<Longrightarrow> bkt_Sequence B b' = bkt_Sequence B b"
    and Next_value: "fst (bkt_NextSequence B b) = bkt_Sequence B b + 1"
    and Sequence_Next: "bkt_Sequence B (snd (bkt_NextSequence B b)) = bkt_Sequence B b + 1"
    and Get_Next: "bkt_Get B (snd (bkt_NextSequence B b)) = bkt_Get B b"
    and items_sorted: "keys_sorted (bkt_items B b)"
    and items_Get: "map_of (bkt_items B b) = bkt_Get B b"
    and KeyN_items: "bkt_KeyN B b = length (bkt_items B b)"
begin

text \<open>The traversal after each operation, from the uniqueness of the sorted list.\<close>

lemma items_eqI: "keys_sorted xs \<Longrightarrow> bkt_Get B b = map_of xs \<Longrightarrow> bkt_items B b = xs"
  using items_sorted items_Get by (metis keys_sorted_unique)

lemma items_empty: "bkt_items B (bkt_empty B) = []"
  by (rule items_eqI) (simp_all add: Get_empty fun_eq_iff)

lemma items_Next: "bkt_items B (snd (bkt_NextSequence B b)) = bkt_items B b"
  by (rule items_eqI) (simp_all add: items_sorted Get_Next items_Get)

lemma items_Put_existing:
  assumes "bkt_Put B b k v = Inr b'" and "k \<in> fst ` set (bkt_items B b)"
  shows "bkt_items B b' = map (\<lambda>kv. if fst kv = k then (k, v) else kv) (bkt_items B b)"
  by (rule items_eqI)
     (simp_all only: fst_replace items_sorted Get_Put [OF assms(1)] map_of_replace assms(2) items_Get
        if_True)

lemma items_Put_last:
  assumes "bkt_Put B b k v = Inr b'" and "\<forall>l\<in>fst ` set (bkt_items B b). l < k"
  shows "bkt_items B b' = bkt_items B b @ [(k, v)]"
proof (rule items_eqI)
  show "keys_sorted (bkt_items B b @ [(k, v)])"
    using assms(2) items_sorted by (auto simp: sorted_wrt_append)
  have "k \<notin> fst ` set (bkt_items B b)" using assms(2) by blast
  then show "bkt_Get B b' = map_of (bkt_items B b @ [(k, v)])"
    by (simp only: Get_Put [OF assms(1)] items_Get map_of_snoc not_False_eq_True)
qed

lemma items_Delete:
  assumes "bkt_Delete B b k = Inr b'"
  shows "bkt_items B b' = filter (\<lambda>kv. fst kv \<noteq> k) (bkt_items B b)"
  by (rule items_eqI)
     (simp_all only: keys_sorted_filter items_sorted Get_Delete [OF assms] map_of_filter_key items_Get)

lemma Get_items: "bkt_Get B b k = Some v \<longleftrightarrow> (k, v) \<in> set (bkt_items B b)"
  using items_sorted keys_sorted_distinct by (metis Some_eq_map_of_iff items_Get)

end

text \<open>
  A bucket in which the writes the store makes do not fail: keys of the sizes bbolt accepts, no
  I/O error. Used for statements that an operation takes effect.
\<close>

locale bolt_healthy = bolt_bucket +
  assumes Put_ok: "k \<noteq> [] \<Longrightarrow> \<exists>b'. bkt_Put B b k v = Inr b'"
    and Delete_ok: "\<exists>b'. bkt_Delete B b k = Inr b'"
    and Create_ok: "n \<noteq> [] \<Longrightarrow> bkt_CreateErr B n = None"
    and Commit_ok: "tx_CommitErr B i = None"

lemma log_bolt_bucket: "bolt_bucket (log_bolt faults)"
proof
  fix b :: log_bucket and b' k v
  assume "bkt_Put (log_bolt faults) b k v = Inr b'"
  then show "bkt_Get (log_bolt faults) b' = (bkt_Get (log_bolt faults) b)(k \<mapsto> v)"
    and "bkt_Sequence (log_bolt faults) b' = bkt_Sequence (log_bolt faults) b"
    by (auto simp: log_bolt_def fun_eq_iff split: if_splits)
next
  fix b :: log_bucket and b' k
  assume "bkt_Delete (log_bolt faults) b k = Inr b'"
  then show "bkt_Get (log_bolt faults) b' = (bkt_Get (log_bolt faults) b)(k := None)"
    and "bkt_Sequence (log_bolt faults) b' = bkt_Sequence (log_bolt faults) b"
    by (auto simp: log_bolt_def map_of_filter_key)
qed (simp_all add: log_bolt_def keys_sorted_sort_log map_of_sort_log)

interpretation logb: bolt_bucket "log_bolt faults" for faults
  by (rule log_bolt_bucket)

interpretation logh: bolt_healthy "log_bolt (\<lambda>_. None)"
  by unfold_locales (simp_all add: log_bolt_def)

end
