(* ===== verification/Store.thy ===== *)
theory Store
  imports Bolt Json
begin

section \<open>internal/store: the local database, counters, events and blobs\<close>

text \<open>
  Models store.go and blob.go. The buckets the code uses are the fields of \<open>store\<close>: \<open>events\<close>
  and \<open>counters\<close> exist in every opened store (\<open>Open\<close> creates them and nothing deletes a
  bucket), \<open>blobs\<close> and the root of the queues with its sub-buckets are created on first use.
  \<open>txid\<close> numbers the write transactions. A write transaction either commits as a whole or leaves
  the database as it was; a variable the Go closure captured keeps what was assigned to it.
\<close>

subsection \<open>The database file and the opened store\<close>

record 'b dbfile =
  f_events :: "'b option"
  f_counters :: "'b option"
  f_blobs :: "'b option"
  f_queues :: "(bytes \<rightharpoonup> 'b) option"
  f_txid :: nat

record 'b store =
  bktEvents :: 'b
  bktCounters :: 'b
  bktBlobs :: "'b option"
  bktQueues :: "(bytes \<rightharpoonup> 'b) option"
  txid :: nat

record Event =
  TsMs :: i64
  Kind :: bytes
  Detail :: bytes

text \<open>\<open>tx.CreateBucketIfNotExists(name)\<close>, given what the transaction sees under that name.\<close>

definition CreateBucketIfNotExists :: "'b bolt \<Rightarrow> bytes \<Rightarrow> 'b option \<Rightarrow> gerror + 'b" where
  "CreateBucketIfNotExists B name cur = (case cur of
     Some b \<Rightarrow> Inr b
   | None \<Rightarrow> (case bkt_CreateErr B name of Some e \<Rightarrow> Inl e | None \<Rightarrow> Inr (bkt_empty B)))"

text \<open>\<open>db.Update(fn)\<close>: commit what \<open>fn\<close> built, or keep the old state on any error.\<close>

definition db_Update :: "'b bolt \<Rightarrow> 'b store \<Rightarrow> ('b store \<Rightarrow> 'a \<times> (gerror + 'b store)) \<Rightarrow>
    'a \<times> gerror option \<times> 'b store" where
  "db_Update B s fn = (case fn s of
     (a, Inl e) \<Rightarrow> (a, Some e, s\<lparr>txid := Suc (txid s)\<rparr>)
   | (a, Inr s') \<Rightarrow>
       (case tx_CommitErr B (txid s) of
          Some e \<Rightarrow> (a, Some e, s\<lparr>txid := Suc (txid s)\<rparr>)
        | None \<Rightarrow> (a, None, s'\<lparr>txid := Suc (txid s)\<rparr>)))"

text \<open>
  \<open>Open\<close>: \<open>mkdir\<close> is \<open>os.MkdirAll\<close> of the directory of the path (never empty), \<open>opn\<close> is
  \<open>bolt.Open\<close>; both belong to the operating system and bbolt.
\<close>

definition Open :: "'b bolt \<Rightarrow> (bytes \<Rightarrow> gerror option) \<Rightarrow> (bytes \<Rightarrow> gerror + 'b dbfile) \<Rightarrow> bytes \<Rightarrow>
    gerror + 'b store" where
  "Open B mkdir opn path = (case mkdir path of
     Some e \<Rightarrow> Inl (Wrapped ''mkdir store dir'' e)
   | None \<Rightarrow> (case opn path of
       Inl e \<Rightarrow> Inl (Wrapped (''open bbolt '' @ path) e)
     | Inr f \<Rightarrow> (case CreateBucketIfNotExists B ''events'' (f_events f) of
         Inl e \<Rightarrow> Inl (Wrapped ''init buckets'' e)
       | Inr ev \<Rightarrow> (case CreateBucketIfNotExists B ''counters'' (f_counters f) of
           Inl e \<Rightarrow> Inl (Wrapped ''init buckets'' e)
         | Inr ct \<Rightarrow> (case tx_CommitErr B (f_txid f) of
             Some e \<Rightarrow> Inl (Wrapped ''init buckets'' e)
           | None \<Rightarrow> Inr \<lparr>bktEvents = ev, bktCounters = ct, bktBlobs = f_blobs f,
                         bktQueues = f_queues f, txid = Suc (f_txid f)\<rparr>)))))"

text \<open>\<open>Close\<close> is the method of the same name of bbolt, which is an argument.\<close>

definition Close :: "('b store \<Rightarrow> gerror option) \<Rightarrow> 'b store \<Rightarrow> gerror option" where
  "Close db_Close s = db_Close s"

subsection \<open>Counters\<close>

definition counter_value :: "bytes option \<Rightarrow> u64" where
  "counter_value cur = (case cur of
     Some bs \<Rightarrow> if length bs = 8 then Uint64 bs else 0 | None \<Rightarrow> 0)"

definition Incr :: "'b bolt \<Rightarrow> bytes \<Rightarrow> 'b store \<Rightarrow> u64 \<times> gerror option \<times> 'b store" where
  "Incr B name s = db_Update B s (\<lambda>s.
     let b = bktCounters s; v = counter_value (bkt_Get B b name) + 1
     in (v, case bkt_Put B b name (PutUint64 v) of
              Inl e \<Rightarrow> Inl e | Inr b' \<Rightarrow> Inr (s\<lparr>bktCounters := b'\<rparr>)))"

definition Counter :: "'b bolt \<Rightarrow> bytes \<Rightarrow> 'b store \<Rightarrow> u64" where
  "Counter B name s = counter_value (bkt_Get B (bktCounters s) name)"

subsection \<open>Events\<close>

definition Event_Marshal :: "Event \<Rightarrow> bytes" where
  "Event_Marshal e = print_json (JObj [(''ts_ms'', JNum (dec_int (sint (TsMs e)))),
     (''kind'', JStr (Kind e)), (''detail'', JStr (Detail e))])"

definition AppendEvent :: "'b bolt \<Rightarrow> i64 \<Rightarrow> bytes \<Rightarrow> bytes \<Rightarrow> 'b store \<Rightarrow> gerror option \<times> 'b store" where
  "AppendEvent B tsMs kind detail s = snd (db_Update B s (\<lambda>s.
     let val = Event_Marshal \<lparr>TsMs = tsMs, Kind = kind, Detail = detail\<rparr>;
         (seq, b) = bkt_NextSequence B (bktEvents s)
     in ((), case bkt_Put B b (PutUint64 seq) val of
               Inl e \<Rightarrow> Inl e | Inr b' \<Rightarrow> Inr (s\<lparr>bktEvents := b'\<rparr>))))"

definition CountEvents :: "'b bolt \<Rightarrow> 'b store \<Rightarrow> nat" where
  "CountEvents B s = bkt_KeyN B (bktEvents s)"

subsection \<open>Blobs\<close>

definition PutBlob :: "'b bolt \<Rightarrow> bytes \<Rightarrow> bytes \<Rightarrow> 'b store \<Rightarrow> gerror option \<times> 'b store" where
  "PutBlob B key val s = snd (db_Update B s (\<lambda>s.
     ((), case CreateBucketIfNotExists B ''blobs'' (bktBlobs s) of
        Inl e \<Rightarrow> Inl e
      | Inr b \<Rightarrow> (case bkt_Put B b key val of
          Inl e \<Rightarrow> Inl e | Inr b' \<Rightarrow> Inr (s\<lparr>bktBlobs := Some b'\<rparr>)))))"

text \<open>\<open>append([]byte(nil), v...)\<close>: the copy of an empty slice is nil.\<close>

definition copy_bytes :: "bytes \<Rightarrow> bytes option" where
  "copy_bytes v = (if v = [] then None else Some v)"

definition GetBlob :: "'b bolt \<Rightarrow> bytes \<Rightarrow> 'b store \<Rightarrow> bytes option" where
  "GetBlob B key s = (case bktBlobs s of None \<Rightarrow> None | Some b \<Rightarrow>
     (case bkt_Get B b key of None \<Rightarrow> None | Some v \<Rightarrow> copy_bytes v))"

subsection \<open>The transaction boundary\<close>

lemma db_Update_Some:
  "db_Update B s fn = (a, Some e, s') \<Longrightarrow> s' = s\<lparr>txid := Suc (txid s)\<rparr>"
  by (auto simp: db_Update_def split: prod.splits sum.splits option.splits)

lemma db_Update_None:
  "db_Update B s fn = (a, None, s') \<longleftrightarrow>
   (\<exists>s1. fn s = (a, Inr s1) \<and> tx_CommitErr B (txid s) = None \<and> s' = s1\<lparr>txid := Suc (txid s)\<rparr>)"
  by (auto simp: db_Update_def split: prod.splits sum.splits option.splits)

lemma txid_db_Update: "db_Update B s fn = (a, e, s') \<Longrightarrow> txid s' = Suc (txid s)"
  by (auto simp: db_Update_def split: prod.splits sum.splits option.splits)

lemma Incr_None:
  "Incr B n s = (v, None, s') \<Longrightarrow>
   \<exists>b'. bkt_Put B (bktCounters s) n (PutUint64 v) = Inr b' \<and> v = Counter B n s + 1
      \<and> s' = s\<lparr>bktCounters := b', txid := Suc (txid s)\<rparr>"
  by (auto simp: Incr_def db_Update_None Counter_def Let_def split: sum.splits)

lemma Incr_Some: "Incr B n s = (v, Some e, s') \<Longrightarrow> s' = s\<lparr>txid := Suc (txid s)\<rparr>"
  by (simp add: Incr_def db_Update_Some)

lemma Incr_value: "Incr B n s = (v, e, s') \<Longrightarrow> v = Counter B n s + 1"
  by (auto simp: Incr_def db_Update_def Counter_def Let_def split: sum.splits option.splits)

text \<open>Counters touch nothing but the counters bucket, whatever the outcome.\<close>

lemma Incr_frame [frame]:
  "Incr B n s = (v, e, s') \<Longrightarrow>
   bktQueues s' = bktQueues s \<and> bktEvents s' = bktEvents s \<and> bktBlobs s' = bktBlobs s"
  by (cases e) (auto dest: Incr_None Incr_Some)

subsection \<open>The counter interface\<close>

text \<open>
  What the workers rely on when they count: a successful increment returns one more than the
  value read before, and changes that counter only; a failed one changes none.
\<close>

locale counters =
  fixes incr :: "bytes \<Rightarrow> 's \<Rightarrow> u64 \<times> gerror option \<times> 's"
    and cnt :: "bytes \<Rightarrow> 's \<Rightarrow> u64"
  assumes incr_value: "incr n s = (v, e, s') \<Longrightarrow> v = cnt n s + 1"
    and incr_ok: "incr n s = (v, None, s') \<Longrightarrow> cnt m s' = (if m = n then v else cnt m s)"
    and incr_fail: "incr n s = (v, Some err, s') \<Longrightarrow> cnt m s' = cnt m s"

fun incr_all :: "(bytes \<Rightarrow> 's \<Rightarrow> u64 \<times> gerror option \<times> 's) \<Rightarrow> bytes list \<Rightarrow> 's \<Rightarrow>
    (bytes \<times> u64 \<times> gerror option) list \<times> 's" where
  "incr_all f [] s = ([], s)"
| "incr_all f (n # ns) s =
     (case f n s of (v, e, s') \<Rightarrow> case incr_all f ns s' of (rs, t) \<Rightarrow> ((n, v, e) # rs, t))"

definition successes :: "bytes \<Rightarrow> (bytes \<times> u64 \<times> gerror option) list \<Rightarrow> u64 list" where
  "successes m rs = map (\<lambda>(n, v, e). v) (filter (\<lambda>(n, v, e). n = m \<and> e = None) rs)"

context counters
begin

lemma incr_step:
  "incr n s = (v, e, s') \<Longrightarrow> cnt m s' = (if m = n \<and> e = None then cnt n s + 1 else cnt m s)"
  by (cases e) (simp_all add: incr_ok incr_fail incr_value)

text \<open>A counter holds exactly the number of increments of it that succeeded.\<close>

lemma incr_all_count:
  "incr_all incr ns s = (rs, t) \<Longrightarrow> cnt m t = cnt m s + of_nat (length (successes m rs))"
proof (induction ns arbitrary: s rs t)
  case (Cons n ns)
  obtain v e s' where i: "incr n s = (v, e, s')" by (cases "incr n s")
  obtain rs' where r: "incr_all incr ns s' = (rs', t)" "rs = (n, v, e) # rs'"
    using Cons.prems i by (auto split: prod.splits)
  from Cons.IH [OF r(1)] incr_step [OF i, of m] r(2)
  show ?case by (auto simp: successes_def)
qed (simp add: successes_def)

text \<open>The values returned by the successful increments of a counter are consecutive.\<close>

lemma incr_all_values:
  "incr_all incr ns s = (rs, t) \<Longrightarrow>
   successes m rs = map (\<lambda>i. cnt m s + of_nat i) [1 ..< Suc (length (successes m rs))]"
proof (induction ns arbitrary: s rs t)
  case (Cons n ns)
  obtain v e s' where i: "incr n s = (v, e, s')" by (cases "incr n s")
  obtain rs' where r: "incr_all incr ns s' = (rs', t)" "rs = (n, v, e) # rs'"
    using Cons.prems i by (auto split: prod.splits)
  note IH = Cons.IH [OF r(1)]
  show ?case
  proof (cases "m = n \<and> e = None")
    case True
    then have c: "cnt m s' = cnt m s + 1" "v = cnt m s + 1"
      using incr_step [OF i, of m] incr_value [OF i] by simp_all
    have s: "successes m rs = v # successes m rs'" using True r(2) by (simp add: successes_def)
    show ?thesis
      by (subst s, subst IH)
         (simp add: s c upt_conv_Cons map_Suc_upt [symmetric] del: upt_Suc map_Suc_upt)
  next
    case False
    then show ?thesis using incr_step [OF i, of m] IH r(2) by (auto simp: successes_def)
  qed
qed (simp add: successes_def)

end

context bolt_bucket
begin

lemma Counter_Incr:
  "Incr B n s = (v, None, s') \<Longrightarrow> Counter B m s' = (if m = n then v else Counter B m s)"
  by (auto dest!: Incr_None simp: Counter_def Get_Put counter_value_def)

lemma Counter_Incr_fail: "Incr B n s = (v, Some e, s') \<Longrightarrow> Counter B m s' = Counter B m s"
  by (drule Incr_Some) (simp add: Counter_def)

lemma counters_Incr: "counters (Incr B) (Counter B)"
  by unfold_locales (fact Incr_value, fact Counter_Incr, fact Counter_Incr_fail)

end

interpretation logc: counters "Incr (log_bolt faults)" "Counter (log_bolt faults)" for faults
  by (rule logb.counters_Incr)

sublocale bolt_bucket \<subseteq> ctr: counters "Incr B" "Counter B"
  by (rule counters_Incr)

subsection \<open>Events and blobs\<close>

text \<open>Every event was stored under a number the bucket's sequence has reached.\<close>

definition events_ok :: "'b bolt \<Rightarrow> 'b store \<Rightarrow> bool" where
  "events_ok B s \<longleftrightarrow> (\<forall>k\<in>fst ` set (bkt_items B (bktEvents s)).
     \<exists>i. k = PutUint64 i \<and> i \<le> bkt_Sequence B (bktEvents s))"

lemma AppendEvent_None:
  "AppendEvent B ts kd dt s = (None, s') \<Longrightarrow>
   \<exists>b'. bkt_Put B (snd (bkt_NextSequence B (bktEvents s))) (PutUint64 (fst (bkt_NextSequence B (bktEvents s))))
          (Event_Marshal \<lparr>TsMs = ts, Kind = kd, Detail = dt\<rparr>) = Inr b'
      \<and> s' = s\<lparr>bktEvents := b', txid := Suc (txid s)\<rparr>"
  by (cases "bkt_NextSequence B (bktEvents s)")
     (auto simp: AppendEvent_def db_Update_def split: sum.splits option.splits)

lemma AppendEvent_Some: "AppendEvent B ts kd dt s = (Some e, s') \<Longrightarrow> s' = s\<lparr>txid := Suc (txid s)\<rparr>"
  by (auto simp: AppendEvent_def db_Update_def split: prod.splits sum.splits option.splits)

lemma AppendEvent_frame [frame]:
  "AppendEvent B ts kd dt s = (e, s') \<Longrightarrow>
   bktQueues s' = bktQueues s \<and> bktCounters s' = bktCounters s \<and> bktBlobs s' = bktBlobs s"
  by (cases e) (auto dest: AppendEvent_None AppendEvent_Some)

lemma PutBlob_None:
  "PutBlob B k v s = (None, s') \<Longrightarrow>
   \<exists>b b'. CreateBucketIfNotExists B ''blobs'' (bktBlobs s) = Inr b \<and> bkt_Put B b k v = Inr b'
      \<and> s' = s\<lparr>bktBlobs := Some b', txid := Suc (txid s)\<rparr>"
  by (auto simp: PutBlob_def db_Update_def split: sum.splits option.splits)

lemma PutBlob_Some: "PutBlob B k v s = (Some e, s') \<Longrightarrow> s' = s\<lparr>txid := Suc (txid s)\<rparr>"
  by (auto simp: PutBlob_def db_Update_def split: prod.splits sum.splits option.splits)

lemma PutBlob_frame [frame]:
  "PutBlob B k v s = (e, s') \<Longrightarrow>
   bktQueues s' = bktQueues s \<and> bktCounters s' = bktCounters s \<and> bktEvents s' = bktEvents s"
  by (cases e) (auto dest: PutBlob_None PutBlob_Some)

context bolt_bucket
begin

lemma events_fresh:
  assumes "events_ok B s" and "bkt_Sequence B (bktEvents s) \<noteq> - 1"
  shows "\<forall>l\<in>fst ` set (bkt_items B (bktEvents s)). l < PutUint64 (bkt_Sequence B (bktEvents s) + 1)"
  using assms by (auto simp: events_ok_def dest!: bspec intro: order.strict_trans1 [OF _ word_less_succ])

lemma AppendEvent_items:
  assumes "events_ok B s" and "bkt_Sequence B (bktEvents s) \<noteq> - 1"
    and "AppendEvent B ts kd dt s = (None, s')"
  shows "bkt_items B (bktEvents s') = bkt_items B (bktEvents s) @
           [(PutUint64 (bkt_Sequence B (bktEvents s) + 1),
             Event_Marshal \<lparr>TsMs = ts, Kind = kd, Detail = dt\<rparr>)]
       \<and> bkt_Sequence B (bktEvents s') = bkt_Sequence B (bktEvents s) + 1"
proof -
  obtain b' where b: "bkt_Put B (snd (bkt_NextSequence B (bktEvents s)))
      (PutUint64 (bkt_Sequence B (bktEvents s) + 1)) (Event_Marshal \<lparr>TsMs = ts, Kind = kd, Detail = dt\<rparr>) = Inr b'"
    and s': "s' = s\<lparr>bktEvents := b', txid := Suc (txid s)\<rparr>"
    using AppendEvent_None [OF assms(3)] by (auto simp: Next_value)
  from events_fresh [OF assms(1,2)]
  have "bkt_items B b' = bkt_items B (bktEvents s) @
           [(PutUint64 (bkt_Sequence B (bktEvents s) + 1),
             Event_Marshal \<lparr>TsMs = ts, Kind = kd, Detail = dt\<rparr>)]"
    using items_Put_last [OF b] by (simp add: items_Next)
  then show ?thesis using s' Sequence_Put [OF b] by (simp add: Sequence_Next)
qed

lemma AppendEvent_ok:
  assumes "events_ok B s" and "bkt_Sequence B (bktEvents s) \<noteq> - 1"
    and "AppendEvent B ts kd dt s = (None, s')"
  shows "events_ok B s'"
  using AppendEvent_items [OF assms] assms(1,2)
  by (force simp: events_ok_def intro: order_trans less_imp_le word_less_succ)

lemma GetBlob_PutBlob:
  "PutBlob B k v s = (None, s') \<Longrightarrow> GetBlob B k' s' = (if k' = k then copy_bytes v else GetBlob B k' s)"
  by (auto dest!: PutBlob_None simp: GetBlob_def Get_Put CreateBucketIfNotExists_def Get_empty
      split: option.splits)

end

text \<open>The store that opening an empty file gives, on the reference bucket; used in witnesses.\<close>

definition empty_store :: "log_bucket store" where
  "empty_store = \<lparr>bktEvents = ([], 0), bktCounters = ([], 0), bktBlobs = None, bktQueues = None, txid = 1\<rparr>"

lemma Open_empty_file:
  "Open ref_bolt (\<lambda>_. None)
     (\<lambda>_. Inr \<lparr>f_events = None, f_counters = None, f_blobs = None, f_queues = None, f_txid = 0\<rparr>) p =
   Inr empty_store"
  by (simp add: Open_def CreateBucketIfNotExists_def log_bolt_def empty_store_def)

end
