(* ===== verification/Queue.thy ===== *)
theory Queue
  imports Store
begin

section \<open>internal/store/queue.go: durable queues\<close>

text \<open>
  The generic at-least-once queue: enqueue, lease (temporary invisibility), ack (delete) and
  nack (retry after a back-off, or drop). Each named queue is a sub-bucket whose keys are the
  big-endian numbers of the elements and whose values are the JSON of a \<open>QueueItem\<close>. The second
  half states the contract abstractly, on a list of items, and proves that the code implements
  it; the locale \<open>durable_queue\<close> is the interface the batch worker uses.
\<close>

subsection \<open>Items and their JSON\<close>

record QueueItem =
  ID :: u64
  Payload :: "bytes option"
  Attempts :: i64
  EnqueuedMs :: i64
  NotBeforeMs :: i64
  LeaseUntilMs :: i64

text \<open>A Go \<open>[]byte\<close>: \<open>None\<close> is the nil slice.\<close>

definition item_json :: "QueueItem \<Rightarrow> json" where
  "item_json it = JObj [
     (''id'', JNum (dec_nat (unat (ID it)))),
     (''payload'', (case Payload it of None \<Rightarrow> JNull | Some bs \<Rightarrow> JStr (b64_enc bs))),
     (''attempts'', JNum (dec_int (sint (Attempts it)))),
     (''enqueued_ms'', JNum (dec_int (sint (EnqueuedMs it)))),
     (''not_before_ms'', JNum (dec_int (sint (NotBeforeMs it)))),
     (''lease_until_ms'', JNum (dec_int (sint (LeaseUntilMs it))))]"

definition item_Marshal :: "QueueItem \<Rightarrow> bytes" where
  "item_Marshal it = print_json (item_json it)"

definition item_fields :: "bytes list" where
  "item_fields = [''id'', ''payload'', ''attempts'', ''enqueued_ms'', ''not_before_ms'', ''lease_until_ms'']"

definition set_item_field :: "bytes \<Rightarrow> json \<Rightarrow> QueueItem \<Rightarrow> QueueItem option" where
  "set_item_field n j it =
     (if n = ''id'' then map_option (\<lambda>v. it\<lparr>ID := v\<rparr>) (as_uint64 j (ID it))
      else if n = ''payload'' then map_option (\<lambda>v. it\<lparr>Payload := v\<rparr>) (as_bytes j)
      else if n = ''attempts'' then map_option (\<lambda>v. it\<lparr>Attempts := v\<rparr>) (as_int64 j (Attempts it))
      else if n = ''enqueued_ms'' then map_option (\<lambda>v. it\<lparr>EnqueuedMs := v\<rparr>) (as_int64 j (EnqueuedMs it))
      else if n = ''not_before_ms'' then map_option (\<lambda>v. it\<lparr>NotBeforeMs := v\<rparr>) (as_int64 j (NotBeforeMs it))
      else map_option (\<lambda>v. it\<lparr>LeaseUntilMs := v\<rparr>) (as_int64 j (LeaseUntilMs it)))"

definition zero_item :: QueueItem where
  "zero_item = \<lparr>ID = 0, Payload = None, Attempts = 0, EnqueuedMs = 0, NotBeforeMs = 0, LeaseUntilMs = 0\<rparr>"

definition item_Unmarshal :: "bytes \<Rightarrow> QueueItem option" where
  "item_Unmarshal s = json_Unmarshal item_fields set_item_field s zero_item"

subsection \<open>Operations\<close>

definition seqKey :: "u64 \<Rightarrow> bytes" where
  "seqKey n = PutUint64 n"

text \<open>\<open>queueBucket\<close>: the queue's bucket, created on first use, with the updated root.\<close>

definition queueBucket :: "'b bolt \<Rightarrow> 'b store \<Rightarrow> bytes \<Rightarrow> gerror + ((bytes \<rightharpoonup> 'b) \<times> 'b)" where
  "queueBucket B s queue =
     (case (case bktQueues s of
              Some r \<Rightarrow> Inr r
            | None \<Rightarrow> (case bkt_CreateErr B ''queues'' of Some e \<Rightarrow> Inl e | None \<Rightarrow> Inr Map.empty)) of
        Inl e \<Rightarrow> Inl e
      | Inr root \<Rightarrow> (case CreateBucketIfNotExists B queue (root queue) of
          Inl e \<Rightarrow> Inl e | Inr b \<Rightarrow> Inr (root, b)))"

definition QueueEnqueue :: "'b bolt \<Rightarrow> bytes \<Rightarrow> bytes option \<Rightarrow> i64 \<Rightarrow> 'b store \<Rightarrow>
    u64 \<times> gerror option \<times> 'b store" where
  "QueueEnqueue B queue payload nowMs s = db_Update B s (\<lambda>s.
     case queueBucket B s queue of
       Inl e \<Rightarrow> (0, Inl e)
     | Inr (root, b) \<Rightarrow>
         (let (i, b1) = bkt_NextSequence B b;
              it = zero_item\<lparr>ID := i, Payload := payload, EnqueuedMs := nowMs, NotBeforeMs := nowMs\<rparr>
          in (i, case bkt_Put B b1 (seqKey i) (item_Marshal it) of
                    Inl e \<Rightarrow> Inl e
                  | Inr b2 \<Rightarrow> Inr (s\<lparr>bktQueues := Some (root(queue \<mapsto> b2))\<rparr>))))"

definition queue_bucket :: "'b store \<Rightarrow> bytes \<Rightarrow> 'b option" where
  "queue_bucket s queue = (case bktQueues s of None \<Rightarrow> None | Some root \<Rightarrow> root queue)"

definition put_queue_bucket :: "bytes \<Rightarrow> 'b \<Rightarrow> 'b store \<Rightarrow> 'b store" where
  "put_queue_bucket queue b s = s\<lparr>bktQueues := Some ((case bktQueues s of None \<Rightarrow> Map.empty | Some r \<Rightarrow> r)(queue \<mapsto> b))\<rparr>"

text \<open>The lease loop over the traversal, with the bucket and the items leased so far.\<close>

fun lease_loop :: "'b bolt \<Rightarrow> i64 \<Rightarrow> i64 \<Rightarrow> i64 \<Rightarrow> (bytes \<times> bytes) list \<Rightarrow> 'b \<Rightarrow> QueueItem list \<Rightarrow>
    QueueItem list \<times> (gerror + 'b)" where
  "lease_loop B mx leaseMs nowMs [] b out = (out, Inr b)"
| "lease_loop B mx leaseMs nowMs ((k, v) # kvs) b out =
     (if \<not> int (length out) < sint mx then (out, Inr b)
      else case item_Unmarshal v of
        None \<Rightarrow> lease_loop B mx leaseMs nowMs kvs b out
      | Some it \<Rightarrow>
          if sint nowMs < sint (NotBeforeMs it) \<or> sint nowMs < sint (LeaseUntilMs it)
          then lease_loop B mx leaseMs nowMs kvs b out
          else let it' = it\<lparr>LeaseUntilMs := nowMs + leaseMs\<rparr> in
            (case bkt_Put B b k (item_Marshal it') of
               Inl e \<Rightarrow> (out, Inl e)
             | Inr b' \<Rightarrow> lease_loop B mx leaseMs nowMs kvs b' (out @ [it'])))"

definition QueueLease :: "'b bolt \<Rightarrow> bytes \<Rightarrow> i64 \<Rightarrow> i64 \<Rightarrow> i64 \<Rightarrow> 'b store \<Rightarrow>
    QueueItem list \<times> gerror option \<times> 'b store" where
  "QueueLease B queue mx leaseMs nowMs s = db_Update B s (\<lambda>s.
     case queue_bucket s queue of
       None \<Rightarrow> ([], Inr s)
     | Some b \<Rightarrow> (case lease_loop B mx leaseMs nowMs (bkt_items B b) b [] of
         (out, Inl e) \<Rightarrow> (out, Inl e)
       | (out, Inr b') \<Rightarrow> (out, Inr (put_queue_bucket queue b' s))))"

definition QueueAck :: "'b bolt \<Rightarrow> bytes \<Rightarrow> u64 \<Rightarrow> 'b store \<Rightarrow> gerror option \<times> 'b store" where
  "QueueAck B queue i s = snd (db_Update B s (\<lambda>s.
     ((), case queue_bucket s queue of
            None \<Rightarrow> Inr s
          | Some b \<Rightarrow> (case bkt_Delete B b (seqKey i) of
              Inl e \<Rightarrow> Inl e | Inr b' \<Rightarrow> Inr (put_queue_bucket queue b' s)))))"

definition QueueNack :: "'b bolt \<Rightarrow> bytes \<Rightarrow> u64 \<Rightarrow> i64 \<Rightarrow> i64 \<Rightarrow> i64 \<Rightarrow> 'b store \<Rightarrow>
    (i64 \<times> bool) \<times> gerror option \<times> 'b store" where
  "QueueNack B queue i backoffMs nowMs maxAttempts s = db_Update B s (\<lambda>s.
     case queue_bucket s queue of
       None \<Rightarrow> ((0, False), Inr s)
     | Some b \<Rightarrow> (case bkt_Get B b (seqKey i) of
         None \<Rightarrow> ((0, False), Inr s)
       | Some raw \<Rightarrow> (case item_Unmarshal raw of
           None \<Rightarrow> ((0, False), Inr s)
         | Some it0 \<Rightarrow>
             (let it = it0\<lparr>Attempts := Attempts it0 + 1\<rparr> in
              if 0 < sint maxAttempts \<and> sint maxAttempts \<le> sint (Attempts it) then
                ((Attempts it, False), case bkt_Delete B b (seqKey i) of
                   Inl e \<Rightarrow> Inl e | Inr b' \<Rightarrow> Inr (put_queue_bucket queue b' s))
              else
                ((Attempts it, True),
                 case bkt_Put B b (seqKey i)
                        (item_Marshal (it\<lparr>NotBeforeMs := nowMs + backoffMs, LeaseUntilMs := 0\<rparr>)) of
                   Inl e \<Rightarrow> Inl e | Inr b' \<Rightarrow> Inr (put_queue_bucket queue b' s))))))"

definition QueueDepth :: "'b bolt \<Rightarrow> bytes \<Rightarrow> 'b store \<Rightarrow> nat" where
  "QueueDepth B queue s = (case queue_bucket s queue of None \<Rightarrow> 0 | Some b \<Rightarrow> bkt_KeyN B b)"

subsection \<open>Marshalling round trip\<close>

lemma item_names_plain: "\<forall>n\<in>set item_fields. all_plain n"
  by code_simp

lemma item_json_flat:
  "item_json it = JObj kvs \<Longrightarrow> \<forall>(k, v)\<in>set kvs. all_plain k \<and> scalar v"
  using item_names_plain b64_enc_plain
  by (auto simp: item_json_def item_fields_def simp del: scalar.simps(3) split: option.split)

lemma item_Unmarshal_Marshal [simp]: "item_Unmarshal (item_Marshal it) = Some it"
proof -
  obtain kvs where k: "item_json it = JObj kvs" by (simp add: item_json_def)
  have p: "json_parse (item_Marshal it) = Some (item_json it)"
    using json_parse_print [OF item_json_flat [OF k]] k by (simp add: item_Marshal_def)
  have "as_bytes (case Payload it of None \<Rightarrow> JNull | Some bs \<Rightarrow> JStr (b64_enc bs)) = Some (Payload it)"
    by (cases "Payload it") (simp_all add: as_bytes_def)
  then show ?thesis
    by (simp add: item_Unmarshal_def json_Unmarshal_def p item_json_def decode_struct_def
        item_fields_def set_item_field_def as_uint64_def as_int64_def)
qed

lemma item_Marshal_inject [simp]: "item_Marshal x = item_Marshal y \<longleftrightarrow> x = y"
  by (metis item_Unmarshal_Marshal option.inject)

subsection \<open>The abstract queue\<close>

record aqueue =
  aq_seq :: u64
  aq_items :: "QueueItem list"

text \<open>An item is due when neither its back-off nor a lease hides it.\<close>

definition due :: "i64 \<Rightarrow> QueueItem \<Rightarrow> bool" where
  "due now it \<longleftrightarrow> sint (NotBeforeMs it) \<le> sint now \<and> sint (LeaseUntilMs it) \<le> sint now"

definition leased :: "i64 \<Rightarrow> i64 \<Rightarrow> QueueItem \<Rightarrow> QueueItem" where
  "leased leaseMs now it = it\<lparr>LeaseUntilMs := now + leaseMs\<rparr>"

definition aq_enqueue :: "bytes option \<Rightarrow> i64 \<Rightarrow> aqueue \<Rightarrow> u64 \<times> aqueue" where
  "aq_enqueue p now a = (aq_seq a + 1, \<lparr>aq_seq = aq_seq a + 1, aq_items = aq_items a @
     [zero_item\<lparr>ID := aq_seq a + 1, Payload := p, EnqueuedMs := now, NotBeforeMs := now\<rparr>]\<rparr>)"

text \<open>The first \<open>mx\<close> due items, in queue order.\<close>

definition aq_select :: "i64 \<Rightarrow> i64 \<Rightarrow> QueueItem list \<Rightarrow> QueueItem list" where
  "aq_select mx now its = take (nat (sint mx)) (filter (due now) its)"

definition aq_lease :: "i64 \<Rightarrow> i64 \<Rightarrow> i64 \<Rightarrow> aqueue \<Rightarrow> QueueItem list \<times> aqueue" where
  "aq_lease mx leaseMs now a =
     (map (leased leaseMs now) (aq_select mx now (aq_items a)),
      a\<lparr>aq_items := map (\<lambda>it. if it \<in> set (aq_select mx now (aq_items a))
                          then leased leaseMs now it else it) (aq_items a)\<rparr>)"

definition aq_ack :: "u64 \<Rightarrow> aqueue \<Rightarrow> aqueue" where
  "aq_ack i a = a\<lparr>aq_items := filter (\<lambda>it. ID it \<noteq> i) (aq_items a)\<rparr>"

definition retried :: "i64 \<Rightarrow> i64 \<Rightarrow> QueueItem \<Rightarrow> QueueItem" where
  "retried backoffMs now it =
     it\<lparr>Attempts := Attempts it + 1, NotBeforeMs := now + backoffMs, LeaseUntilMs := 0\<rparr>"

definition aq_nack :: "u64 \<Rightarrow> i64 \<Rightarrow> i64 \<Rightarrow> i64 \<Rightarrow> aqueue \<Rightarrow> (i64 \<times> bool) \<times> aqueue" where
  "aq_nack i backoffMs now maxA a = (case find (\<lambda>it. ID it = i) (aq_items a) of
     None \<Rightarrow> ((0, False), a)
   | Some it \<Rightarrow>
       if 0 < sint maxA \<and> sint maxA \<le> sint (Attempts it + 1)
       then ((Attempts it + 1, False), aq_ack i a)
       else ((Attempts it + 1, True),
             a\<lparr>aq_items := map (\<lambda>x. if ID x = i then retried backoffMs now x else x) (aq_items a)\<rparr>))"

text \<open>Numbers increase along the queue and stay below the sequence counter.\<close>

definition aq_ok :: "aqueue \<Rightarrow> bool" where
  "aq_ok a \<longleftrightarrow> sorted_wrt (<) (map ID (aq_items a)) \<and> (\<forall>it\<in>set (aq_items a). ID it \<le> aq_seq a)"

lemma leased_simps [simp]:
  "ID (leased l n it) = ID it" "Payload (leased l n it) = Payload it"
  "Attempts (leased l n it) = Attempts it" "NotBeforeMs (leased l n it) = NotBeforeMs it"
  "LeaseUntilMs (leased l n it) = n + l"
  by (simp_all add: leased_def)

lemma retried_simps [simp]:
  "ID (retried b n it) = ID it" "Payload (retried b n it) = Payload it"
  "Attempts (retried b n it) = Attempts it + 1" "NotBeforeMs (retried b n it) = n + b"
  "LeaseUntilMs (retried b n it) = 0"
  by (simp_all add: retried_def)

lemma aq_ok_distinct: "aq_ok a \<Longrightarrow> distinct (map ID (aq_items a))"
  by (simp add: aq_ok_def strict_sorted_iff)

lemma aq_ok_ids:
  "aq_ok a \<longleftrightarrow> sorted_wrt (<) (map ID (aq_items a)) \<and> (\<forall>i\<in>set (map ID (aq_items a)). i \<le> aq_seq a)"
  by (simp add: aq_ok_def)

lemma aq_ok_same_ids:
  "aq_ok a \<Longrightarrow> map ID its = map ID (aq_items a) \<Longrightarrow> aq_ok (a\<lparr>aq_items := its\<rparr>)"
  by (simp add: aq_ok_ids del: set_map list.set_map)

lemma aq_ok_enqueue: "aq_ok a \<Longrightarrow> aq_seq a \<noteq> - 1 \<Longrightarrow> aq_ok (snd (aq_enqueue p now a))"
  using word_less_succ [of "aq_seq a"]
  by (auto simp: aq_ok_def aq_enqueue_def sorted_wrt_append intro: le_less_trans order_trans less_imp_le)

lemma map_ID_if: "(\<And>x. ID (f x) = ID x) \<Longrightarrow> map ID (map (\<lambda>x. if P x then f x else x) its) = map ID its"
  by (induction its) auto

lemma aq_ok_lease: "aq_ok a \<Longrightarrow> aq_ok (snd (aq_lease mx l now a))"
  by (simp add: aq_lease_def aq_ok_same_ids map_ID_if del: map_map)

lemma aq_ok_ack: "aq_ok a \<Longrightarrow> aq_ok (aq_ack i a)"
  by (auto simp: aq_ok_def aq_ack_def sorted_wrt_map sorted_wrt_filter)

lemma aq_ok_nack: "aq_ok a \<Longrightarrow> aq_ok (snd (aq_nack i b now m a))"
  by (simp add: aq_nack_def aq_ok_ack aq_ok_same_ids map_ID_if split: option.split del: map_map)

subsection \<open>The view of a bucket\<close>

definition item_entry :: "QueueItem \<Rightarrow> bytes \<times> bytes" where
  "item_entry it = (seqKey (ID it), item_Marshal it)"

definition bucket_view :: "'b bolt \<Rightarrow> 'b \<Rightarrow> QueueItem list" where
  "bucket_view B b = map (\<lambda>kv. the (item_Unmarshal (snd kv))) (bkt_items B b)"

definition bucket_ok :: "'b bolt \<Rightarrow> 'b \<Rightarrow> bool" where
  "bucket_ok B b \<longleftrightarrow> bkt_items B b = map item_entry (bucket_view B b)
     \<and> (\<forall>it\<in>set (bucket_view B b). ID it \<le> bkt_Sequence B b)"

definition queue_view :: "'b bolt \<Rightarrow> 'b store \<Rightarrow> bytes \<Rightarrow> aqueue" where
  "queue_view B s q = (case queue_bucket s q of
     None \<Rightarrow> \<lparr>aq_seq = 0, aq_items = []\<rparr>
   | Some b \<Rightarrow> \<lparr>aq_seq = bkt_Sequence B b, aq_items = bucket_view B b\<rparr>)"

definition queues_ok :: "'b bolt \<Rightarrow> 'b store \<Rightarrow> bool" where
  "queues_ok B s \<longleftrightarrow> (\<forall>q b. queue_bucket s q = Some b \<longrightarrow> bucket_ok B b)"

lemma seqKey_simps [simp]: "seqKey i = seqKey j \<longleftrightarrow> i = j" "seqKey i < seqKey j \<longleftrightarrow> i < j"
  by (simp_all add: seqKey_def)

lemma bucket_viewI:
  "bkt_items B b = map item_entry its \<Longrightarrow> bucket_view B b = its"
  by (simp add: bucket_view_def item_entry_def comp_def)

lemma bucket_okI:
  "bkt_items B b = map item_entry its \<Longrightarrow> (\<forall>it\<in>set its. ID it \<le> bkt_Sequence B b) \<Longrightarrow>
   bucket_ok B b \<and> bucket_view B b = its"
  by (simp add: bucket_ok_def bucket_viewI)

lemma put_queue_bucket [simp]:
  "queue_bucket (put_queue_bucket q b s) q' = (if q' = q then Some b else queue_bucket s q')"
  by (auto simp: queue_bucket_def put_queue_bucket_def split: option.split)

lemma queue_bucket_txid [simp]: "queue_bucket (s\<lparr>txid := n\<rparr>) q = queue_bucket s q"
  by (simp add: queue_bucket_def)

lemma queue_view_txid [simp]: "queue_view B (s\<lparr>txid := n\<rparr>) = queue_view B s"
  by (simp add: queue_view_def fun_eq_iff)

lemma queues_ok_txid [simp]: "queues_ok B (s\<lparr>txid := n\<rparr>) = queues_ok B s"
  by (simp add: queues_ok_def)

text \<open>The other parts of the store do not matter for the queues.\<close>

lemma queue_view_frame [frame]:
  "bktQueues s' = bktQueues s \<Longrightarrow> queue_view B s' = queue_view B s \<and> queues_ok B s' = queues_ok B s"
  by (simp add: queue_view_def queues_ok_def queue_bucket_def fun_eq_iff)

lemma queue_view_put:
  assumes "queues_ok B s" and "bucket_ok B b"
  shows "queues_ok B (put_queue_bucket q b s)
       \<and> queue_view B (put_queue_bucket q b s) =
           (queue_view B s)(q := \<lparr>aq_seq = bkt_Sequence B b, aq_items = bucket_view B b\<rparr>)"
  using assms by (auto simp: queues_ok_def queue_view_def fun_eq_iff)

subsection \<open>The code implements the abstract queue\<close>

context bolt_bucket
begin

lemma bucket_items: "bucket_ok B b \<Longrightarrow> bkt_items B b = map item_entry (bucket_view B b)"
  by (simp add: bucket_ok_def)

lemma bucket_ids_sorted: "bucket_ok B b \<Longrightarrow> sorted_wrt (<) (map ID (bucket_view B b))"
  using items_sorted [of b] by (simp add: bucket_items item_entry_def sorted_wrt_map)

lemma bucket_distinct: "bucket_ok B b \<Longrightarrow> distinct (map ID (bucket_view B b))"
  using bucket_ids_sorted by (simp add: strict_sorted_iff)

lemma queue_view_ok: "queues_ok B s \<Longrightarrow> aq_ok (queue_view B s q)"
  by (auto simp: queue_view_def aq_ok_def queues_ok_def bucket_ids_sorted bucket_ok_def split: option.split)

lemma bucket_empty: "bucket_ok B (bkt_empty B) \<and> bucket_view B (bkt_empty B) = []"
  by (rule bucket_okI) (simp_all add: items_empty)

lemma bucket_Next:
  assumes "bucket_ok B b" and "bkt_Sequence B b \<noteq> - 1"
  shows "bucket_ok B (snd (bkt_NextSequence B b))
    \<and> bucket_view B (snd (bkt_NextSequence B b)) = bucket_view B b"
proof (rule bucket_okI)
  show "bkt_items B (snd (bkt_NextSequence B b)) = map item_entry (bucket_view B b)"
    using assms(1) by (simp add: items_Next bucket_items)
  show "\<forall>it\<in>set (bucket_view B b). ID it \<le> bkt_Sequence B (snd (bkt_NextSequence B b))"
    using assms word_less_succ [OF assms(2)]
    by (auto simp: bucket_ok_def Sequence_Next intro: order_trans less_imp_le)
qed

lemma bucket_Put_last:
  assumes ok: "bucket_ok B b" and put: "bkt_Put B b (seqKey (ID it)) (item_Marshal it) = Inr b'"
    and fresh: "\<forall>x\<in>set (bucket_view B b). ID x < ID it" and le: "ID it \<le> bkt_Sequence B b"
  shows "bucket_ok B b' \<and> bucket_view B b' = bucket_view B b @ [it]"
proof (rule bucket_okI)
  have "\<forall>l\<in>fst ` set (bkt_items B b). l < seqKey (ID it)"
    using fresh by (auto simp: bucket_items [OF ok] item_entry_def)
  from items_Put_last [OF put this]
  show "bkt_items B b' = map item_entry (bucket_view B b @ [it])"
    by (simp add: bucket_items [OF ok] item_entry_def)
  show "\<forall>x\<in>set (bucket_view B b @ [it]). ID x \<le> bkt_Sequence B b'"
    using ok le by (auto simp: bucket_ok_def Sequence_Put [OF put])
qed

lemma bucket_Put_existing:
  assumes ok: "bucket_ok B b" and put: "bkt_Put B b (seqKey (ID it)) (item_Marshal it) = Inr b'"
    and mem: "x \<in> set (bucket_view B b)" "ID x = ID it"
  shows "bucket_ok B b' \<and> bucket_view B b' = map (\<lambda>y. if ID y = ID it then it else y) (bucket_view B b)"
proof (rule bucket_okI)
  have "seqKey (ID it) \<in> fst ` set (bkt_items B b)"
    using mem by (auto simp: bucket_items [OF ok] item_entry_def image_image intro!: image_eqI [of _ _ x])
  from items_Put_existing [OF put this]
  show "bkt_items B b' = map item_entry (map (\<lambda>y. if ID y = ID it then it else y) (bucket_view B b))"
    by (simp add: bucket_items [OF ok] item_entry_def)
  show "\<forall>y\<in>set (map (\<lambda>y. if ID y = ID it then it else y) (bucket_view B b)). ID y \<le> bkt_Sequence B b'"
    using ok mem by (auto simp: bucket_ok_def Sequence_Put [OF put])
qed

lemma bucket_Delete:
  assumes ok: "bucket_ok B b" and del: "bkt_Delete B b (seqKey i) = Inr b'"
  shows "bucket_ok B b' \<and> bucket_view B b' = filter (\<lambda>it. ID it \<noteq> i) (bucket_view B b)"
proof (rule bucket_okI)
  show "bkt_items B b' = map item_entry (filter (\<lambda>it. ID it \<noteq> i) (bucket_view B b))"
    by (simp add: items_Delete [OF del] bucket_items [OF ok] item_entry_def filter_map comp_def)
  show "\<forall>it\<in>set (filter (\<lambda>it. ID it \<noteq> i) (bucket_view B b)). ID it \<le> bkt_Sequence B b'"
    using ok by (auto simp: bucket_ok_def Sequence_Delete [OF del])
qed

lemma bucket_Get:
  assumes "bucket_ok B b"
  shows "bkt_Get B b (seqKey i) = map_option item_Marshal (find (\<lambda>it. ID it = i) (bucket_view B b))"
proof -
  have "map_of (map item_entry its) (seqKey i) = map_option item_Marshal (find (\<lambda>it. ID it = i) its)" for its
    by (induction its) (auto simp: item_entry_def)
  then show ?thesis using assms by (metis bucket_items items_Get)
qed

text \<open>
  The lease loop: with \<open>pre\<close> the part of the queue already traversed, it takes the first due
  items of the rest that the limit still allows.
\<close>

text \<open>The put of a lease replaces the element.\<close>

lemma bucket_Put_leased:
  assumes "bucket_ok B b" and "bucket_view B b = pre @ it # its"
    and "bkt_Put B b (seqKey (ID it)) (item_Marshal (leased leaseMs now it)) = Inr b1"
  shows "bucket_ok B b1 \<and> bucket_view B b1 = pre @ leased leaseMs now it # its"
proof -
  let ?it' = "leased leaseMs now it"
  have id: "ID it = ID ?it'" and mem: "it \<in> set (bucket_view B b)" using assms(2) by simp_all
  have "distinct (map ID (pre @ it # its))"
    using bucket_distinct [OF assms(1)] assms(2) by simp
  then have "\<forall>y\<in>set pre \<union> set its. ID y \<noteq> ID it" by (auto simp: image_iff)
  then have v: "map (\<lambda>y. if ID y = ID it then ?it' else y) (pre @ it # its) = pre @ ?it' # its"
    by (auto intro!: map_idI)
  have "bkt_Put B b (seqKey (ID ?it')) (item_Marshal ?it') = Inr b1" using assms(3) by simp
  from bucket_Put_existing [OF assms(1) this mem] v assms(2) show ?thesis by simp
qed

lemma lease_loop_Cons:
  "lease_loop B mx leaseMs now (item_entry it # es) b out =
    (if sint mx \<le> int (length out) then (out, Inr b)
     else if \<not> due now it then lease_loop B mx leaseMs now es b out
     else case bkt_Put B b (seqKey (ID it)) (item_Marshal (leased leaseMs now it)) of
       Inl e \<Rightarrow> (out, Inl e)
     | Inr b1 \<Rightarrow> lease_loop B mx leaseMs now es b1 (out @ [leased leaseMs now it]))"
  by (auto simp: item_entry_def [of it] due_def Let_def leased_def split: sum.splits)

lemma lease_loop_refines:
  assumes "bucket_ok B b" and "bucket_view B b = pre @ its"
    and "lease_loop B mx leaseMs now (map item_entry its) b out = (out', Inr b')"
  shows "bucket_ok B b' \<and> bkt_Sequence B b' = bkt_Sequence B b
    \<and> (let sel = take (nat (sint mx) - length out) (filter (due now) its) in
       out' = out @ map (leased leaseMs now) sel
       \<and> bucket_view B b' = pre @ map (\<lambda>it. if it \<in> set sel then leased leaseMs now it else it) its)"
  using assms
proof (induction its arbitrary: b pre out)
  case Nil
  then show ?case by simp
next
  case (Cons it its)
  note loop = Cons.prems(3) [unfolded list.map lease_loop_Cons]
  have "distinct (map ID (pre @ it # its))"
    using bucket_distinct [OF Cons.prems(1)] Cons.prems(2) by simp
  then have notin: "it \<notin> set its" by auto
  consider (full) "sint mx \<le> int (length out)" | (skip) "int (length out) < sint mx" "\<not> due now it"
    | (taken) "int (length out) < sint mx" "due now it" by linarith
  then show ?case
  proof cases
    case full
    then show ?thesis using loop Cons.prems(1,2) by simp
  next
    case skip
    then have "lease_loop B mx leaseMs now (map item_entry its) b out = (out', Inr b')" using loop by simp
    from Cons.IH [OF Cons.prems(1) _ this, of "pre @ [it]"] Cons.prems(2) skip notin
    show ?thesis by (auto simp: Let_def dest: in_set_takeD)
  next
    case taken
    let ?it' = "leased leaseMs now it"
    let ?sel = "take (nat (sint mx) - Suc (length out)) (filter (due now) its)"
    from loop taken obtain b1 where put: "bkt_Put B b (seqKey (ID it)) (item_Marshal ?it') = Inr b1"
      and rest: "lease_loop B mx leaseMs now (map item_entry its) b1 (out @ [?it']) = (out', Inr b')"
      by (auto split: sum.splits)
    have b1: "bucket_ok B b1" "bucket_view B b1 = (pre @ [?it']) @ its"
      using bucket_Put_leased [OF Cons.prems(1,2) put] by simp_all
    have n: "nat (sint mx) - length out = Suc (nat (sint mx) - Suc (length out))" using taken(1) by linarith
    have "map (\<lambda>x. if x \<in> set ?sel then leased leaseMs now x else x) its
      = map (\<lambda>x. if x \<in> insert it (set ?sel) then leased leaseMs now x else x) its"
      using notin by (intro map_cong) auto
    then show ?thesis using Cons.IH [OF b1 rest] n taken(2) Sequence_Put [OF put] by (simp add: Let_def)
  qed
qed

lemma queueBucket_ok:
  assumes "queues_ok B s" and "queueBucket B s q = Inr (root, b)"
  shows "bucket_ok B b" "queue_view B s q = \<lparr>aq_seq = bkt_Sequence B b, aq_items = bucket_view B b\<rparr>"
    "s\<lparr>bktQueues := Some (root(q \<mapsto> b'))\<rparr> = put_queue_bucket q b' s"
proof -
  from assms(2) have r: "root = (case bktQueues s of None \<Rightarrow> Map.empty | Some r \<Rightarrow> r)"
    and b: "root q = Some b \<or> root q = None \<and> b = bkt_empty B"
    by (auto simp: queueBucket_def CreateBucketIfNotExists_def split: option.splits sum.splits)
  have q: "queue_bucket s q = root q" by (simp add: queue_bucket_def r split: option.split)
  show "bucket_ok B b" using b q assms(1) bucket_empty by (auto simp: queues_ok_def)
  show "queue_view B s q = \<lparr>aq_seq = bkt_Sequence B b, aq_items = bucket_view B b\<rparr>"
    using b q bucket_empty by (auto simp: queue_view_def Sequence_empty)
  show "s\<lparr>bktQueues := Some (root(q \<mapsto> b'))\<rparr> = put_queue_bucket q b' s"
    by (simp add: put_queue_bucket_def r)
qed

lemma QueueEnqueue_refines:
  assumes ok: "queues_ok B s" and seq: "aq_seq (queue_view B s q) \<noteq> - 1"
    and run: "QueueEnqueue B q p now s = (i, None, s')"
  shows "queues_ok B s' \<and> i = fst (aq_enqueue p now (queue_view B s q))
    \<and> queue_view B s' = (queue_view B s)(q := snd (aq_enqueue p now (queue_view B s q)))"
proof -
  define it where "it = zero_item\<lparr>ID := i, Payload := p, EnqueuedMs := now, NotBeforeMs := now\<rparr>"
  from run obtain root b b2 where qb: "queueBucket B s q = Inr (root, b)"
    and i: "i = bkt_Sequence B b + 1"
    and put: "bkt_Put B (snd (bkt_NextSequence B b)) (seqKey (ID it)) (item_Marshal it) = Inr b2"
    and s': "s' = (s\<lparr>bktQueues := Some (root(q \<mapsto> b2))\<rparr>)\<lparr>txid := Suc (txid s)\<rparr>"
    by (auto simp: QueueEnqueue_def db_Update_None Let_def it_def Next_value [symmetric]
        split: sum.splits prod.splits)
  note v = queueBucket_ok [OF ok qb]
  have sq: "bkt_Sequence B b \<noteq> - 1" using seq v(2) by simp
  note nx = bucket_Next [OF v(1) sq]
  have fresh: "\<forall>x\<in>set (bucket_view B (snd (bkt_NextSequence B b))). ID x < ID it"
    using v(1) nx word_less_succ [OF sq]
    by (auto simp: bucket_ok_def it_def i intro: le_less_trans)
  have "ID it \<le> bkt_Sequence B (snd (bkt_NextSequence B b))"
    by (simp add: Sequence_Next it_def i)
  from bucket_Put_last [OF conjunct1 [OF nx] put fresh this] nx
  have b2: "bucket_ok B b2" "bucket_view B b2 = bucket_view B b @ [it]" by simp_all
  show ?thesis
    unfolding s' v(3) using queue_view_put [OF ok b2(1), of q] b2(2) Sequence_Put [OF put]
    by (simp add: v(2) aq_enqueue_def i it_def Sequence_Next)
qed

lemma QueueLease_refines:
  assumes ok: "queues_ok B s" and run: "QueueLease B q mx leaseMs now s = (out, None, s')"
  shows "queues_ok B s' \<and> out = fst (aq_lease mx leaseMs now (queue_view B s q))
    \<and> queue_view B s' = (queue_view B s)(q := snd (aq_lease mx leaseMs now (queue_view B s q)))"
proof (cases "queue_bucket s q")
  case None
  then have "s' = s\<lparr>txid := Suc (txid s)\<rparr>" "out = []"
    using run by (auto simp: QueueLease_def db_Update_None)
  then show ?thesis using None ok
    by (simp add: queue_view_def aq_lease_def aq_select_def fun_eq_iff)
next
  case (Some b)
  then have b: "bucket_ok B b" using ok by (simp add: queues_ok_def)
  from Some run obtain b' where l: "lease_loop B mx leaseMs now (map item_entry (bucket_view B b)) b [] = (out, Inr b')"
    and s': "s' = (put_queue_bucket q b' s)\<lparr>txid := Suc (txid s)\<rparr>"
    by (auto simp: QueueLease_def db_Update_None bucket_items [OF b] split: prod.splits sum.splits)
  from lease_loop_refines [OF b _ l, of "[]"]
  have b': "bucket_ok B b'" "bkt_Sequence B b' = bkt_Sequence B b"
    "out = map (leased leaseMs now) (aq_select mx now (bucket_view B b))"
    "bucket_view B b' = map (\<lambda>it. if it \<in> set (aq_select mx now (bucket_view B b))
       then leased leaseMs now it else it) (bucket_view B b)"
    by (simp_all add: Let_def aq_select_def)
  show ?thesis
    unfolding s' using queue_view_put [OF ok b'(1), of q] b'(2-4) Some
    by (simp add: aq_lease_def queue_view_def [of B s q])
qed

lemma QueueAck_refines:
  assumes ok: "queues_ok B s" and run: "QueueAck B q i s = (None, s')"
  shows "queues_ok B s' \<and> queue_view B s' = (queue_view B s)(q := aq_ack i (queue_view B s q))"
proof (cases "queue_bucket s q")
  case None
  then have "s' = s\<lparr>txid := Suc (txid s)\<rparr>"
    using run by (auto simp: QueueAck_def db_Update_def split: option.splits)
  then show ?thesis using None ok by (simp add: queue_view_def aq_ack_def fun_eq_iff)
next
  case (Some b)
  then have b: "bucket_ok B b" using ok by (simp add: queues_ok_def)
  from Some run obtain b' where d: "bkt_Delete B b (seqKey i) = Inr b'"
    and s': "s' = (put_queue_bucket q b' s)\<lparr>txid := Suc (txid s)\<rparr>"
    by (auto simp: QueueAck_def db_Update_def split: option.splits sum.splits)
  from bucket_Delete [OF b d] queue_view_put [OF ok, of b' q] Sequence_Delete [OF d] Some
  show ?thesis unfolding s' by (simp add: aq_ack_def queue_view_def [of B s q])
qed

text \<open>The put of a retry replaces the element, the only one of its number.\<close>

lemma bucket_Put_retried:
  assumes b: "bucket_ok B b" and it: "it \<in> set (bucket_view B b)"
    and p: "bkt_Put B b (seqKey (ID it)) (item_Marshal (retried backoffMs now it)) = Inr b'"
  shows "bucket_ok B b' \<and> bucket_view B b' =
    map (\<lambda>x. if ID x = ID it then retried backoffMs now x else x) (bucket_view B b)"
proof -
  let ?it' = "retried backoffMs now it"
  have "x = it" if "x \<in> set (bucket_view B b)" "ID x = ID it" for x
    using distinct_map_unique [OF bucket_distinct [OF b]] that it by blast
  then have m: "map (\<lambda>y. if ID y = ID ?it' then ?it' else y) (bucket_view B b)
    = map (\<lambda>x. if ID x = ID it then retried backoffMs now x else x) (bucket_view B b)"
    by (intro map_cong) auto
  have p': "bkt_Put B b (seqKey (ID ?it')) (item_Marshal ?it') = Inr b'" and "ID it = ID ?it'" using p by simp_all
  from bucket_Put_existing [OF b p' it this(2), unfolded m] show ?thesis .
qed

text \<open>A refusal of the element \<open>it\<close>: the element is dropped, or put back for a retry.\<close>

lemma QueueNack_drop:
  assumes ok: "queues_ok B s" and Some: "queue_bucket s q = Some b" and it: "find (\<lambda>it. ID it = i) (bucket_view B b) = Some it"
    and drop: "0 < sint maxA \<and> sint maxA \<le> sint (Attempts it + 1)"
    and run: "QueueNack B q i backoffMs now maxA s = (r, None, s')"
  shows "queues_ok B s' \<and> r = fst (aq_nack i backoffMs now maxA (queue_view B s q))
    \<and> queue_view B s' = (queue_view B s)(q := snd (aq_nack i backoffMs now maxA (queue_view B s q)))"
proof -
  have b: "bucket_ok B b" using ok Some by (simp add: queues_ok_def)
  from run obtain b' where d: "bkt_Delete B b (seqKey i) = Inr b'" and r: "r = (Attempts it + 1, False)"
    and s': "s' = (put_queue_bucket q b' s)\<lparr>txid := Suc (txid s)\<rparr>"
    using Some drop by (auto simp: QueueNack_def db_Update_None bucket_Get [OF b] it Let_def split: sum.splits)
  from bucket_Delete [OF b d] queue_view_put [OF ok, of b' q] Sequence_Delete [OF d] drop Some
  show ?thesis unfolding s' by (simp add: r queue_view_def [of B s q] aq_nack_def it aq_ack_def)
qed

lemma QueueNack_retry:
  assumes ok: "queues_ok B s" and Some: "queue_bucket s q = Some b" and it: "find (\<lambda>it. ID it = i) (bucket_view B b) = Some it"
    and keep: "\<not> (0 < sint maxA \<and> sint maxA \<le> sint (Attempts it + 1))"
    and run: "QueueNack B q i backoffMs now maxA s = (r, None, s')"
  shows "queues_ok B s' \<and> r = fst (aq_nack i backoffMs now maxA (queue_view B s q))
    \<and> queue_view B s' = (queue_view B s)(q := snd (aq_nack i backoffMs now maxA (queue_view B s q)))"
proof -
  have b: "bucket_ok B b" using ok Some by (simp add: queues_ok_def)
  have mem: "it \<in> set (bucket_view B b)" and id: "ID it = i" using it by (auto simp: find_Some_iff)
  from run obtain b' where p: "bkt_Put B b (seqKey (ID it)) (item_Marshal (retried backoffMs now it)) = Inr b'"
    and r: "r = (Attempts it + 1, True)" and s': "s' = (put_queue_bucket q b' s)\<lparr>txid := Suc (txid s)\<rparr>"
    using Some keep by (auto simp: QueueNack_def db_Update_None bucket_Get [OF b] it Let_def retried_def id
        split: sum.splits if_splits)
  note bp = bucket_Put_retried [OF b mem p]
  from bp queue_view_put [OF ok conjunct1 [OF bp], of q] Sequence_Put [OF p] keep id Some
  show ?thesis unfolding s' by (simp add: r queue_view_def [of B s q] aq_nack_def it)
qed

lemma QueueNack_refines:
  assumes ok: "queues_ok B s" and run: "QueueNack B q i backoffMs now maxA s = (r, None, s')"
  shows "queues_ok B s' \<and> r = fst (aq_nack i backoffMs now maxA (queue_view B s q))
    \<and> queue_view B s' = (queue_view B s)(q := snd (aq_nack i backoffMs now maxA (queue_view B s q)))"
proof (cases "queue_bucket s q")
  case None
  then have "s' = s\<lparr>txid := Suc (txid s)\<rparr>" "r = (0, False)"
    using run by (auto simp: QueueNack_def db_Update_None)
  then show ?thesis using None ok by (simp add: queue_view_def aq_nack_def fun_eq_iff)
next
  case (Some b)
  then have b: "bucket_ok B b" using ok by (simp add: queues_ok_def)
  show ?thesis
  proof (cases "find (\<lambda>it. ID it = i) (bucket_view B b)")
    case None
    then have "s' = s\<lparr>txid := Suc (txid s)\<rparr>" "r = (0, False)"
      using run Some by (auto simp: QueueNack_def db_Update_None bucket_Get [OF b])
    then show ?thesis using None ok Some by (simp add: queue_view_def [of B s q] aq_nack_def fun_upd_idem)
  next
    case (Some it)
    then show ?thesis
      using QueueNack_drop [OF ok \<open>queue_bucket s q = Some b\<close> Some _ run]
        QueueNack_retry [OF ok \<open>queue_bucket s q = Some b\<close> Some _ run] by blast
  qed
qed
end

end
