(* ===== verification/QueueContract.thy ===== *)
theory QueueContract
  imports Queue
begin

section \<open>The contract of the durable queues\<close>

text \<open>
  What the clients of internal/store/queue.go rely on. A queue is driven by a sequence of
  operations; the locale \<open>durable_queue\<close> states what each of them does to the abstract queue when
  it reports no error and that it does nothing when it reports one, \<open>reliable_queue\<close> adds that no
  operation fails. Both are instantiated by the store, on any bucket implementation that obeys
  the laws of bbolt. The theorems of the end are the guarantees of the queue.
\<close>

subsection \<open>Sequences of operations on one queue\<close>

datatype qop =
    QEnq "bytes option" i64
  | QLease i64 i64 i64
  | QAck u64
  | QNack u64 i64 i64 i64

datatype qres =
    REnq u64 "gerror option"
  | RLease "QueueItem list" "gerror option"
  | RAck "gerror option"
  | RNack i64 bool "gerror option"

fun res_err :: "qres \<Rightarrow> gerror option" where
  "res_err (REnq i e) = e"
| "res_err (RLease out e) = e"
| "res_err (RAck e) = e"
| "res_err (RNack a kept e) = e"

record 's queue_ops =
  q_enq :: "bytes \<Rightarrow> bytes option \<Rightarrow> i64 \<Rightarrow> 's \<Rightarrow> u64 \<times> gerror option \<times> 's"
  q_lease :: "bytes \<Rightarrow> i64 \<Rightarrow> i64 \<Rightarrow> i64 \<Rightarrow> 's \<Rightarrow> QueueItem list \<times> gerror option \<times> 's"
  q_ack :: "bytes \<Rightarrow> u64 \<Rightarrow> 's \<Rightarrow> gerror option \<times> 's"
  q_nack :: "bytes \<Rightarrow> u64 \<Rightarrow> i64 \<Rightarrow> i64 \<Rightarrow> i64 \<Rightarrow> 's \<Rightarrow> (i64 \<times> bool) \<times> gerror option \<times> 's"

definition store_queue :: "'b bolt \<Rightarrow> 'b store queue_ops" where
  "store_queue B = \<lparr>q_enq = QueueEnqueue B, q_lease = QueueLease B, q_ack = QueueAck B, q_nack = QueueNack B\<rparr>"

fun q_step :: "'s queue_ops \<Rightarrow> bytes \<Rightarrow> qop \<Rightarrow> 's \<Rightarrow> qres \<times> 's" where
  "q_step Q q (QEnq p now) s = (case q_enq Q q p now s of (i, e, s') \<Rightarrow> (REnq i e, s'))"
| "q_step Q q (QLease mx l now) s = (case q_lease Q q mx l now s of (out, e, s') \<Rightarrow> (RLease out e, s'))"
| "q_step Q q (QAck i) s = (case q_ack Q q i s of (e, s') \<Rightarrow> (RAck e, s'))"
| "q_step Q q (QNack i b now m) s =
     (case q_nack Q q i b now m s of ((a, kept), e, s') \<Rightarrow> (RNack a kept e, s'))"

fun q_run :: "'s queue_ops \<Rightarrow> bytes \<Rightarrow> qop list \<Rightarrow> 's \<Rightarrow> qres list \<times> 's" where
  "q_run Q q [] s = ([], s)"
| "q_run Q q (op # ops) s =
     (case q_step Q q op s of (r, s') \<Rightarrow> case q_run Q q ops s' of (rs, t) \<Rightarrow> (r # rs, t))"

fun aq_step :: "qop \<Rightarrow> aqueue \<Rightarrow> qres \<times> aqueue" where
  "aq_step (QEnq p now) a = (REnq (fst (aq_enqueue p now a)) None, snd (aq_enqueue p now a))"
| "aq_step (QLease mx l now) a = (RLease (fst (aq_lease mx l now a)) None, snd (aq_lease mx l now a))"
| "aq_step (QAck i) a = (RAck None, aq_ack i a)"
| "aq_step (QNack i b now m) a =
     (case aq_nack i b now m a of ((n, kept), a') \<Rightarrow> (RNack n kept None, a'))"

fun aq_run :: "qop list \<Rightarrow> aqueue \<Rightarrow> qres list \<times> aqueue" where
  "aq_run [] a = ([], a)"
| "aq_run (op # ops) a =
     (case aq_step op a of (r, a') \<Rightarrow> case aq_run ops a' of (rs, t) \<Rightarrow> (r # rs, t))"

text \<open>The two ways an element leaves the queue: acknowledged, or refused too often.\<close>

fun removes :: "u64 \<Rightarrow> qop \<Rightarrow> qres \<Rightarrow> bool" where
  "removes i (QAck j) r = (j = i \<and> r = RAck None)"
| "removes i (QNack j b now m) r = (j = i \<and> (\<exists>a. r = RNack a False None))"
| "removes i op r = False"

definition holds_item :: "u64 \<Rightarrow> bytes option \<Rightarrow> aqueue \<Rightarrow> bool" where
  "holds_item i p a \<longleftrightarrow> (\<exists>it\<in>set (aq_items a). ID it = i \<and> Payload it = p)"

definition hidden_item :: "u64 \<Rightarrow> i64 \<Rightarrow> aqueue \<Rightarrow> bool" where
  "hidden_item i d a \<longleftrightarrow> (\<forall>it\<in>set (aq_items a). ID it = i \<longrightarrow> LeaseUntilMs it = d) \<and> i \<le> aq_seq a"

lemma aq_seq_step:
  "aq_step op a = (r, a') \<Longrightarrow> aq_seq a' = aq_seq a + (case op of QEnq p now \<Rightarrow> 1 | _ \<Rightarrow> 0)"
  by (cases op) (auto simp: aq_enqueue_def aq_lease_def aq_ack_def aq_nack_def
      split: option.splits if_splits)

lemma find_ID_iff:
  "aq_ok a \<Longrightarrow> find (\<lambda>it. ID it = i) (aq_items a) = Some it \<longleftrightarrow> it \<in> set (aq_items a) \<and> ID it = i"
proof -
  assume a: "aq_ok a"
  have "find (\<lambda>it. ID it = i) its = Some it \<longleftrightarrow> it \<in> set its \<and> ID it = i"
    if "distinct (map ID its)" for its
    using that by (induction its) auto
  with aq_ok_distinct [OF a] show ?thesis by blast
qed

lemma aq_nack_cases [consumes 0, case_names absent drop retry]:
  obtains "\<forall>x\<in>set (aq_items a). ID x \<noteq> i" "aq_nack i b t m a = ((0, False), a)"
  | x where "x \<in> set (aq_items a)" "ID x = i" "0 < sint m" "sint m \<le> sint (Attempts x + 1)"
      "aq_nack i b t m a = ((Attempts x + 1, False), aq_ack i a)"
  | x where "x \<in> set (aq_items a)" "ID x = i" "\<not> (0 < sint m \<and> sint m \<le> sint (Attempts x + 1))"
      "aq_nack i b t m a = ((Attempts x + 1, True),
        a\<lparr>aq_items := map (\<lambda>x. if ID x = i then retried b t x else x) (aq_items a)\<rparr>)"
proof (cases "find (\<lambda>it. ID it = i) (aq_items a)")
  case None
  then have "\<forall>x\<in>set (aq_items a). ID x \<noteq> i" by (auto simp: find_None_iff)
  then show ?thesis using that(1) None by (simp add: aq_nack_def)
next
  case (Some x)
  then have x: "x \<in> set (aq_items a)" "ID x = i" by (auto simp: find_Some_iff)
  show ?thesis
  proof (cases "0 < sint m \<and> sint m \<le> sint (Attempts x + 1)")
    case True
    then show ?thesis using that(2) [OF x] Some by (simp add: aq_nack_def)
  next
    case False
    then show ?thesis using that(3) [OF x False] Some by (simp add: aq_nack_def)
  qed
qed

text \<open>Changes that keep numbers and payloads keep the elements.\<close>

lemma holds_item_map:
  assumes "holds_item i p a" and "\<And>x. ID (f x) = ID x" "\<And>x. Payload (f x) = Payload x"
  shows "holds_item i p (a\<lparr>aq_items := map f (aq_items a)\<rparr>)"
  using assms by (force simp: holds_item_def)

lemma holds_item_ack: "holds_item i p a \<Longrightarrow> j \<noteq> i \<Longrightarrow> holds_item i p (aq_ack j a)"
  by (auto simp: holds_item_def aq_ack_def)

lemma holds_item_lease: "holds_item i p a \<Longrightarrow> holds_item i p (snd (aq_lease mx l now a))"
  unfolding aq_lease_def snd_conv by (rule holds_item_map) auto

lemma holds_item_step:
  assumes "aq_step op a = (r, a')" and "holds_item i p a" and "\<not> removes i op r"
  shows "holds_item i p a'"
proof (cases op)
  case (QEnq q now)
  then show ?thesis using assms(1,2) by (auto simp: holds_item_def aq_enqueue_def)
next
  case (QLease mx l now)
  then show ?thesis using assms(1) holds_item_lease [OF assms(2), of mx l now] by simp
next
  case (QAck j)
  then show ?thesis using assms holds_item_ack by auto
next
  case (QNack j b now m)
  show ?thesis
  proof (cases rule: aq_nack_cases [of a j b now m])
    case absent
    then show ?thesis using assms(1,2) QNack by simp
  next
    case (drop x)
    then have "j \<noteq> i" "a' = aq_ack j a" using assms(1,3) QNack by auto
    then show ?thesis using holds_item_ack [OF assms(2)] by simp
  next
    case (retry x)
    then have "a' = a\<lparr>aq_items := map (\<lambda>x. if ID x = j then retried b now x else x) (aq_items a)\<rparr>"
      using assms(1) QNack by simp
    then show ?thesis using holds_item_map [OF assms(2)] by simp
  qed
qed

text \<open>A leased element is not handed out again before its lease ends.\<close>

fun hands_out :: "u64 \<Rightarrow> qres \<Rightarrow> bool" where
  "hands_out i (RLease out None) = (i \<in> ID ` set out)"
| "hands_out i r = False"

lemma hands_out_err: "res_err r \<noteq> None \<Longrightarrow> \<not> hands_out i r"
  by (cases r) auto

definition disturbs :: "u64 \<Rightarrow> i64 \<Rightarrow> qop \<Rightarrow> bool" where
  "disturbs i d op = (case op of
     QLease mx l now \<Rightarrow> sint d \<le> sint now | QNack j b now m \<Rightarrow> j = i | _ \<Rightarrow> False)"

lemma aq_select_due: "it \<in> set (aq_select mx now its) \<Longrightarrow> it \<in> set its \<and> due now it"
  by (auto simp: aq_select_def dest: in_set_takeD)

lemma hidden_item_step:
  assumes "aq_step op a = (r, a')" and "hidden_item i d a" and "\<not> disturbs i d op"
    and "aq_seq a \<noteq> - 1"
  shows "hidden_item i d a' \<and> \<not> hands_out i r"
proof (cases op)
  case (QEnq p now)
  then show ?thesis using assms(1,2) word_less_succ [OF assms(4)]
    by (auto simp: hidden_item_def aq_enqueue_def)
next
  case (QLease mx l now)
  have n: "\<forall>it\<in>set (aq_select mx now (aq_items a)). ID it \<noteq> i"
    using aq_select_due [of _ mx now "aq_items a"] assms(2,3) QLease
    by (auto simp: hidden_item_def disturbs_def due_def)
  have a': "a' = a\<lparr>aq_items := map (\<lambda>it. if it \<in> set (aq_select mx now (aq_items a))
      then leased l now it else it) (aq_items a)\<rparr>"
    using assms(1) QLease by (simp add: aq_lease_def)
  have "LeaseUntilMs it = d" if "it \<in> set (aq_items a')" "ID it = i" for it
  proof -
    from that(1) a' obtain x where x: "x \<in> set (aq_items a)"
      "it = (if x \<in> set (aq_select mx now (aq_items a)) then leased l now x else x)" by auto
    then have "x \<notin> set (aq_select mx now (aq_items a))" using n that(2) by auto
    then show ?thesis using x that(2) assms(2) by (auto simp: hidden_item_def)
  qed
  then have "hidden_item i d a'" using assms(2) a' by (auto simp: hidden_item_def)
  moreover have "i \<notin> ID ` set (map (leased l now) (aq_select mx now (aq_items a)))" using n by auto
  ultimately show ?thesis using assms(1) QLease by (auto simp: aq_lease_def)
next
  case (QAck j)
  then show ?thesis using assms(1,2) by (auto simp: hidden_item_def aq_ack_def)
next
  case (QNack j b now m)
  then show ?thesis using assms(1-3)
    by (auto simp: hidden_item_def aq_nack_def aq_ack_def disturbs_def split: option.splits if_splits)
qed

subsection \<open>The queue interface\<close>

text \<open>
  What a consumer of the queue may rely on: an operation that reports no error acts on the view
  of its queue as the abstract operation and on no other queue; one that reports an error changes
  nothing.
\<close>

locale durable_queue =
  fixes Q :: "'s queue_ops" and view :: "'s \<Rightarrow> bytes \<Rightarrow> aqueue" and ok :: "'s \<Rightarrow> bool"
  assumes view_ok: "ok s \<Longrightarrow> aq_ok (view s q)"
    and enq_ok: "ok s \<Longrightarrow> aq_seq (view s q) \<noteq> - 1 \<Longrightarrow> q_enq Q q p now s = (i, None, s') \<Longrightarrow>
      ok s' \<and> i = fst (aq_enqueue p now (view s q))
      \<and> view s' = (view s)(q := snd (aq_enqueue p now (view s q)))"
    and enq_fail: "ok s \<Longrightarrow> q_enq Q q p now s = (i, Some err, s') \<Longrightarrow> ok s' \<and> view s' = view s"
    and lease_ok: "ok s \<Longrightarrow> q_lease Q q mx l now s = (out, None, s') \<Longrightarrow>
      ok s' \<and> out = fst (aq_lease mx l now (view s q))
      \<and> view s' = (view s)(q := snd (aq_lease mx l now (view s q)))"
    and lease_fail: "ok s \<Longrightarrow> q_lease Q q mx l now s = (out, Some err, s') \<Longrightarrow> ok s' \<and> view s' = view s"
    and ack_ok: "ok s \<Longrightarrow> q_ack Q q i s = (None, s') \<Longrightarrow>
      ok s' \<and> view s' = (view s)(q := aq_ack i (view s q))"
    and ack_fail: "ok s \<Longrightarrow> q_ack Q q i s = (Some err, s') \<Longrightarrow> ok s' \<and> view s' = view s"
    and nack_ok: "ok s \<Longrightarrow> q_nack Q q i b now m s = (r, None, s') \<Longrightarrow>
      ok s' \<and> r = fst (aq_nack i b now m (view s q))
      \<and> view s' = (view s)(q := snd (aq_nack i b now m (view s q)))"
    and nack_fail: "ok s \<Longrightarrow> q_nack Q q i b now m s = (r, Some err, s') \<Longrightarrow> ok s' \<and> view s' = view s"
begin

lemma step_refines:
  assumes "ok s" and "aq_seq (view s q) \<noteq> - 1" and "q_step Q q op s = (r, s')"
  shows "ok s' \<and> (if res_err r = None
     then r = fst (aq_step op (view s q)) \<and> view s' = (view s)(q := snd (aq_step op (view s q)))
     else view s' = view s)"
proof (cases op)
  case (QEnq p now)
  then show ?thesis using assms enq_ok [OF assms(1,2)] enq_fail [OF assms(1)]
    by (auto split: prod.splits; metis not_None_eq)
next
  case (QLease mx l now)
  then show ?thesis using assms(3) lease_ok [OF assms(1)] lease_fail [OF assms(1)]
    by (auto split: prod.splits; metis not_None_eq)
next
  case (QAck i)
  then show ?thesis using assms(3) ack_ok [OF assms(1)] ack_fail [OF assms(1)]
    by (auto split: prod.splits; metis not_None_eq)
next
  case (QNack i b now m)
  obtain a kept e where n: "q_nack Q q i b now m s = ((a, kept), e, s')" "r = RNack a kept e"
    using assms(3) QNack by (auto split: prod.splits)
  show ?thesis
  proof (cases e)
    case None
    then show ?thesis using nack_ok [OF assms(1), of q i b now m "(a, kept)" s'] n QNack
      by (cases "aq_nack i b now m (view s q)") auto
  next
    case (Some err)
    then show ?thesis using nack_fail [OF assms(1), of q i b now m "(a, kept)" err s'] n by simp
  qed
qed

text \<open>A step of the run, as the two cases its invariants distinguish.\<close>

lemma step_cases:
  assumes "ok s" and "aq_seq (view s q) \<noteq> - 1" and "q_step Q q op s = (r, s')"
  shows "ok s' \<and> (aq_step op (view s q) = (r, view s' q) \<and> res_err r = None
    \<or> view s' q = view s q \<and> res_err r \<noteq> None)"
  using step_refines [OF assms] by (metis fun_upd_same prod.collapse)

lemma seq_step:
  assumes "ok s" and "unat (aq_seq (view s q)) + Suc n < 2 ^ 64" and "q_step Q q op s = (r, s')"
  shows "aq_seq (view s q) \<noteq> - 1 \<and> unat (aq_seq (view s' q)) + n < 2 ^ 64"
proof -
  have "unat (- 1 :: u64) = 2 ^ 64 - 1" by (simp add: unsigned_minus_1_eq_mask mask_eq_exp_minus_1)
  then have ne: "aq_seq (view s q) \<noteq> - 1" using assms(2) by auto
  have "unat (aq_seq (view s' q)) \<le> unat (aq_seq (view s q)) + 1"
    using step_cases [OF assms(1) ne assms(3)] word_succ_unat [OF ne]
      aq_seq_step [of op "view s q" r "view s' q"]
    by (auto split: qop.splits)
  then show ?thesis using assms(2) ne by linarith
qed

text \<open>Well-formedness survives every run.\<close>

lemma run_ok:
  assumes "ok s" and "unat (aq_seq (view s q)) + length ops < 2 ^ 64" and "q_run Q q ops s = (rs, t)"
  shows "ok t"
  using assms
proof (induction ops arbitrary: s rs)
  case (Cons op ops)
  obtain r s' where st: "q_step Q q op s = (r, s')" by (cases "q_step Q q op s")
  obtain rs' where rn: "q_run Q q ops s' = (rs', t)"
    using Cons.prems(3) st by (auto split: prod.splits)
  have "unat (aq_seq (view s q)) + Suc (length ops) < 2 ^ 64" using Cons.prems(2) by simp
  note sq = seq_step [OF Cons.prems(1) this st]
  then show ?case using Cons.IH [OF _ conjunct2 [OF sq] rn] step_cases [OF Cons.prems(1) _ st] by auto
qed simp

lemma retained:
  assumes "ok s" and "unat (aq_seq (view s q)) + length ops < 2 ^ 64"
    and "q_run Q q ops s = (rs, t)" and "holds_item i p (view s q)"
    and "\<forall>(op, r)\<in>set (zip ops rs). \<not> removes i op r"
  shows "ok t \<and> holds_item i p (view t q)"
  using assms
proof (induction ops arbitrary: s rs)
  case Nil
  then show ?case by simp
next
  case (Cons op ops)
  obtain r s' where st: "q_step Q q op s = (r, s')" by (cases "q_step Q q op s")
  obtain rs' where rn: "q_run Q q ops s' = (rs', t)" "rs = r # rs'"
    using Cons.prems(3) st by (auto split: prod.splits)
  have "unat (aq_seq (view s q)) + Suc (length ops) < 2 ^ 64" using Cons.prems(2) by simp
  note sq = seq_step [OF Cons.prems(1) this st]
  have pre: "ok s" "aq_seq (view s q) \<noteq> - 1" using Cons.prems(1) sq by simp_all
  have "ok s' \<and> holds_item i p (view s' q)"
    using step_cases [OF pre st] holds_item_step [OF _ Cons.prems(4), of op r "view s' q"]
      Cons.prems(4,5) rn(2) by auto
  then show ?case using Cons.IH [OF _ conjunct2 [OF sq] rn(1)] Cons.prems(5) rn(2) by auto
qed

lemma lease_exclusive:
  assumes "ok s" and "unat (aq_seq (view s q)) + length ops < 2 ^ 64"
    and "q_run Q q ops s = (rs, t)" and "hidden_item i d (view s q)"
    and "\<forall>op\<in>set ops. \<not> disturbs i d op"
  shows "\<forall>r\<in>set rs. \<not> hands_out i r"
  using assms
proof (induction ops arbitrary: s rs)
  case Nil
  then show ?case by simp
next
  case (Cons op ops)
  obtain r s' where st: "q_step Q q op s = (r, s')" by (cases "q_step Q q op s")
  obtain rs' where rn: "q_run Q q ops s' = (rs', t)" "rs = r # rs'"
    using Cons.prems(3) st by (auto split: prod.splits)
  have "unat (aq_seq (view s q)) + Suc (length ops) < 2 ^ 64" using Cons.prems(2) by simp
  note sq = seq_step [OF Cons.prems(1) this st]
  have pre: "ok s" "aq_seq (view s q) \<noteq> - 1" using Cons.prems(1) sq by simp_all
  have "ok s' \<and> hidden_item i d (view s' q) \<and> \<not> hands_out i r"
    using step_cases [OF pre st] hidden_item_step [OF _ Cons.prems(4) _ pre(2), of op r "view s' q"]
      Cons.prems(4,5) hands_out_err [of r i] by auto
  then show ?case using Cons.IH [OF _ conjunct2 [OF sq] rn(1)] Cons.prems(5) rn(2) by auto
qed

end

text \<open>The stronger interface of a store whose writes do not fail.\<close>

locale reliable_queue = durable_queue +
  assumes no_error: "q \<noteq> [] \<Longrightarrow> ok s \<Longrightarrow> res_err (fst (q_step Q q op s)) = None"
begin

lemma run_refines:
  assumes "ok s" and "q \<noteq> []" and "unat (aq_seq (view s q)) + length ops < 2 ^ 64"
    and "q_run Q q ops s = (rs, t)"
  shows "ok t \<and> aq_run ops (view s q) = (rs, view t q) \<and> (\<forall>q'. q' \<noteq> q \<longrightarrow> view t q' = view s q')"
  using assms
proof (induction ops arbitrary: s rs)
  case (Cons op ops)
  obtain r s' where st: "q_step Q q op s = (r, s')" by (cases "q_step Q q op s")
  obtain rs' where rn: "q_run Q q ops s' = (rs', t)" "rs = r # rs'"
    using Cons.prems(4) st by (auto split: prod.splits)
  have "unat (aq_seq (view s q)) + Suc (length ops) < 2 ^ 64" using Cons.prems(3) by simp
  note sq = seq_step [OF Cons.prems(1) this st]
  have "res_err r = None" using no_error [OF Cons.prems(2,1), of op] st by simp
  then have r: "ok s'" "r = fst (aq_step op (view s q))"
      "view s' = (view s)(q := snd (aq_step op (view s q)))"
    using step_refines [OF Cons.prems(1) conjunct1 [OF sq] st] by simp_all
  from Cons.IH [OF r(1) Cons.prems(2) conjunct2 [OF sq] rn(1)] r(2,3) rn(2)
  show ?case by (cases "aq_step op (view s q)") simp
qed simp

end

subsection \<open>The store provides it\<close>

lemma QueueEnqueue_Some: "QueueEnqueue B q p now s = (i, Some e, s') \<Longrightarrow> s' = s\<lparr>txid := Suc (txid s)\<rparr>"
  by (simp add: QueueEnqueue_def db_Update_Some)

lemma QueueLease_Some: "QueueLease B q mx l now s = (out, Some e, s') \<Longrightarrow> s' = s\<lparr>txid := Suc (txid s)\<rparr>"
  by (simp add: QueueLease_def db_Update_Some)

lemma QueueAck_Some: "QueueAck B q i s = (Some e, s') \<Longrightarrow> s' = s\<lparr>txid := Suc (txid s)\<rparr>"
  by (auto simp: QueueAck_def db_Update_def split: prod.splits sum.splits option.splits)

lemma QueueNack_Some: "QueueNack B q i b now m s = (r, Some e, s') \<Longrightarrow> s' = s\<lparr>txid := Suc (txid s)\<rparr>"
  by (simp add: QueueNack_def db_Update_Some)

lemmas queue_op_Some = QueueEnqueue_Some QueueLease_Some QueueAck_Some QueueNack_Some

context bolt_bucket
begin

lemma QueueEnqueue_fail:
  "queues_ok B s \<Longrightarrow> QueueEnqueue B q p now s = (i, Some e, s') \<Longrightarrow>
   queues_ok B s' \<and> queue_view B s' = queue_view B s"
  by (drule QueueEnqueue_Some) simp

lemma QueueLease_fail:
  "queues_ok B s \<Longrightarrow> QueueLease B q mx l now s = (out, Some e, s') \<Longrightarrow>
   queues_ok B s' \<and> queue_view B s' = queue_view B s"
  by (drule QueueLease_Some) simp

lemma QueueAck_fail:
  "queues_ok B s \<Longrightarrow> QueueAck B q i s = (Some e, s') \<Longrightarrow>
   queues_ok B s' \<and> queue_view B s' = queue_view B s"
  by (drule QueueAck_Some) simp

lemma QueueNack_fail:
  "queues_ok B s \<Longrightarrow> QueueNack B q i b now m s = (r, Some e, s') \<Longrightarrow>
   queues_ok B s' \<and> queue_view B s' = queue_view B s"
  by (drule QueueNack_Some) simp

lemma store_durable_queue: "durable_queue (store_queue B) (queue_view B) (queues_ok B)"
  by (unfold_locales, unfold store_queue_def queue_ops.select_convs)
     (fact queue_view_ok, fact QueueEnqueue_refines, fact QueueEnqueue_fail, fact QueueLease_refines,
      fact QueueLease_fail, fact QueueAck_refines, fact QueueAck_fail, fact QueueNack_refines,
      fact QueueNack_fail)

end

interpretation logq: durable_queue "store_queue (log_bolt faults)" "queue_view (log_bolt faults)"
    "queues_ok (log_bolt faults)" for faults
  by (rule logb.store_durable_queue)

sublocale bolt_bucket \<subseteq> dq: durable_queue "store_queue B" "queue_view B" "queues_ok B"
  by (rule store_durable_queue)

context bolt_healthy
begin

lemma Put_never [simp]: "k \<noteq> [] \<Longrightarrow> bkt_Put B b k v \<noteq> Inl e"
  using Put_ok [of k b v] by auto

lemma Delete_never [simp]: "bkt_Delete B b k \<noteq> Inl e"
  using Delete_ok [of b k] by auto

lemma seqKey_nonempty [simp]: "seqKey i \<noteq> []"
  using length_PutUint64 [of i] by (auto simp: seqKey_def simp del: length_PutUint64)

lemma lease_loop_never:
  "\<forall>k\<in>fst ` set kvs. k \<noteq> [] \<Longrightarrow> snd (lease_loop B mx l now kvs b out) \<noteq> Inl e"
proof (induction kvs arbitrary: b out)
  case (Cons kv kvs)
  have IH: "snd (lease_loop B mx l now kvs b' o') \<noteq> Inl e" for b' o'
    using Cons by simp
  have "fst kv \<noteq> []" using Cons.prems by simp
  then show ?case
    using IH by (cases kv) (auto simp: Let_def split: option.splits sum.splits if_splits)
qed simp

lemma db_Update_ok:
  "db_Update B s fn = (a, e, s') \<Longrightarrow> (\<And>err. snd (fn s) \<noteq> Inl err) \<Longrightarrow> e = None"
  by (auto simp: db_Update_def Commit_ok split: prod.splits sum.splits)

lemma queue_keys: "bucket_ok B b \<Longrightarrow> \<forall>k\<in>fst ` set (bkt_items B b). k \<noteq> []"
  by (auto simp: bucket_items item_entry_def)

text \<open>Without write faults every operation on a non-empty queue name succeeds.\<close>

lemma QueueEnqueue_total: "q \<noteq> [] \<Longrightarrow> QueueEnqueue B q p now s = (i, e, s') \<Longrightarrow> e = None"
  unfolding QueueEnqueue_def
  by (erule db_Update_ok)
     (auto simp: queueBucket_def CreateBucketIfNotExists_def Create_ok Let_def
        split: prod.split sum.split option.split)

lemma QueueLease_total:
  assumes "queues_ok B s" and "QueueLease B q mx l now s = (out, e, s')"
  shows "e = None"
  using assms(2) unfolding QueueLease_def
proof (rule db_Update_ok)
  fix err
  show "snd (case queue_bucket s q of None \<Rightarrow> ([], Inr s)
     | Some b \<Rightarrow> (case lease_loop B mx l now (bkt_items B b) b [] of
         (out, Inl e) \<Rightarrow> (out, Inl e)
       | (out, Inr b') \<Rightarrow> (out, Inr (put_queue_bucket q b' s)))) \<noteq> Inl err"
  proof (cases "queue_bucket s q")
    case (Some b)
    then have "bucket_ok B b" using assms(1) by (simp add: queues_ok_def)
    with lease_loop_never [OF queue_keys, of b mx l now b "[]" err] Some show ?thesis
      by (auto split: prod.splits sum.splits)
  qed simp
qed

lemma QueueAck_total: "QueueAck B q i s = (e, s') \<Longrightarrow> e = None"
  unfolding QueueAck_def
  by (auto simp: db_Update_def Commit_ok split: option.splits sum.splits)

lemma QueueNack_total: "QueueNack B q i b now m s = (r, e, s') \<Longrightarrow> e = None"
  unfolding QueueNack_def
  by (erule db_Update_ok) (auto simp: Let_def split: option.split sum.split)

lemma store_no_error:
  "q \<noteq> [] \<Longrightarrow> queues_ok B s \<Longrightarrow> res_err (fst (q_step (store_queue B) q op s)) = None"
  by (cases op) (auto simp: store_queue_def split: prod.split
      dest: QueueEnqueue_total QueueLease_total QueueAck_total QueueNack_total)

lemma store_reliable_queue: "reliable_queue (store_queue B) (queue_view B) (queues_ok B)"
  by (rule reliable_queue.intro [OF store_durable_queue], unfold_locales) (rule store_no_error)

end

interpretation logr: reliable_queue "store_queue ref_bolt" "queue_view ref_bolt" "queues_ok ref_bolt"
  by (rule logh.store_reliable_queue)

sublocale bolt_healthy \<subseteq> rq: reliable_queue "store_queue B" "queue_view B" "queues_ok B"
  by (rule store_reliable_queue)

subsection \<open>A concrete store\<close>

lemma empty_store_queues [simp]:
  "queues_ok B empty_store" "queue_view B empty_store q = \<lparr>aq_seq = 0, aq_items = []\<rparr>"
  by (simp_all add: queues_ok_def queue_view_def queue_bucket_def empty_store_def)

text \<open>Two elements, the first leased until 17, and some further operations; used in the witnesses.\<close>

definition demo_ops :: "qop list" where
  "demo_ops = [QEnq (Some ''x'') 5, QEnq None 6, QLease 1 10 7]"

definition demo_store :: "log_bucket store" where
  "demo_store = snd (q_run (store_queue ref_bolt) ''r'' demo_ops empty_store)"

definition later_ops :: "qop list" where
  "later_ops = [QLease 3 60 16, QNack 2 100 20 0, QAck 2, QNack 9 1 1 1, QLease 1 5 18]"

lemmas demo_run = logr.run_refines [OF _ _ _ prod.collapse [symmetric], of empty_store "''r''" demo_ops]

text \<open>The definitions that evaluate an abstract run.\<close>

lemmas aq_eval = aq_enqueue_def aq_lease_def aq_select_def aq_ack_def aq_nack_def due_def zero_item_def
  leased_def retried_def

lemma demo_store_ok: "queues_ok ref_bolt demo_store"
  using demo_run by (simp add: demo_store_def demo_ops_def)

lemma demo_view: "queue_view ref_bolt demo_store ''r'' = \<lparr>aq_seq = 2, aq_items =
  [zero_item\<lparr>ID := 1, Payload := Some ''x'', EnqueuedMs := 5, NotBeforeMs := 5, LeaseUntilMs := 17\<rparr>,
   zero_item\<lparr>ID := 2, Payload := None, EnqueuedMs := 6, NotBeforeMs := 6\<rparr>]\<rparr>"
  using demo_run by (simp add: demo_store_def demo_ops_def aq_eval)

lemmas demo_later = logr.run_refines [OF demo_store_ok _ _ prod.collapse [symmetric], of "''r''", simplified demo_view, simplified]

lemma later_results: "fst (q_run (store_queue ref_bolt) ''r'' later_ops demo_store) =
  [RLease [zero_item\<lparr>ID := 2, EnqueuedMs := 6, NotBeforeMs := 6, LeaseUntilMs := 76\<rparr>] None,
   RNack 1 True None, RAck None, RNack 0 False None,
   RLease [zero_item\<lparr>ID := 1, Payload := Some ''x'', EnqueuedMs := 5, NotBeforeMs := 5, LeaseUntilMs := 23\<rparr>] None]"
  using demo_later [of later_ops] by (simp add: later_ops_def aq_eval del: q_run.simps)

subsection \<open>Properties\<close>

text \<open>C2: At-least-once. An element of a queue stays in it, with its payload, through any sequence
  of enqueue, lease, ack and nack operations, failed transactions included, unless one of them is a
  successful ack of its number or a nack that reported the element as given up; nothing else, in
  particular no lease and no operation on another element, loses it.\<close>

theorem queue_at_least_once:
  assumes "bolt_bucket B" and "queues_ok B s"
    and "unat (aq_seq (queue_view B s q)) + length ops < 2 ^ 64"
    and "q_run (store_queue B) q ops s = (rs, t)"
    and "holds_item i p (queue_view B s q)"
    and "\<forall>(op, r)\<in>set (zip ops rs). \<not> removes i op r"
  shows "queues_ok B t \<and> holds_item i p (queue_view B t q)"
  by (rule durable_queue.retained [OF bolt_bucket.store_durable_queue [OF assms(1)] assms(2-6)])

theorem queue_at_least_once_witness:
  "holds_item 1 (Some ''x'')
     (queue_view ref_bolt (snd (q_run (store_queue ref_bolt) ''r'' later_ops demo_store)) ''r'')"
  using queue_at_least_once [OF log_bolt_bucket demo_store_ok _ prod.collapse [symmetric],
      of "''r''" later_ops 1 "Some ''x''"]
  by (simp add: later_results demo_view holds_item_def) (simp add: later_ops_def zero_item_def)

text \<open>C3: The queue code implements its abstract specification. Every operation that reports no
  error acts on the view of its queue (sequence counter and list of items) as the abstract
  operation and returns its result, and leaves every other queue alone; an operation that reports
  an error changes no queue. The stored representation stays well formed.\<close>

theorem queue_refines_spec:
  assumes "bolt_bucket B" and "queues_ok B s" and "aq_seq (queue_view B s q) \<noteq> - 1"
    and "q_step (store_queue B) q op s = (r, s')"
  shows "queues_ok B s' \<and> (if res_err r = None
     then r = fst (aq_step op (queue_view B s q))
        \<and> queue_view B s' = (queue_view B s)(q := snd (aq_step op (queue_view B s q)))
     else queue_view B s' = queue_view B s)"
  by (rule durable_queue.step_refines [OF bolt_bucket.store_durable_queue [OF assms(1)] assms(2-4)])

theorem queue_refines_spec_witness:
  "queue_view ref_bolt (snd (q_step (store_queue ref_bolt) ''r'' (QAck 1) demo_store)) ''r'' =
     aq_ack 1 (queue_view ref_bolt demo_store ''r'')"
  using queue_refines_spec [OF log_bolt_bucket demo_store_ok _ prod.collapse [symmetric],
        of "''r''" "QAck 1"] logr.no_error [OF _ demo_store_ok, of "''r''" "QAck 1"]
    by (simp add: demo_view del: q_step.simps)

text \<open>C10: Lease exclusivity. While the lease of an element runs, no lease operation before its
  end hands the element out again, whatever other operations happen in between, as long as the
  element itself is not nacked.\<close>

theorem queue_lease_exclusive:
  assumes "bolt_bucket B" and "queues_ok B s"
    and "unat (aq_seq (queue_view B s q)) + length ops < 2 ^ 64"
    and "q_run (store_queue B) q ops s = (rs, t)"
    and "hidden_item i d (queue_view B s q)"
    and "\<forall>op\<in>set ops. \<not> disturbs i d op"
  shows "\<forall>r\<in>set rs. \<not> hands_out i r"
  by (rule durable_queue.lease_exclusive [OF bolt_bucket.store_durable_queue [OF assms(1)] assms(2-6)])

theorem queue_lease_exclusive_witness:
  "list_all (\<lambda>r. \<not> hands_out 1 r) (fst (q_run (store_queue ref_bolt) ''r''
      [QLease 3 60 16, QNack 2 100 14 0, QEnq None 3] demo_store))"
  unfolding list_all_iff
  by (rule queue_lease_exclusive [OF log_bolt_bucket demo_store_ok _ prod.collapse [symmetric], of _ _ _ 17])
     (simp_all add: demo_view hidden_item_def disturbs_def zero_item_def)

text \<open>C12: FIFO. A lease that reports no error returns the first due elements of the queue, at
  most the requested number, in strictly increasing order of their numbers, each due at the given
  time, with its payload and attempts unchanged and its lease set to the given time plus the
  lease period.\<close>

theorem queue_lease_fifo:
  assumes "bolt_bucket B" and "queues_ok B s"
    and "QueueLease B q mx leaseMs now s = (out, None, s')"
  shows "out = map (leased leaseMs now) (take (nat (sint mx)) (filter (due now) (aq_items (queue_view B s q))))
    \<and> sorted_wrt (<) (map ID out) \<and> length out \<le> nat (sint mx)
    \<and> (\<forall>it\<in>set out. LeaseUntilMs it = now + leaseMs)"
proof -
  have out: "out = map (leased leaseMs now) (aq_select mx now (aq_items (queue_view B s q)))"
    using bolt_bucket.QueueLease_refines [OF assms] by (simp add: aq_lease_def)
  have "sorted_wrt (<) (map ID (aq_items (queue_view B s q)))"
    using bolt_bucket.queue_view_ok [OF assms(1,2)] by (simp add: aq_ok_def)
  then have "sorted_wrt (<) (map ID (aq_select mx now (aq_items (queue_view B s q))))"
    by (simp add: aq_select_def sorted_wrt_map sorted_wrt_filter sorted_wrt_take)
  then show ?thesis by (auto simp: out aq_select_def comp_def)
qed

theorem queue_lease_fifo_witness:
  "map ID (fst (QueueLease ref_bolt ''r'' 5 60 20 demo_store)) = [1, 2]"
proof -
  obtain out s' where r: "QueueLease ref_bolt ''r'' 5 60 20 demo_store = (out, None, s')"
    using logh.QueueLease_total [OF demo_store_ok] by (metis prod_cases3)
  from queue_lease_fifo [OF log_bolt_bucket demo_store_ok r]
  show ?thesis by (simp add: r demo_view due_def zero_item_def)
qed

text \<open>What is written to a queue can be read back: the stored JSON of a queue item, with any
  payload bytes (base64) or a nil payload and any 64-bit values, decodes to the same item.\<close>

theorem queue_item_roundtrip: "item_Unmarshal (item_Marshal it) = Some it"
  by simp

text \<open>Without write faults the queue is exactly its specification: a run of any operations on a
  queue returns what the abstract run returns, leaves the queue in the state of the abstract run,
  and touches no other queue.\<close>

theorem queue_run_exact:
  assumes "bolt_healthy B" and "queues_ok B s" and "q \<noteq> []"
    and "unat (aq_seq (queue_view B s q)) + length ops < 2 ^ 64"
    and "q_run (store_queue B) q ops s = (rs, t)"
  shows "aq_run ops (queue_view B s q) = (rs, queue_view B t q) \<and> queues_ok B t
    \<and> (\<forall>q'. q' \<noteq> q \<longrightarrow> queue_view B t q' = queue_view B s q')"
  using reliable_queue.run_refines [OF bolt_healthy.store_reliable_queue [OF assms(1)] assms(2-5)]
  by simp

theorem queue_run_exact_witness:
  "fst (q_run (store_queue ref_bolt) ''r'' [QEnq None 1, QLease 1 5 1, QAck 1, QLease 1 5 9] empty_store) =
     [REnq 1 None, RLease [zero_item\<lparr>ID := 1, EnqueuedMs := 1, NotBeforeMs := 1, LeaseUntilMs := 6\<rparr>] None,
      RAck None, RLease [] None]"
  using queue_run_exact [OF logh.bolt_healthy_axioms empty_store_queues(1) _ _ prod.collapse [symmetric],
      of "''r''" "[QEnq None 1, QLease 1 5 1, QAck 1, QLease 1 5 9]"]
  by (simp add: aq_eval del: q_run.simps)

end
