(* ===== verification/StoreContract.thy ===== *)
theory StoreContract
  imports QueueContract
begin

section \<open>The contract of the local store\<close>

text \<open>
  What the rest of the program relies on in store.go and blob.go: persistent counters that count
  exactly the increments that succeeded, an append-only journal of events, blobs that read back
  what was written, and a database that survives closing and reopening. The operations of one
  part of the store leave the other parts alone (the \<open>frame\<close> lemmas).
\<close>

subsection \<open>Sequences of events\<close>

fun append_all :: "'b bolt \<Rightarrow> Event list \<Rightarrow> 'b store \<Rightarrow> (Event \<times> gerror option) list \<times> 'b store" where
  "append_all B [] s = ([], s)"
| "append_all B (e # es) s =
     (case AppendEvent B (TsMs e) (Kind e) (Detail e) s of
        (err, s') \<Rightarrow> case append_all B es s' of (rs, t) \<Rightarrow> ((e, err) # rs, t))"

definition journal :: "'b bolt \<Rightarrow> 'b store \<Rightarrow> bytes list" where
  "journal B s = map snd (bkt_items B (bktEvents s))"

definition stored :: "(Event \<times> gerror option) list \<Rightarrow> Event list" where
  "stored rs = map fst (filter (\<lambda>r. snd r = None) rs)"

lemma stored_simps [simp]:
  "stored [] = []" "stored ((e, err) # rs) = (if err = None then e # stored rs else stored rs)"
  by (simp_all add: stored_def)

lemma max_word_64: "unat (- 1 :: u64) = 2 ^ 64 - 1"
  by (simp add: unsigned_minus_1_eq_mask mask_eq_exp_minus_1)

context bolt_bucket
begin

lemma append_all_journal:
  assumes "events_ok B s" and "unat (bkt_Sequence B (bktEvents s)) + length es < 2 ^ 64"
    and "append_all B es s = (rs, t)"
  shows "events_ok B t \<and> journal B t = journal B s @ map Event_Marshal (stored rs)"
  using assms
proof (induction es arbitrary: s rs)
  case (Cons e es)
  obtain err s' where a: "AppendEvent B (TsMs e) (Kind e) (Detail e) s = (err, s')"
    by (cases "AppendEvent B (TsMs e) (Kind e) (Detail e) s")
  obtain rs' where r: "append_all B es s' = (rs', t)" "rs = (e, err) # rs'"
    using Cons.prems(3) a by (auto split: prod.splits)
  have ne: "bkt_Sequence B (bktEvents s) \<noteq> - 1"
    using Cons.prems(2) max_word_64 by auto
  have e: "\<lparr>TsMs = TsMs e, Kind = Kind e, Detail = Detail e\<rparr> = e" by simp
  show ?case
  proof (cases err)
    case None
    with a have a': "AppendEvent B (TsMs e) (Kind e) (Detail e) s = (None, s')" by simp
    note i = AppendEvent_items [OF Cons.prems(1) ne a'] AppendEvent_ok [OF Cons.prems(1) ne a']
    have "unat (bkt_Sequence B (bktEvents s')) + length es < 2 ^ 64"
      using i(1) Cons.prems(2) word_succ_unat [OF ne] by simp
    from Cons.IH [OF i(2) this r(1)] i(1) r(2) None show ?thesis by (simp add: journal_def e)
  next
    case (Some x)
    with a have "s' = s\<lparr>txid := Suc (txid s)\<rparr>" by (simp add: AppendEvent_Some)
    then have "events_ok B s'" "journal B s' = journal B s"
      "unat (bkt_Sequence B (bktEvents s')) + length es < 2 ^ 64"
      using Cons.prems(1,2) by (simp_all add: events_ok_def journal_def)
    from Cons.IH [OF this(1,3) r(1)] this(2) r(2) Some show ?thesis by simp
  qed
qed simp

lemma CountEvents_journal: "CountEvents B s = length (journal B s)"
  by (simp add: CountEvents_def KeyN_items journal_def)

end

subsection \<open>Properties\<close>

text \<open>C20: Counters are exact. After any sequence of increments of any counters, some of which may
  fail to commit, each counter has grown by the number of its increments that reported no error
  (modulo 2^64), and those increments returned consecutive values.\<close>

theorem counters_exact:
  assumes "bolt_bucket B" and "incr_all (Incr B) ns s = (rs, t)"
  shows "Counter B m t = Counter B m s + of_nat (length (successes m rs))
    \<and> successes m rs = map (\<lambda>i. Counter B m s + of_nat i) [1 ..< Suc (length (successes m rs))]"
  using counters.incr_all_count [OF bolt_bucket.counters_Incr [OF assms(1)] assms(2), of m]
    counters.incr_all_values [OF bolt_bucket.counters_Incr [OF assms(1)] assms(2), of m]
  by simp

theorem counters_exact_witness:
  "Counter (log_bolt (\<lambda>i. if i = 2 then Some (ErrText ''disk full'') else None)) ''a''
     (snd (incr_all (Incr (log_bolt (\<lambda>i. if i = 2 then Some (ErrText ''disk full'') else None)))
       [''a'', ''a'', ''b'', ''a''] empty_store)) = 2"
proof -
  let ?B = "log_bolt (\<lambda>i. if i = 2 then Some (ErrText ''disk full'') else None)"
  have "length (successes ''a'' (fst (incr_all (Incr ?B) [''a'', ''a'', ''b'', ''a''] empty_store))) = 2"
    by code_simp
  moreover have "Counter ?B ''a'' empty_store = 0" by code_simp
  ultimately show ?thesis
    using counters_exact [OF log_bolt_bucket prod.collapse [symmetric], where ns = "[''a'', ''a'', ''b'', ''a'']" and s = empty_store and m = "''a''"]
    by (simp del: incr_all.simps)
qed

text \<open>The journal of events is append-only. A sequence of appends leaves the existing entries
  as they were and adds, in order, the JSON of exactly the events whose append reported no error;
  \<open>CountEvents\<close> is the length of the journal.\<close>

theorem journal_append_only:
  assumes "bolt_bucket B" and "events_ok B s"
    and "unat (bkt_Sequence B (bktEvents s)) + length es < 2 ^ 64"
    and "append_all B es s = (rs, t)"
  shows "events_ok B t \<and> journal B t = journal B s @ map Event_Marshal (stored rs)
    \<and> CountEvents B t = CountEvents B s + length (stored rs)"
  using bolt_bucket.append_all_journal [OF assms] bolt_bucket.CountEvents_journal [OF assms(1)]
  by simp

theorem journal_append_only_witness:
  "journal ref_bolt (snd (append_all ref_bolt [\<lparr>TsMs = 7, Kind = ''boot'', Detail = ''v1''\<rparr>] empty_store)) =
     [CHR 0x7B # DQ # ''ts_ms'' @ DQ # '':7,'' @ DQ # ''kind'' @ DQ # CHR 0x3A # DQ # ''boot'' @ DQ # CHR 0x2C #
      DQ # ''detail'' @ DQ # CHR 0x3A # DQ # ''v1'' @ DQ # ''}'']"
proof -
  let ?r = "append_all ref_bolt [\<lparr>TsMs = 7, Kind = ''boot'', Detail = ''v1''\<rparr>] empty_store"
  have "stored (fst ?r) = [\<lparr>TsMs = 7, Kind = ''boot'', Detail = ''v1''\<rparr>]" by code_simp
  moreover have "journal ref_bolt empty_store = []" by code_simp
  moreover have "events_ok ref_bolt empty_store" by (simp add: events_ok_def empty_store_def log_bolt_def)
  ultimately have "journal ref_bolt (snd ?r) = [Event_Marshal \<lparr>TsMs = 7, Kind = ''boot'', Detail = ''v1''\<rparr>]"
    using journal_append_only [OF log_bolt_bucket _ _ prod.collapse [symmetric],
        where s = empty_store and es = "[\<lparr>TsMs = 7, Kind = ''boot'', Detail = ''v1''\<rparr>]"]
    by (simp add: empty_store_def log_bolt_def del: append_all.simps)
  moreover have "Event_Marshal \<lparr>TsMs = 7, Kind = ''boot'', Detail = ''v1''\<rparr> =
     CHR 0x7B # DQ # ''ts_ms'' @ DQ # '':7,'' @ DQ # ''kind'' @ DQ # CHR 0x3A # DQ # ''boot'' @ DQ # CHR 0x2C #
      DQ # ''detail'' @ DQ # CHR 0x3A # DQ # ''v1'' @ DQ # ''}''" by code_simp
  ultimately show ?thesis by simp
qed

text \<open>Blobs read back. After a successful \<open>PutBlob\<close>, \<open>GetBlob\<close> returns the value written
  under that key (nil for an empty one) and what it returned before under every other key; a \<open>PutBlob\<close> that reports an
  error changes no blob. Either way the counters, the events and the queues stay as they were.\<close>

theorem blob_readback:
  assumes "bolt_bucket B" and "PutBlob B k v s = (e, s')"
  shows "GetBlob B k' s' = (if e = None \<and> k' = k then copy_bytes v else GetBlob B k' s)
    \<and> bktCounters s' = bktCounters s \<and> bktEvents s' = bktEvents s \<and> bktQueues s' = bktQueues s"
proof (cases e)
  case None
  then show ?thesis
    using bolt_bucket.GetBlob_PutBlob [OF assms(1)] PutBlob_frame [OF assms(2)] assms(2) by auto
next
  case (Some err)
  then show ?thesis using PutBlob_Some [of B k v s err s'] assms(2) by (simp add: GetBlob_def)
qed

theorem blob_readback_witness:
  "GetBlob ref_bolt ''k'' (snd (PutBlob ref_bolt ''k'' ''v'' empty_store)) = Some ''v''"
proof -
  have "fst (PutBlob ref_bolt ''k'' ''v'' empty_store) = None" by code_simp
  then show ?thesis
    using blob_readback [OF log_bolt_bucket prod.collapse [symmetric], where k = "''k''" and v = "''v''" and s = empty_store and k' = "''k''"]
    by (simp add: copy_bytes_def)
qed

end
