(* ===== verification/Runner.thy ===== *)
theory Runner
  imports GoText
begin

section \<open>internal/batch: prompts and agent runners\<close>

text \<open>
  Models prompt.go and runner.go. Processes, HTTP and templates are an environment: \<open>run_env\<close>
  answers a command line, \<open>http_env\<close> a request, \<open>tmpl_env\<close> parses and executes templates, and the
  clock readings are arguments. What the code builds from a job (command line, request, template
  data) and what it makes of the answers (status, report, metrics, error) is written out.
\<close>

subsection \<open>Prompts (prompt.go)\<close>

record 't tmpl_env =
  tmpl_Parse :: "bytes \<Rightarrow> gerror + 't"
  tmpl_Execute :: "'t \<Rightarrow> (bytes \<rightharpoonup> bytes) \<Rightarrow> gerror + bytes"

text \<open>A moment, as the texts the code formats it to: the UTC date and RFC 3339.\<close>

record moment =
  at_date :: bytes
  at_rfc3339 :: bytes

definition resolveTokens :: "bytes \<Rightarrow> moment \<Rightarrow> bytes" where
  "resolveTokens v at =
     (if v = ''{{today}}'' then at_date at
      else if v = ''{{now}}'' then at_rfc3339 at
      else v)"

definition prompt_data :: "(bytes \<rightharpoonup> bytes) \<Rightarrow> moment \<Rightarrow> (bytes \<rightharpoonup> bytes)" where
  "prompt_data vars at =
     (let dat = (\<lambda>k. map_option (\<lambda>v. resolveTokens v at) (vars k)) in
      if dat ''date'' = None then dat(''date'' \<mapsto> at_date at) else dat)"

definition ResolvePrompt :: "'t tmpl_env \<Rightarrow> bytes \<Rightarrow> (bytes \<rightharpoonup> bytes) \<Rightarrow> moment \<Rightarrow> gerror + bytes" where
  "ResolvePrompt T tmpl vars at =
     (let dat = prompt_data vars at in
      if tmpl = [] then Inr []
      else case tmpl_Parse T tmpl of
        Inl e \<Rightarrow> Inl (Wrapped ''prompt template'' e)
      | Inr t \<Rightarrow> (case tmpl_Execute T t dat of
          Inl e \<Rightarrow> Inl (Wrapped ''prompt exec'' e)
        | Inr out \<Rightarrow> Inr out))"

subsection \<open>Results (runner.go)\<close>

record RunResult =
  Status :: bytes
  ReportMD :: bytes
  Metrics :: "bytes \<rightharpoonup> bytes"
  Error :: bytes
  StartedMs :: i64
  EndedMs :: i64

definition fail :: "i64 \<Rightarrow> i64 \<Rightarrow> bytes \<Rightarrow> RunResult" where
  "fail started ended msg = \<lparr>Status = ''failed'', ReportMD = [], Metrics = Map.empty, Error = msg,
     StartedMs = started, EndedMs = ended\<rparr>"

definition timed_out :: "i64 \<Rightarrow> i64 \<Rightarrow> bytes \<Rightarrow> RunResult" where
  "timed_out started ended msg = \<lparr>Status = ''timeout'', ReportMD = [], Metrics = Map.empty, Error = msg,
     StartedMs = started, EndedMs = ended\<rparr>"

definition orDefault :: "bytes \<Rightarrow> bytes \<Rightarrow> bytes" where
  "orDefault v def = (if v = [] then def else v)"

definition truncate_text :: "bytes \<Rightarrow> nat \<Rightarrow> bytes" where
  "truncate_text s n = (if length s \<le> n then s else take n s @ [CHR 0xE2, CHR 0x80, CHR 0xA6])"

text \<open>\<open>params[k]\<close> of a Go map: the empty string when the key is missing.\<close>

definition param :: "(bytes \<rightharpoonup> bytes) \<Rightarrow> bytes \<Rightarrow> bytes" where
  "param ps k = (case ps k of Some v \<Rightarrow> v | None \<Rightarrow> [])"

subsection \<open>Processes\<close>

record exec_cmd =
  cmd_bin :: bytes
  cmd_args :: "bytes list"
  cmd_Dir :: bytes
  cmd_stdin :: bytes

record exec_answer =
  x_err :: "gerror option"
  x_stdout :: bytes
  x_stderr :: bytes
  x_deadline :: bool

text \<open>A command under a timeout (in nanoseconds), its outcome, and the clock before and after.\<close>

record 'f run_env =
  exec :: "exec_cmd \<Rightarrow> i64 \<Rightarrow> exec_answer"
  t_start :: i64
  t_end :: i64
  f_zero :: 'f
  f_parse :: "bytes \<Rightarrow> 'f option"
  f_format4 :: "'f \<Rightarrow> bytes"

record 'f claude_out =
  cl_Result :: bytes
  cl_CostUSD :: 'f
  cl_NumTurns :: i64
  cl_DurationMs :: i64
  cl_IsError :: bool

definition claude_fields :: "bytes list" where
  "claude_fields = [''result'', ''total_cost_usd'', ''num_turns'', ''duration_ms'', ''is_error'']"

definition set_claude_field :: "'f run_env \<Rightarrow> bytes \<Rightarrow> json \<Rightarrow> 'f claude_out \<Rightarrow> 'f claude_out option" where
  "set_claude_field E n j c =
     (if n = ''result'' then map_option (\<lambda>v. c\<lparr>cl_Result := v\<rparr>) (as_string j (cl_Result c))
      else if n = ''total_cost_usd'' then
        (case j of JNull \<Rightarrow> Some c
           | JNum l \<Rightarrow> map_option (\<lambda>v. c\<lparr>cl_CostUSD := v\<rparr>) (f_parse E l) | _ \<Rightarrow> None)
      else if n = ''num_turns'' then map_option (\<lambda>v. c\<lparr>cl_NumTurns := v\<rparr>) (as_int64 j (cl_NumTurns c))
      else if n = ''duration_ms'' then map_option (\<lambda>v. c\<lparr>cl_DurationMs := v\<rparr>) (as_int64 j (cl_DurationMs c))
      else map_option (\<lambda>v. c\<lparr>cl_IsError := v\<rparr>) (as_bool j (cl_IsError c)))"

definition claude_Unmarshal :: "'f run_env \<Rightarrow> bytes \<Rightarrow> 'f claude_out option" where
  "claude_Unmarshal E s = json_Unmarshal claude_fields (set_claude_field E) s
     \<lparr>cl_Result = [], cl_CostUSD = f_zero E, cl_NumTurns = 0, cl_DurationMs = 0, cl_IsError = False\<rparr>"

definition claude_args :: "bytes \<Rightarrow> (bytes \<rightharpoonup> bytes) \<Rightarrow> bytes list" where
  "claude_args prompt ps =
     [''-p'', prompt, ''--output-format'', ''json'']
     @ (if param ps ''model'' \<noteq> [] then [''--model'', param ps ''model''] else [])
     @ (if param ps ''permission_mode'' \<noteq> [] then [''--permission-mode'', param ps ''permission_mode''] else [])
     @ (if param ps ''extra_args'' \<noteq> [] then Fields (param ps ''extra_args'') else [])"

definition ClaudeCode_Run :: "'f run_env \<Rightarrow> bytes \<Rightarrow> (bytes \<rightharpoonup> bytes) \<Rightarrow> i64 \<Rightarrow> RunResult" where
  "ClaudeCode_Run E prompt ps timeout =
     (let a = exec E \<lparr>cmd_bin = orDefault (param ps ''binary'') ''claude'', cmd_args = claude_args prompt ps,
                      cmd_Dir = param ps ''cwd'', cmd_stdin = []\<rparr> timeout
      in if x_deadline a then timed_out (t_start E) (t_end E) ''timeout claude''
         else case x_err a of
           Some e \<Rightarrow> fail (t_start E) (t_end E)
             (''claude exit: '' @ err_text e @ '' | '' @ truncate_text (x_stderr a) 400)
         | None \<Rightarrow>
             (case claude_Unmarshal E (x_stdout a) of
                Some j \<Rightarrow>
                  (if cl_Result j \<noteq> [] then
                     (let metrics = [''cost_usd'' \<mapsto> f_format4 E (cl_CostUSD j),
                                     ''num_turns'' \<mapsto> dec_int (sint (cl_NumTurns j)),
                                     ''duration_ms'' \<mapsto> dec_int (sint (cl_DurationMs j))]
                      in if cl_IsError j
                         then \<lparr>Status = ''failed'', ReportMD = cl_Result j, Metrics = metrics,
                               Error = ''claude is_error'', StartedMs = t_start E, EndedMs = t_end E\<rparr>
                         else \<lparr>Status = ''success'', ReportMD = cl_Result j, Metrics = metrics,
                               Error = [], StartedMs = t_start E, EndedMs = t_end E\<rparr>)
                   else \<lparr>Status = ''success'', ReportMD = x_stdout a, Metrics = Map.empty,
                         Error = [], StartedMs = t_start E, EndedMs = t_end E\<rparr>)
              | None \<Rightarrow> \<lparr>Status = ''success'', ReportMD = x_stdout a, Metrics = Map.empty,
                         Error = [], StartedMs = t_start E, EndedMs = t_end E\<rparr>))"

definition CustomExec_Run :: "'f run_env \<Rightarrow> bytes \<Rightarrow> (bytes \<rightharpoonup> bytes) \<Rightarrow> i64 \<Rightarrow> RunResult" where
  "CustomExec_Run E prompt ps timeout =
     (let binline = param ps ''command'' in
      if binline = [] then
        fail (t_start E) (t_end E) (''custom_exec: param '' @ CHR 0x27 # ''command'' @ CHR 0x27 # '' requis'')
      else
        let a = exec E \<lparr>cmd_bin = ''sh'', cmd_args = [''-c'', binline], cmd_Dir = param ps ''cwd'',
                        cmd_stdin = prompt\<rparr> timeout
        in if x_deadline a then timed_out (t_start E) (t_end E) ''timeout exec''
           else case x_err a of
             Some e \<Rightarrow> \<lparr>Status = ''failed'', ReportMD = x_stdout a, Metrics = [''exit_code'' \<mapsto> err_text e],
                 Error = ''exec: '' @ err_text e @ '' | '' @ truncate_text (x_stderr a) 400,
                 StartedMs = t_start E, EndedMs = t_end E\<rparr>
           | None \<Rightarrow> \<lparr>Status = ''success'', ReportMD = x_stdout a, Metrics = [''exit_code'' \<mapsto> ''0''],
                 Error = [], StartedMs = t_start E, EndedMs = t_end E\<rparr>)"

subsection \<open>HTTP\<close>

record http_request =
  req_url :: bytes
  req_body :: bytes
  req_headers :: "(bytes \<times> bytes) list"

datatype http_answer =
    HttpError gerror bool
  | HttpResponse int bytes

text \<open>The answer to a request under a timeout; \<open>HttpError e d\<close> tells whether the deadline passed.\<close>

record http_env =
  http_NewRequest :: "bytes \<Rightarrow> gerror option"
  http_Do :: "http_request \<Rightarrow> i64 \<Rightarrow> http_answer"
  h_start :: i64
  h_end :: i64

record http_out =
  ho_Markdown :: bytes
  ho_Metrics :: "(bytes \<rightharpoonup> bytes) option"

text \<open>Decoding into a \<open>map[string]string\<close>: null is nil, members are added to the map.\<close>

fun add_members :: "(bytes \<times> json) list \<Rightarrow> (bytes \<rightharpoonup> bytes) \<Rightarrow> (bytes \<rightharpoonup> bytes) option" where
  "add_members [] m = Some m"
| "add_members ((k, v) # kvs) m =
     (case as_string v [] of None \<Rightarrow> None | Some s \<Rightarrow> add_members kvs (m(k \<mapsto> s)))"

definition as_string_map :: "json \<Rightarrow> (bytes \<rightharpoonup> bytes) option \<Rightarrow> (bytes \<rightharpoonup> bytes) option option" where
  "as_string_map j old = (case j of
     JNull \<Rightarrow> Some None
   | JObj kvs \<Rightarrow> map_option Some (add_members kvs (case old of None \<Rightarrow> Map.empty | Some m \<Rightarrow> m))
   | _ \<Rightarrow> None)"

definition http_fields :: "bytes list" where
  "http_fields = [''markdown'', ''metrics'']"

definition set_http_field :: "bytes \<Rightarrow> json \<Rightarrow> http_out \<Rightarrow> http_out option" where
  "set_http_field n j h =
     (if n = ''markdown'' then map_option (\<lambda>v. h\<lparr>ho_Markdown := v\<rparr>) (as_string j (ho_Markdown h))
      else map_option (\<lambda>v. h\<lparr>ho_Metrics := v\<rparr>) (as_string_map j (ho_Metrics h)))"

definition http_Unmarshal :: "bytes \<Rightarrow> http_out option" where
  "http_Unmarshal s = json_Unmarshal http_fields set_http_field s \<lparr>ho_Markdown = [], ho_Metrics = None\<rparr>"

text \<open>The headers set on the request, in order.\<close>

definition http_headers :: "(bytes \<rightharpoonup> bytes) \<Rightarrow> (bytes \<times> bytes) list" where
  "http_headers ps =
     (''Content-Type'', ''application/json'') #
     (let h = param ps ''auth_header'' in
      if h = [] then [] else
      case Cut h (CHR '':'') of (k, v, ok) \<Rightarrow> if ok then [(TrimSpace k, TrimSpace v)] else [])"

definition body_limit :: nat where
  "body_limit = 8 * 1024 * 1024"

definition httpRun :: "http_env \<Rightarrow> bytes \<Rightarrow> (bytes \<rightharpoonup> bytes) \<Rightarrow> i64 \<Rightarrow> bytes \<Rightarrow> RunResult" where
  "httpRun H prompt ps timeout kind =
     (let url = param ps ''url'' in
      if url = [] then
        fail (h_start H) (h_end H) (kind @ '': param '' @ CHR 0x27 # ''url'' @ CHR 0x27 # '' requis'')
      else case http_NewRequest H url of
        Some e \<Rightarrow> fail (h_start H) (h_end H) (kind @ '': '' @ err_text e)
      | None \<Rightarrow>
          (case http_Do H \<lparr>req_url = url, req_body = print_json (JObj [(''prompt'', JStr prompt)]),
                          req_headers = http_headers ps\<rparr> timeout of
             HttpError e deadline \<Rightarrow>
               (if deadline then timed_out (h_start H) (h_end H) ''timeout http''
                else fail (h_start H) (h_end H) (kind @ '': '' @ err_text e))
           | HttpResponse code body \<Rightarrow>
               (let raw = take body_limit body in
                if 300 \<le> code then
                  fail (h_start H) (h_end H) (kind @ '': HTTP '' @ dec_int code @ '' '' @ truncate_text raw 300)
                else
                  (case http_Unmarshal raw of
                     Some j \<Rightarrow>
                       (if ho_Markdown j \<noteq> [] then
                          \<lparr>Status = ''success'', ReportMD = ho_Markdown j,
                           Metrics = (case ho_Metrics j of None \<Rightarrow> Map.empty | Some m \<Rightarrow> m),
                           Error = [], StartedMs = h_start H, EndedMs = h_end H\<rparr>
                        else \<lparr>Status = ''success'', ReportMD = raw, Metrics = Map.empty,
                              Error = [], StartedMs = h_start H, EndedMs = h_end H\<rparr>)
                   | None \<Rightarrow> \<lparr>Status = ''success'', ReportMD = raw, Metrics = Map.empty,
                              Error = [], StartedMs = h_start H, EndedMs = h_end H\<rparr>))))"

text \<open>The two runners that post the prompt.\<close>

definition CustomHttp_Run :: "http_env \<Rightarrow> bytes \<Rightarrow> (bytes \<rightharpoonup> bytes) \<Rightarrow> i64 \<Rightarrow> RunResult" where
  "CustomHttp_Run H = (\<lambda>prompt ps timeout. httpRun H prompt ps timeout ''custom_http'')"

definition AgentIA_Run :: "http_env \<Rightarrow> bytes \<Rightarrow> (bytes \<rightharpoonup> bytes) \<Rightarrow> i64 \<Rightarrow> RunResult" where
  "AgentIA_Run H = (\<lambda>prompt ps timeout. httpRun H prompt ps timeout ''agentia'')"

subsection \<open>The registry\<close>

text \<open>The interface \<open>AgentRunner\<close>, and the four types that implement it.\<close>

type_synonym run_method = "bytes \<Rightarrow> (bytes \<rightharpoonup> bytes) \<Rightarrow> i64 \<Rightarrow> RunResult"

record AgentRunner =
  runner_Kind :: bytes
  runner_Run :: run_method

definition ClaudeCodeRunner :: "'f run_env \<Rightarrow> AgentRunner" where
  "ClaudeCodeRunner E = \<lparr>runner_Kind = ''claude_code'', runner_Run = ClaudeCode_Run E\<rparr>"

definition CustomExecRunner :: "'f run_env \<Rightarrow> AgentRunner" where
  "CustomExecRunner E = \<lparr>runner_Kind = ''custom_exec'', runner_Run = CustomExec_Run E\<rparr>"

definition CustomHttpRunner :: "http_env \<Rightarrow> AgentRunner" where
  "CustomHttpRunner H = \<lparr>runner_Kind = ''custom_http'', runner_Run = CustomHttp_Run H\<rparr>"

definition AgentIARunner :: "http_env \<Rightarrow> AgentRunner" where
  "AgentIARunner H = \<lparr>runner_Kind = ''agentia'', runner_Run = AgentIA_Run H\<rparr>"

text \<open>\<open>DefaultRunners\<close>: the loop that registers each runner under its kind. What the worker uses of a
  runner it looks up is its \<open>Run\<close>.\<close>

definition DefaultRunners :: "'f run_env \<Rightarrow> http_env \<Rightarrow> bytes \<rightharpoonup> run_method" where
  "DefaultRunners E H = fold (\<lambda>x r. r(runner_Kind x \<mapsto> runner_Run x))
     [ClaudeCodeRunner E, CustomExecRunner E, CustomHttpRunner H, AgentIARunner H] Map.empty"

lemmas runner_types = ClaudeCodeRunner_def CustomExecRunner_def CustomHttpRunner_def AgentIARunner_def

end
