(* ===== verification/BatchWorker.thy ===== *)
theory BatchWorker
  imports StoreContract Proto Runner
begin

section \<open>internal/worker/batch.go: scheduled jobs and the upload of their reports\<close>

text \<open>
  The batch role. The worker keeps the configured jobs, the cron entries armed for them and, per
  job, a pointer to a flag that prevents overlapping runs; here flags are cells of a heap, because
  a run in progress keeps the pointer it started with while \<open>configure\<close> installs fresh ones.
  A finished run enqueues its report in a durable queue; \<open>drain\<close> leases reports and sends them to
  the parent. The store is the one of internal/store on any bucket implementation \<open>B\<close>; the wire
  format is a codec; cron parsing, templates, runners, clock and the parent are arguments.
\<close>

definition batchJobsBlobKey :: bytes where "batchJobsBlobKey = ''batch_jobs''"
definition batchQueue :: bytes where "batchQueue = ''batch_reports''"
definition batchLeaseMs :: i64 where "batchLeaseMs = 60000"

subsection \<open>Run numbers\<close>

function itoa_loop :: "u64 \<Rightarrow> bytes \<Rightarrow> bytes" where
  "itoa_loop n acc = (if n = 0 then acc
     else itoa_loop (n div 10) (char_of (48 + unat (n mod 10)) # acc))"
  by pat_completeness auto
termination
proof (relation "measure (\<lambda>(n, acc). unat n)")
  fix n :: u64 and acc :: bytes
  assume "n \<noteq> 0"
  then have "0 < unat n" by (simp add: unat_gt_0)
  then show "((n div 10, char_of (48 + unat (n mod 10)) # acc), n, acc) \<in> measure (\<lambda>(n, acc). unat n)"
    by (simp add: unat_div)
qed simp

declare itoa_loop.simps [simp del]

definition itoa :: "u64 \<Rightarrow> bytes" where
  "itoa n = (if n = 0 then ''0'' else itoa_loop n [])"

text \<open>\<open>stamp\<close> is the formatted UTC time.\<close>

definition newRunID :: "'b bolt \<Rightarrow> bytes \<Rightarrow> 'b store \<Rightarrow> bytes \<times> 'b store" where
  "newRunID B stamp s = (case Incr B ''batch_run_seq'' s of
     (n, _, s') \<Rightarrow> (''run-'' @ stamp @ ''-'' @ itoa n, s'))"

subsection \<open>Configuration\<close>

record batch_worker =
  w_cron :: "(bytes \<times> JobSpec) list option"
  w_jobs :: "bytes \<rightharpoonup> JobSpec"
  w_running :: "bytes \<rightharpoonup> nat"
  w_flags :: "nat \<Rightarrow> i32"
  w_next :: nat

definition batch_Init :: batch_worker where
  "batch_Init = \<lparr>w_cron = None, w_jobs = Map.empty, w_running = Map.empty, w_flags = (\<lambda>_. 0), w_next = 0\<rparr>"

text \<open>The specification given to the cron parser.\<close>

definition cron_spec :: "JobSpec \<Rightarrow> bytes" where
  "cron_spec j = (if Timezone j \<noteq> [] then ''CRON_TZ='' @ Timezone j @ '' '' @ Schedule j else Schedule j)"

text \<open>One job of the configuration: a fresh flag, and a cron entry if it is enabled, scheduled and
  its specification parses.\<close>

definition configure_job :: "(bytes \<Rightarrow> gerror option) \<Rightarrow> JobSpec \<Rightarrow> batch_worker \<Rightarrow> batch_worker" where
  "configure_job cronErr j w =
     (let w1 = w\<lparr>w_jobs := (w_jobs w)(Id j \<mapsto> j), w_running := (w_running w)(Id j \<mapsto> w_next w),
                 w_flags := (w_flags w)(w_next w := 0), w_next := Suc (w_next w)\<rparr>
      in if \<not> job_Enabled j \<or> Schedule j = [] then w1
         else case cronErr (cron_spec j) of
           Some e \<Rightarrow> w1
         | None \<Rightarrow> w1\<lparr>w_cron := map_option (\<lambda>es. es @ [(cron_spec j, j)]) (w_cron w1)\<rparr>)"

definition configure :: "'b bolt \<Rightarrow> ConfigureBatchCommand codec \<Rightarrow> (bytes \<Rightarrow> gerror option) \<Rightarrow>
    ConfigureBatchCommand \<Rightarrow> bool \<Rightarrow> batch_worker \<Rightarrow> 'b store \<Rightarrow> batch_worker \<times> 'b store" where
  "configure B CC cronErr cmd persist w s =
     (let s' = (if persist then
                  (case Marshal CC cmd of
                     Inl e \<Rightarrow> s
                   | Inr raw \<Rightarrow> snd (PutBlob B batchJobsBlobKey raw s))
                else s);
          w0 = w\<lparr>w_cron := Some [], w_jobs := Map.empty, w_running := Map.empty\<rparr>
      in (fold (configure_job cronErr) (Jobs cmd) w0, s'))"

text \<open>The start of \<open>Run\<close>: apply the persisted configuration, if there is one that decodes.\<close>

definition batch_reload :: "'b bolt \<Rightarrow> ConfigureBatchCommand codec \<Rightarrow> (bytes \<Rightarrow> gerror option) \<Rightarrow>
    batch_worker \<Rightarrow> 'b store \<Rightarrow> batch_worker \<times> 'b store" where
  "batch_reload B CC cronErr w s = (case GetBlob B batchJobsBlobKey s of
     Some (c # cs) \<Rightarrow> (case Unmarshal CC (c # cs) of
       Some cmd \<Rightarrow> configure B CC cronErr cmd False w s
     | None \<Rightarrow> (w, s))
   | _ \<Rightarrow> (w, s))"

subsection \<open>Reports\<close>

definition report_of :: "JobSpec \<Rightarrow> bytes \<Rightarrow> RunResult \<Rightarrow> BatchReport" where
  "report_of j runID res = \<lparr>JobId = Id j, RunId = runID, rep_Status = Status res,
     ReportMd = ReportMD res, rep_Metrics = Metrics res, StartedAtMs = StartedMs res,
     EndedAtMs = EndedMs res, rep_Error = Error res, rep_ReportHubs = ReportHubs j\<rparr>"

definition enqueueReportWithID :: "'b bolt \<Rightarrow> BatchReport codec \<Rightarrow> i64 \<Rightarrow> JobSpec \<Rightarrow> bytes \<Rightarrow> RunResult \<Rightarrow>
    'b store \<Rightarrow> 'b store" where
  "enqueueReportWithID B RC now j runID res s =
     (case Marshal RC (report_of j runID res) of
        Inl e \<Rightarrow> s
      | Inr raw \<Rightarrow> (case QueueEnqueue B batchQueue (Some raw) now s of (_, _, s') \<Rightarrow> s'))"

definition enqueueReport :: "'b bolt \<Rightarrow> BatchReport codec \<Rightarrow> bytes \<Rightarrow> i64 \<Rightarrow> JobSpec \<Rightarrow> RunResult \<Rightarrow>
    'b store \<Rightarrow> 'b store" where
  "enqueueReport B RC stamp now j res s = (case newRunID B stamp s of
     (runID, s1) \<Rightarrow> enqueueReportWithID B RC now j runID res s1)"

subsection \<open>Firing a job\<close>

text \<open>What one firing sees of its surroundings; \<open>fe_stamp\<close> and \<open>fe_stamp2\<close> are the times at which
  run numbers are made, \<open>fe_now\<close> the time of the enqueue.\<close>

record 't fire_env =
  fe_runners :: "bytes \<rightharpoonup> (bytes \<Rightarrow> (bytes \<rightharpoonup> bytes) \<Rightarrow> i64 \<Rightarrow> RunResult)"
  fe_tmpl :: "'t tmpl_env"
  fe_at :: moment
  fe_stamp :: bytes
  fe_stamp2 :: bytes
  fe_now :: i64
  fe_start :: i64
  fe_end :: i64

datatype fire_start = NotConfigured | Skipped | Begun nat

text \<open>The compare-and-swap of the job's flag.\<close>

definition fire_begin :: "JobSpec \<Rightarrow> batch_worker \<Rightarrow> fire_start \<times> batch_worker" where
  "fire_begin j w = (case w_running w (Id j) of
     None \<Rightarrow> (NotConfigured, w)
   | Some a \<Rightarrow> if w_flags w a = 0 then (Begun a, w\<lparr>w_flags := (w_flags w)(a := 1)\<rparr>) else (Skipped, w))"

definition fire_skip :: "'b bolt \<Rightarrow> BatchReport codec \<Rightarrow> 't fire_env \<Rightarrow> JobSpec \<Rightarrow> 'b store \<Rightarrow> 'b store" where
  "fire_skip B RC F j s =
     (case Incr B (''batch_'' @ Id j @ ''_skipped'') s of (_, _, s1) \<Rightarrow>
        enqueueReport B RC (fe_stamp F) (fe_now F) j
          \<lparr>Status = ''skipped'', ReportMD = [], Metrics = Map.empty, Error = [],
           StartedMs = fe_start F, EndedMs = fe_end F\<rparr> s1)"

definition run_timeout :: "JobSpec \<Rightarrow> i64" where
  "run_timeout j = (let t = TimeoutMs j * 1000000 in if sint t \<le> 0 then 300000000000 else t)"

definition failed_result :: "bytes \<Rightarrow> RunResult" where
  "failed_result err = \<lparr>Status = ''failed'', ReportMD = [], Metrics = Map.empty, Error = err,
     StartedMs = 0, EndedMs = 0\<rparr>"

text \<open>The part of a run after its number was made, up to and including the enqueue of its report.\<close>

definition fire_finish :: "'b bolt \<Rightarrow> BatchReport codec \<Rightarrow> 't fire_env \<Rightarrow> JobSpec \<Rightarrow> bytes \<Rightarrow> 'b store \<Rightarrow> 'b store" where
  "fire_finish B RC F j runID s =
     (case fe_runners F (AgentKind j) of
        None \<Rightarrow> enqueueReport B RC (fe_stamp2 F) (fe_now F) j
                 (failed_result (''runner inconnu: '' @ AgentKind j)) s
      | Some run \<Rightarrow>
          (case ResolvePrompt (fe_tmpl F) (PromptTemplate j) (PromptVars j) (fe_at F) of
             Inl e \<Rightarrow> enqueueReport B RC (fe_stamp2 F) (fe_now F) j (failed_result (err_text e)) s
           | Inr prompt \<Rightarrow>
               enqueueReportWithID B RC (fe_now F) j runID (run prompt (AgentParams j) (run_timeout j)) s))"

definition fire_body :: "'b bolt \<Rightarrow> BatchReport codec \<Rightarrow> 't fire_env \<Rightarrow> JobSpec \<Rightarrow> 'b store \<Rightarrow> 'b store" where
  "fire_body B RC F j s =
     (case newRunID B (fe_stamp F) s of (runID, s1) \<Rightarrow> fire_finish B RC F j runID s1)"

definition fire_end :: "nat \<Rightarrow> batch_worker \<Rightarrow> batch_worker" where
  "fire_end a w = w\<lparr>w_flags := (w_flags w)(a := 0)\<rparr>"

text \<open>A firing that nothing interrupts.\<close>

definition fire :: "'b bolt \<Rightarrow> BatchReport codec \<Rightarrow> 't fire_env \<Rightarrow> JobSpec \<Rightarrow> batch_worker \<Rightarrow> 'b store \<Rightarrow>
    batch_worker \<times> 'b store" where
  "fire B RC F j w s = (case fire_begin j w of
     (NotConfigured, w1) \<Rightarrow> (w1, s)
   | (Skipped, w1) \<Rightarrow> (w1, fire_skip B RC F j s)
   | (Begun a, w1) \<Rightarrow> (fire_end a w1, fire_body B RC F j s))"

text \<open>\<open>RunNow\<close>: the job that is fired at once, if it is configured.\<close>

definition RunNow :: "bytes \<Rightarrow> batch_worker \<Rightarrow> bool \<times> JobSpec option" where
  "RunNow jobID w = (case w_jobs w jobID of None \<Rightarrow> (False, None) | Some j \<Rightarrow> (True, Some j))"

subsection \<open>Draining the queue\<close>

datatype drain_outcome =
    Corrupt
  | Sent BatchReport
  | Refused BatchReport i64 bool

definition payload_bytes :: "bytes option \<Rightarrow> bytes" where
  "payload_bytes p = (case p of None \<Rightarrow> [] | Some b \<Rightarrow> b)"

text \<open>
  The step for one leased item: \<open>ans it\<close> is the answer of the parent to its report (\<open>None\<close> is
  success) and the time at which a refusal is recorded. The log lists what happened to each item.
\<close>

definition drain_one :: "'b bolt \<Rightarrow> BatchReport codec \<Rightarrow> (QueueItem \<Rightarrow> gerror option \<times> i64) \<Rightarrow> QueueItem \<Rightarrow>
    'b store \<Rightarrow> drain_outcome \<times> 'b store" where
  "drain_one B RC ans it s =
     (case Unmarshal RC (payload_bytes (Payload it)) of
        None \<Rightarrow> (Corrupt, snd (QueueAck B batchQueue (ID it) s))
      | Some rep \<Rightarrow> (case fst (ans it) of
          Some e \<Rightarrow> (case QueueNack B batchQueue (ID it) 15000 (snd (ans it)) 20 s of
            ((att, kept), _, s') \<Rightarrow> (Refused rep att kept, s'))
        | None \<Rightarrow> (case QueueAck B batchQueue (ID it) s of
            (_, s1) \<Rightarrow> (case Incr B ''batch_reports_sent'' s1 of (_, _, s2) \<Rightarrow> (Sent rep, s2)))))"

fun drain_items :: "'b bolt \<Rightarrow> BatchReport codec \<Rightarrow> (QueueItem \<Rightarrow> gerror option \<times> i64) \<Rightarrow> QueueItem list \<Rightarrow>
    'b store \<Rightarrow> (u64 \<times> drain_outcome) list \<times> 'b store" where
  "drain_items B RC ans [] s = ([], s)"
| "drain_items B RC ans (it # its) s =
     (case drain_one B RC ans it s of (oc, s') \<Rightarrow>
        case drain_items B RC ans its s' of (log, t) \<Rightarrow> ((ID it, oc) # log, t))"

definition drain_tick :: "'b bolt \<Rightarrow> BatchReport codec \<Rightarrow> i64 \<Rightarrow> (QueueItem \<Rightarrow> gerror option \<times> i64) \<Rightarrow>
    'b store \<Rightarrow> (u64 \<times> drain_outcome) list \<times> 'b store" where
  "drain_tick B RC now ans s = (case QueueLease B batchQueue 5 batchLeaseMs now s of
     (items, err, s1) \<Rightarrow>
       if err \<noteq> None \<or> length items = 0 then ([], s1) else drain_items B RC ans items s1)"

end
