(* ===== verification/Steps.thy ===== *)
theory Steps
  imports Main
begin

section \<open>Runs of step relations\<close>

text \<open>
  The goroutines of the program are step relations with labels; \<open>steps r s ls t\<close> is a run of \<open>r\<close> from \<open>s\<close> to
  \<open>t\<close> with the labels \<open>ls\<close>. Two contracts are shared by the components that consist of goroutines: an invariant
  kept by every step, and a system that drains, that is, one that can neither run for ever nor stop early.
\<close>

inductive steps :: "('s \<Rightarrow> 'l \<Rightarrow> 's \<Rightarrow> bool) \<Rightarrow> 's \<Rightarrow> 'l list \<Rightarrow> 's \<Rightarrow> bool" for r where
  Nil: "steps r s [] s"
| Step: "r s l s1 \<Longrightarrow> steps r s1 ls t \<Longrightarrow> steps r s (l # ls) t"

inductive_cases steps_NilE: "steps r s [] t"
inductive_cases steps_ConsE: "steps r s (l # ls) t"

lemma steps_append: "steps r s ls t \<Longrightarrow> steps r t ls' u \<Longrightarrow> steps r s (ls @ ls') u"
  by (induction rule: steps.induct) (auto intro: steps.Step)

lemma steps_snoc: "steps r s ls t \<Longrightarrow> r t l u \<Longrightarrow> steps r s (ls @ [l]) u"
  by (erule steps_append) (blast intro: steps.intros)

lemma steps_mono: "steps r s ls t \<Longrightarrow> (\<And>s l t. r s l t \<Longrightarrow> r' s l t) \<Longrightarrow> steps r' s ls t"
  by (induction rule: steps.induct) (auto intro: steps.intros)

text \<open>Induction from the end of a run, for invariants that speak of the labels seen so far.\<close>

lemma steps_snocE:
  assumes "steps r s (ls @ [l]) u"
  obtains t where "steps r s ls t" "r t l u"
  using assms by (induction ls arbitrary: s) (auto elim!: steps_ConsE steps_NilE intro: steps.intros)

lemma steps_snoc_induct [consumes 1, case_names Nil Snoc]:
  assumes "steps r s ls t" and "P [] s"
    and "\<And>ls t l u. steps r s ls t \<Longrightarrow> P ls t \<Longrightarrow> r t l u \<Longrightarrow> P (ls @ [l]) u"
  shows "P ls t"
  using assms(1)
proof (induction ls arbitrary: t rule: rev_induct)
  case Nil
  then show ?case using assms(2) by (auto elim: steps_NilE)
next
  case (snoc l ls)
  then show ?case using assms(3) by (metis steps_snocE)
qed

subsection \<open>Invariants\<close>

locale invariant_system =
  fixes r :: "'s \<Rightarrow> 'l \<Rightarrow> 's \<Rightarrow> bool" and inv :: "'s \<Rightarrow> bool"
  assumes inv_step: "r s l t \<Longrightarrow> inv s \<Longrightarrow> inv t"
begin

lemma inv_steps: "steps r s ls t \<Longrightarrow> inv s \<Longrightarrow> inv t"
  by (induction rule: steps.induct) (auto intro: inv_step)

end

subsection \<open>Draining\<close>

text \<open>While a state is not final some step is possible, and every step brings the end nearer.\<close>

locale draining = invariant_system +
  fixes rank :: "'s \<Rightarrow> nat" and final :: "'s \<Rightarrow> bool"
  assumes rank_step: "r s l t \<Longrightarrow> inv s \<Longrightarrow> rank t < rank s"
    and progress: "inv s \<Longrightarrow> \<not> final s \<Longrightarrow> \<exists>l t. r s l t"
begin

lemma bounded: "steps r s ls t \<Longrightarrow> inv s \<Longrightarrow> rank t + length ls \<le> rank s"
proof (induction rule: steps.induct)
  case (Step s l s1 ls t)
  then show ?case using rank_step [OF Step.hyps(1)] inv_step [OF Step.hyps(1)] by fastforce
qed simp

lemma maximal_final: "steps r s ls t \<Longrightarrow> inv s \<Longrightarrow> (\<And>l u. \<not> r t l u) \<Longrightarrow> final t"
  using inv_steps progress by blast

lemma reaches_final: "inv s \<Longrightarrow> \<exists>ls t. steps r s ls t \<and> final t"
proof (induction "rank s" arbitrary: s rule: less_induct)
  case less
  show ?case
  proof (cases "final s")
    case False
    then obtain l t where t: "r s l t" using progress less.prems by blast
    then obtain ls u where "steps r t ls u" "final u"
      using less.hyps rank_step inv_step less.prems by blast
    then show ?thesis using t steps.Step by meson
  qed (blast intro: steps.Nil)
qed

end

end
