(* ===== verification/BatchSystem.thy ===== *)
theory BatchSystem
  imports BatchContract Steps
begin

section \<open>The batch worker at work: interleavings and crashes\<close>

text \<open>
  The goroutines of the batch role as a step relation: the main loop applies configurations, cron
  entries fire (the start and the end of a run are separate steps, other steps come between),
  the drain goroutine leases a batch of reports and settles them one by one, and the process may
  crash and restart at any moment, losing everything but the store. Every step is one of the
  operations of batch.go; the answers of the environment are chosen by the step.
\<close>

record run =
  run_job :: JobSpec
  run_flag :: nat
  run_id :: bytes

record 'b bsys =
  sys_w :: batch_worker
  sys_active :: "run list"
  sys_pending :: "QueueItem list"
  sys_store :: "'b store"

text \<open>The label of a step tells what became of a report.\<close>

datatype blabel =
    LConfigure ConfigureBatchCommand
  | LSkip JobSpec
  | LBegin JobSpec
  | LEnd JobSpec
  | LLease
  | LItem u64 "QueueItem \<Rightarrow> gerror option \<times> i64" drain_outcome
  | LCrash

inductive batch_step :: "'b bolt \<Rightarrow> ConfigureBatchCommand codec \<Rightarrow> BatchReport codec \<Rightarrow>
    (bytes \<Rightarrow> gerror option) \<Rightarrow> 'b bsys \<Rightarrow> blabel \<Rightarrow> 'b bsys \<Rightarrow> bool"
  for B CC RC cronErr where
  Configure: "configure B CC cronErr cmd True (sys_w s) (sys_store s) = (w', st') \<Longrightarrow>
    batch_step B CC RC cronErr s (LConfigure cmd) (s\<lparr>sys_w := w', sys_store := st'\<rparr>)"
| Skip: "fire_begin j (sys_w s) = (Skipped, w') \<Longrightarrow>
    batch_step B CC RC cronErr s (LSkip j)
      (s\<lparr>sys_w := w', sys_store := fire_skip B RC (F :: bytes fire_env) j (sys_store s)\<rparr>)"
| Begin: "fire_begin j (sys_w s) = (Begun a, w') \<Longrightarrow> newRunID B stamp (sys_store s) = (rid, st') \<Longrightarrow>
    batch_step B CC RC cronErr s (LBegin j)
      (s\<lparr>sys_w := w', sys_store := st',
         sys_active := sys_active s @ [\<lparr>run_job = j, run_flag = a, run_id = rid\<rparr>]\<rparr>)"
| End: "sys_active s = pre @ r # post \<Longrightarrow>
    batch_step B CC RC cronErr s (LEnd (run_job r))
      (s\<lparr>sys_w := fire_end (run_flag r) (sys_w s), sys_active := pre @ post,
         sys_store := fire_finish B RC (F :: bytes fire_env) (run_job r) (run_id r) (sys_store s)\<rparr>)"
| Lease: "sys_pending s = [] \<Longrightarrow>
    QueueLease B batchQueue 5 batchLeaseMs now (sys_store s) = (items, err, st') \<Longrightarrow>
    batch_step B CC RC cronErr s LLease
      (s\<lparr>sys_pending := (if err \<noteq> None then [] else items), sys_store := st'\<rparr>)"
| Item: "sys_pending s = it # its \<Longrightarrow> drain_one B RC ans it (sys_store s) = (oc, st') \<Longrightarrow>
    batch_step B CC RC cronErr s (LItem (ID it) ans oc) (s\<lparr>sys_pending := its, sys_store := st'\<rparr>)"
| Crash: "batch_reload B CC cronErr batch_Init (sys_store s) = (w', st') \<Longrightarrow>
    batch_step B CC RC cronErr s LCrash
      (s\<lparr>sys_w := w', sys_active := [], sys_pending := [], sys_store := st'\<rparr>)"

abbreviation batch_run :: "'b bolt \<Rightarrow> ConfigureBatchCommand codec \<Rightarrow> BatchReport codec \<Rightarrow>
    (bytes \<Rightarrow> gerror option) \<Rightarrow> 'b bsys \<Rightarrow> blabel list \<Rightarrow> 'b bsys \<Rightarrow> bool" where
  "batch_run B CC RC cronErr \<equiv> steps (batch_step B CC RC cronErr)"

lemmas batch_run_Nil = steps.Nil [of "batch_step B CC RC cronErr" for B CC RC cronErr]
  and batch_run_Step = steps.Step [of "batch_step B CC RC cronErr" for B CC RC cronErr]

subsection \<open>Flags exclude overlapping runs\<close>

text \<open>
  A flag is set exactly while one run holds it; the flags of the configured jobs are pairwise
  different, and a run that holds the flag of a configured job is a run of that job.
\<close>

definition flags_ok :: "batch_worker \<Rightarrow> run list \<Rightarrow> bool" where
  "flags_ok w act \<longleftrightarrow> distinct (map run_flag act)
     \<and> (\<forall>a. w_flags w a = (if a \<in> run_flag ` set act then 1 else 0))
     \<and> (\<forall>r\<in>set act. run_flag r < w_next w)
     \<and> (\<forall>i a. w_running w i = Some a \<longrightarrow> a < w_next w
          \<and> (\<forall>i'. w_running w i' = Some a \<longrightarrow> i' = i)
          \<and> (\<forall>r\<in>set act. run_flag r = a \<longrightarrow> Id (run_job r) = i))"

lemma flags_ok_Init: "flags_ok batch_Init []"
  by (simp add: flags_ok_def batch_Init_def)

lemma configure_job_simps:
  "w_running (configure_job cronErr j w) = (w_running w)(Id j \<mapsto> w_next w)"
  "w_flags (configure_job cronErr j w) = (w_flags w)(w_next w := 0)"
  "w_next (configure_job cronErr j w) = Suc (w_next w)"
  by (simp_all add: configure_job_def Let_def split: option.split)

lemma flags_ok_configure_job: "flags_ok w act \<Longrightarrow> flags_ok (configure_job cronErr j w) act"
  unfolding flags_ok_def configure_job_simps
  by (auto simp: less_Suc_eq)

lemma flags_ok_configure_fold:
  "flags_ok w act \<Longrightarrow> flags_ok (fold (configure_job cronErr) js w) act"
  by (induction js arbitrary: w) (simp_all add: flags_ok_configure_job)

lemma flags_ok_configure:
  "flags_ok w act \<Longrightarrow> configure B CC cronErr cmd p w s = (w', s') \<Longrightarrow> flags_ok w' act"
proof -
  assume "flags_ok w act" and c: "configure B CC cronErr cmd p w s = (w', s')"
  then have "flags_ok (w\<lparr>w_cron := Some [], w_jobs := Map.empty, w_running := Map.empty\<rparr>) act"
    by (simp add: flags_ok_def)
  then show ?thesis using c by (auto simp: configure_def flags_ok_configure_fold)
qed

lemma flags_ok_reload:
  "flags_ok w act \<Longrightarrow> batch_reload B CC cronErr w s = (w', s') \<Longrightarrow> flags_ok w' act"
  by (auto simp: batch_reload_def flags_ok_configure split: option.splits list.splits)

lemma flags_ok_begin:
  assumes "flags_ok w act" and "fire_begin j w = (Begun a, w')"
  shows "flags_ok w' (act @ [\<lparr>run_job = j, run_flag = a, run_id = rid\<rparr>])"
proof -
  have a: "w_running w (Id j) = Some a" "w_flags w a = 0" "w' = w\<lparr>w_flags := (w_flags w)(a := 1)\<rparr>"
    using assms(2) by (auto simp: fire_begin_def split: option.splits if_splits)
  then have "a \<notin> run_flag ` set act" using assms(1) by (auto simp: flags_ok_def)
  then show ?thesis using assms(1) a unfolding flags_ok_def by auto
qed

lemma flags_ok_end:
  assumes "flags_ok w (pre @ r # post)"
  shows "flags_ok (fire_end (run_flag r) w) (pre @ post)"
  using assms unfolding flags_ok_def fire_end_def by (auto simp: fun_eq_iff)

lemma fire_begin_same: "fire_begin j w = (Skipped, w') \<Longrightarrow> w' = w"
  by (auto simp: fire_begin_def split: option.splits if_splits)

lemma flags_ok_step:
  "batch_step B CC RC cronErr s l t \<Longrightarrow> flags_ok (sys_w s) (sys_active s) \<Longrightarrow>
   flags_ok (sys_w t) (sys_active t)"
proof (induction rule: batch_step.induct)
  case (Crash s w' st')
  then show ?case using flags_ok_reload [OF flags_ok_Init Crash(1)] by simp
qed (auto dest: flags_ok_configure flags_ok_begin fire_begin_same flags_ok_end)

interpretation flags: invariant_system "batch_step B CC RC cronErr" "\<lambda>s. flags_ok (sys_w s) (sys_active s)"
  for B CC RC cronErr
  by unfold_locales (rule flags_ok_step)

lemma flags_ok_run:
  "batch_run B CC RC cronErr s ls t \<Longrightarrow> flags_ok (sys_w s) (sys_active s) \<Longrightarrow>
   flags_ok (sys_w t) (sys_active t)"
  by (rule flags.inv_steps)

text \<open>Runs of job \<open>i\<close> that hold the flag of the present configuration.\<close>

definition current_runs :: "'b bsys \<Rightarrow> bytes \<Rightarrow> run list" where
  "current_runs s i = filter (\<lambda>r. w_running (sys_w s) i = Some (run_flag r)) (sys_active s)"

lemma distinct_at_most_one:
  "distinct (map f xs) \<Longrightarrow> length (filter (\<lambda>x. y = Some (f x)) xs) \<le> 1"
  by (induction xs) (auto simp: filter_empty_conv image_iff)

subsection \<open>The queue of reports through all of it\<close>

abbreviation reports :: "'b bolt \<Rightarrow> 'b store \<Rightarrow> aqueue" where
  "reports B s \<equiv> queue_view B s batchQueue"

text \<open>How the queue may change in a step: elements keep their payload, new ones get new numbers.\<close>

definition evolves :: "aqueue \<Rightarrow> aqueue \<Rightarrow> bool" where
  "evolves a a' \<longleftrightarrow> aq_seq a \<le> aq_seq a'
     \<and> (\<forall>x\<in>set (aq_items a'). aq_seq a < ID x
          \<or> (\<exists>y\<in>set (aq_items a). ID y = ID x \<and> Payload y = Payload x))"

lemma evolves_refl: "evolves a a"
  by (auto simp: evolves_def)

lemma evolves_step:
  assumes "aq_step op a = (r, a')" and "aq_seq a \<noteq> - 1"
  shows "evolves a a'"
proof (cases op)
  case (QEnq p now)
  then show ?thesis using assms word_less_succ [OF assms(2)]
    by (auto simp: evolves_def aq_enqueue_def intro: less_imp_le)
next
  case (QLease mx l now)
  then show ?thesis using assms by (auto simp: evolves_def aq_lease_def) blast+
next
  case (QAck i)
  then show ?thesis using assms by (auto simp: evolves_def aq_ack_def)
next
  case (QNack i b now m)
  then show ?thesis using assms
    by (auto simp: evolves_def aq_nack_def aq_ack_def split: option.splits if_splits) blast+
qed

text \<open>Steps that lose no report.\<close>

definition grows :: "'b bolt \<Rightarrow> 'b store \<Rightarrow> 'b store \<Rightarrow> bool" where
  "grows B s s' \<longleftrightarrow> queues_ok B s' \<and> evolves (reports B s) (reports B s')
     \<and> unat (aq_seq (reports B s')) \<le> Suc (unat (aq_seq (reports B s)))
     \<and> (\<forall>i p. holds_item i p (reports B s) \<longrightarrow> holds_item i p (reports B s'))"

lemma grows_same:
  "queues_ok B s \<Longrightarrow> queue_view B s' = queue_view B s \<and> queues_ok B s' = queues_ok B s \<Longrightarrow> grows B s s'"
  by (simp add: grows_def evolves_refl)

lemma grows_cong_left:
  "queue_view B s1 = queue_view B s \<and> queues_ok B s1 = queues_ok B s \<Longrightarrow> grows B s1 s' = grows B s s'"
  by (simp add: grows_def)

context bolt_bucket
begin

lemma grows_enqueue:
  assumes "queues_ok B s" and "aq_seq (reports B s) \<noteq> - 1"
    and "QueueEnqueue B batchQueue pl now s = (n, e, s')"
  shows "grows B s s'"
proof (cases e)
  case None
  then have r: "queues_ok B s'" "reports B s' = snd (aq_enqueue pl now (reports B s))"
    using QueueEnqueue_refines [of s batchQueue pl now n s'] assms by auto
  have st: "aq_step (QEnq pl now) (reports B s) = (REnq (fst (aq_enqueue pl now (reports B s))) None, reports B s')"
    using r by simp
  have "aq_seq (reports B s') = aq_seq (reports B s) + 1" using aq_seq_step [OF st] by simp
  then show ?thesis
    using r(1) evolves_step [OF st assms(2)] holds_item_step [OF st] word_succ_unat [OF assms(2)]
    by (auto simp: grows_def)
next
  case (Some x)
  then show ?thesis using QueueEnqueue_fail [OF assms(1), of batchQueue pl now n x s'] assms(3,1)
    by (auto intro: grows_same)
qed

lemma grows_enqueueReportWithID:
  assumes "queues_ok B s" and "aq_seq (reports B s) \<noteq> - 1"
  shows "grows B s (enqueueReportWithID B RC now j rid res s)"
  using grows_enqueue [OF assms] grows_same [OF assms(1), of s] assms(1)
  by (auto simp: enqueueReportWithID_def split: sum.split prod.split)

lemma grows_enqueueReport:
  assumes "queues_ok B s" and "aq_seq (reports B s) \<noteq> - 1"
  shows "grows B s (enqueueReport B RC stamp now j res s)"
proof -
  obtain rid s1 where n: "newRunID B stamp s = (rid, s1)" by (cases "newRunID B stamp s")
  note f = newRunID_queues [OF n]
  then show ?thesis
    using grows_enqueueReportWithID [of s1 RC now j rid res] assms grows_cong_left [OF f]
    by (simp add: enqueueReport_def n)
qed

lemma grows_fire_finish:
  assumes "queues_ok B s" and "aq_seq (reports B s) \<noteq> - 1"
  shows "grows B s (fire_finish B RC F j rid s)"
  using grows_enqueueReport [OF assms] grows_enqueueReportWithID [OF assms]
  by (simp add: fire_finish_def split: option.split sum.split)

lemma grows_fire_skip:
  assumes "queues_ok B s" and "aq_seq (reports B s) \<noteq> - 1"
  shows "grows B s (fire_skip B RC F j s)"
proof -
  obtain v e s1 where n: "Incr B (''batch_'' @ Id j @ ''_skipped'') s = (v, e, s1)"
    by (cases "Incr B (''batch_'' @ Id j @ ''_skipped'') s") auto
  note f = Incr_queues [OF n]
  then show ?thesis using grows_enqueueReport [of s1] assms grows_cong_left [OF f]
    by (simp add: fire_skip_def n [simplified])
qed

lemma configure_queues:
  "configure B CC cronErr cmd p w s = (w', s') \<Longrightarrow>
   queue_view B s' = queue_view B s \<and> queues_ok B s' = queues_ok B s"
  using PutBlob_queues [of B batchJobsBlobKey _ s "fst (PutBlob B batchJobsBlobKey r s)" "snd (PutBlob B batchJobsBlobKey r s)" for r]
  by (auto simp: configure_def split: sum.splits if_splits)

lemma reload_queues:
  "batch_reload B CC cronErr w s = (w', s') \<Longrightarrow>
   queue_view B s' = queue_view B s \<and> queues_ok B s' = queues_ok B s"
  by (auto simp: batch_reload_def configure_queues split: option.splits list.splits)

lemma lease_evolves:
  assumes "queues_ok B s" and "QueueLease B q mx l now s = (out, e, s')" and "aq_seq (queue_view B s q) \<noteq> - 1"
  shows "queues_ok B s' \<and> evolves (queue_view B s q) (queue_view B s' q)
    \<and> aq_seq (queue_view B s' q) = aq_seq (queue_view B s q)
    \<and> (holds_item i p (queue_view B s q) \<longrightarrow> holds_item i p (queue_view B s' q))"
proof (cases e)
  case None
  then have r: "queues_ok B s'" "queue_view B s' q = snd (aq_lease mx l now (queue_view B s q))"
    using QueueLease_refines [of s q mx l now out s'] assms by auto
  have st: "aq_step (QLease mx l now) (queue_view B s q) =
      (RLease (fst (aq_lease mx l now (queue_view B s q))) None, queue_view B s' q)"
    using r by simp
  show ?thesis using r(1) evolves_step [OF st assms(3)] aq_seq_step [OF st] holds_item_step [OF st] by auto
next
  case (Some x)
  then show ?thesis using QueueLease_fail [of s q mx l now out x s'] assms by (auto simp: evolves_refl)
qed

lemma ack_evolves:
  assumes "queues_ok B s" and "QueueAck B q j s = (e, s')" and "aq_seq (queue_view B s q) \<noteq> - 1"
  shows "evolves (queue_view B s q) (queue_view B s' q)"
proof (cases e)
  case None
  then show ?thesis using QueueAck_refines [of s q j s'] assms
      evolves_step [of "QAck j" "queue_view B s q" "RAck None"] by auto
next
  case (Some x)
  then show ?thesis using QueueAck_fail [of s q j x s'] assms by (auto simp: evolves_refl)
qed

lemma nack_evolves:
  assumes "queues_ok B s" and "QueueNack B q j b now m s = (r, e, s')" and "aq_seq (queue_view B s q) \<noteq> - 1"
  shows "evolves (queue_view B s q) (queue_view B s' q)"
proof (cases e)
  case None
  then have "queue_view B s' q = snd (aq_nack j b now m (queue_view B s q))"
    using QueueNack_refines [of s q j b now m r s'] assms by auto
  moreover obtain n kept a' where "aq_nack j b now m (queue_view B s q) = ((n, kept), a')"
    by (metis prod.exhaust)
  ultimately show ?thesis
    using evolves_step [of "QNack j b now m" "queue_view B s q" "RNack n kept None", OF _ assms(3)] by simp
next
  case (Some x)
  then show ?thesis using QueueNack_fail [of s q j b now m r x s'] assms by (auto simp: evolves_refl)
qed

lemma drain_one_evolves:
  assumes "queues_ok B s" and "drain_one B RC ans it s = (oc, s')" and "aq_seq (reports B s) \<noteq> - 1"
  shows "evolves (reports B s) (reports B s')"
proof -
  obtain e s1 where a: "QueueAck B batchQueue (ID it) s = (e, s1)" by (cases "QueueAck B batchQueue (ID it) s")
  obtain r e' s2 where n: "QueueNack B batchQueue (ID it) 15000 (snd (ans it)) 20 s = (r, e', s2)"
    by (cases "QueueNack B batchQueue (ID it) 15000 (snd (ans it)) 20 s") auto
  from ack_evolves [OF assms(1) a assms(3)] nack_evolves [OF assms(1) n assms(3)] assms(2) a n
  show ?thesis
    by (auto simp: drain_one_def dest!: Incr_queues split: option.splits prod.splits)
qed

end

subsection \<open>The invariant of the system\<close>

definition pending_ok :: "'b bolt \<Rightarrow> QueueItem list \<Rightarrow> 'b store \<Rightarrow> bool" where
  "pending_ok B its s \<longleftrightarrow> (\<forall>it\<in>set its. ID it \<le> aq_seq (reports B s)
     \<and> (\<forall>x\<in>set (aq_items (reports B s)). ID x = ID it \<longrightarrow> Payload x = Payload it))"

definition sys_ok :: "'b bolt \<Rightarrow> 'b bsys \<Rightarrow> bool" where
  "sys_ok B s \<longleftrightarrow> queues_ok B (sys_store s) \<and> flags_ok (sys_w s) (sys_active s)
     \<and> pending_ok B (sys_pending s) (sys_store s)"

lemma pending_ok_evolves:
  assumes "pending_ok B its s" and "evolves (reports B s) (reports B s')"
  shows "pending_ok B its s'"
proof -
  have "ID it \<le> aq_seq (reports B s') \<and>
      (\<forall>x\<in>set (aq_items (reports B s')). ID x = ID it \<longrightarrow> Payload x = Payload it)"
    if it: "it \<in> set its" for it
  proof (intro conjI ballI impI)
    show "ID it \<le> aq_seq (reports B s')"
      using assms it by (auto simp: pending_ok_def evolves_def intro: order_trans)
    fix x
    assume x: "x \<in> set (aq_items (reports B s'))" "ID x = ID it"
    have "\<not> aq_seq (reports B s) < ID x" using assms(1) it x(2) by (auto simp: pending_ok_def)
    then obtain y where "y \<in> set (aq_items (reports B s))" "ID y = ID x" "Payload y = Payload x"
      using assms(2) x(1) by (auto simp: evolves_def)
    then show "Payload x = Payload it" using assms(1) it x(2) by (auto simp: pending_ok_def)
  qed
  then show ?thesis by (simp add: pending_ok_def)
qed

text \<open>What a label tells about the report with number \<open>i\<close> and payload \<open>p\<close>.\<close>

fun settled_by :: "BatchReport codec \<Rightarrow> u64 \<Rightarrow> bytes option \<Rightarrow> blabel \<Rightarrow> bool" where
  "settled_by RC i p (LItem j ans oc) = (j = i \<and> settles RC ans p oc)"
| "settled_by RC i p l = False"

context bolt_bucket
begin

lemma lease_pending:
  assumes "queues_ok B s" and "QueueLease B batchQueue mx l now s = (out, None, s')"
  shows "pending_ok B out s'"
proof -
  let ?a = "reports B s"
  note r = QueueLease_refines [OF assms]
  have out: "out = map (leased l now) (aq_select mx now (aq_items ?a))" using r by (simp add: aq_lease_def)
  have a': "reports B s' = snd (aq_lease mx l now ?a)" using r by simp
  have ok: "aq_ok (reports B s')" using queue_view_ok r by blast
  have "it \<in> set (aq_items (reports B s'))" if "it \<in> set out" for it
    using that aq_select_due unfolding out a' by (fastforce simp: aq_lease_def)
  then show ?thesis
    using ok aq_ok_distinct [OF ok] unfolding pending_ok_def aq_ok_def
    by (metis distinct_map inj_on_eq_iff)
qed

text \<open>The settlement of one report.\<close>

lemma item_step:
  assumes q: "queues_ok B st" and pd: "pending_ok B (it # its) st" and seq: "aq_seq (reports B st) \<noteq> - 1"
    and d: "drain_one B RC ans it st = (oc, st')"
  shows "queues_ok B st' \<and> aq_seq (reports B st') = aq_seq (reports B st) \<and> pending_ok B its st'
    \<and> (holds_item i p (reports B st) \<longrightarrow> holds_item i p (reports B st') \<or> ID it = i \<and> settles RC ans p oc)"
proof -
  have k: "Payload it = p" if "holds_item i p (reports B st)" "ID it = i"
    using pd that by (auto simp: pending_ok_def holds_item_def)
  have "pending_ok B its st'"
    using pending_ok_evolves [OF pd drain_one_evolves [OF q d seq]] by (simp add: pending_ok_def)
  then show ?thesis
    using drain_one_keeps [OF q d, of i p] drain_one_keeps [OF q d, of "ID it" "Payload it"] k
    by (cases "holds_item i p (reports B st)") auto
qed

text \<open>Every step keeps the invariant and loses a report only when it settles it.\<close>

lemma sys_step:
  assumes "batch_step B CC RC cronErr s l t" and "sys_ok B s" and "aq_seq (reports B (sys_store s)) \<noteq> - 1"
  shows "sys_ok B t
    \<and> unat (aq_seq (reports B (sys_store t))) \<le> Suc (unat (aq_seq (reports B (sys_store s))))
    \<and> (holds_item i p (reports B (sys_store s)) \<longrightarrow>
        holds_item i p (reports B (sys_store t)) \<or> settled_by RC i p l)"
proof -
  have fl: "flags_ok (sys_w t) (sys_active t)"
    using flags_ok_step [OF assms(1)] assms(2) by (simp add: sys_ok_def)
  have q: "queues_ok B (sys_store s)" and pd: "pending_ok B (sys_pending s) (sys_store s)"
    using assms(2) by (simp_all add: sys_ok_def)
  have grow: ?thesis if "grows B (sys_store s) (sys_store t)" "sys_pending t = sys_pending s"
    using that fl pending_ok_evolves [OF pd] by (auto simp: sys_ok_def grows_def)
  from assms(1) show ?thesis
  proof cases
    case (Configure cmd w' st')
    then show ?thesis using grow grows_same [OF q configure_queues] by auto
  next
    case (Skip j w' F)
    then show ?thesis using grow grows_fire_skip [OF q assms(3)] by auto
  next
    case (Begin j a w' stamp rid st')
    then show ?thesis using grow grows_same [OF q newRunID_queues] by auto
  next
    case (End pre r post F)
    then show ?thesis using grow grows_fire_finish [OF q assms(3)] by auto
  next
    case (Lease now items err st')
    note e = lease_evolves [OF q Lease(4) assms(3), of i p]
    have "pending_ok B (sys_pending t) st'"
      using lease_pending [OF q, of 5 batchLeaseMs now items st'] Lease by (cases err) (auto simp: pending_ok_def)
    then show ?thesis using e fl Lease by (auto simp: sys_ok_def)
  next
    case (Item it its ans oc st')
    then show ?thesis using item_step [OF q pd [unfolded Item(3)] assms(3) Item(4), of i p] fl by (auto simp: sys_ok_def)
  next
    case (Crash w' st')
    note r = reload_queues [OF Crash(3)]
    then show ?thesis using q fl Crash by (auto simp: sys_ok_def pending_ok_def)
  qed
qed

lemma sys_run:
  assumes "batch_run B CC RC cronErr s ls t" and "sys_ok B s"
    and "unat (aq_seq (reports B (sys_store s))) + length ls < 2 ^ 64"
  shows "sys_ok B t \<and> (holds_item i p (reports B (sys_store s)) \<longrightarrow>
    holds_item i p (reports B (sys_store t)) \<or> list_ex (settled_by RC i p) ls)"
  using assms
proof (induction rule: steps.induct)
  case (Step s l s1 ls t)
  have ne: "aq_seq (reports B (sys_store s)) \<noteq> - 1" using Step.prems(2) max_word_64 by auto
  note st = sys_step [OF Step.hyps(1) Step.prems(1) ne, of i p]
  show ?case using Step.IH st Step.prems(2) by auto
qed simp

end

subsection \<open>Properties\<close>

text \<open>No report is lost. Whatever the goroutines of the batch role do (configurations, firings,
  runs ending, leases, uploads) and however often the process crashes and restarts, a report in the
  durable queue stays in it, unless one step settled it: the parent answered it without an error, it was refused by
  the parent for at least the twentieth time, or it does not decode.\<close>

theorem reports_survive:
  assumes "bolt_bucket B" and "sys_ok B s" and "batch_run B CC RC cronErr s ls t"
    and "unat (aq_seq (reports B (sys_store s))) + length ls < 2 ^ 64"
    and "holds_item i p (reports B (sys_store s))"
  shows "holds_item i p (reports B (sys_store t)) \<or> list_ex (settled_by RC i p) ls"
  using bolt_bucket.sys_run [OF assms(1,3,2,4)] assms(5) by blast

text \<open>C7: No overlap within a configuration. At every reachable point at most one run of a job
  holds the flag that the present configuration gave the job, and such a run makes every firing of
  the job skip.\<close>

theorem no_overlap:
  assumes "flags_ok (sys_w s) (sys_active s)" and "batch_run B CC RC cronErr s ls t"
  shows "length (current_runs t i) \<le> 1
    \<and> (\<forall>r j. r \<in> set (current_runs t (Id j)) \<longrightarrow> Id (run_job r) = Id j \<and> fire_begin j (sys_w t) = (Skipped, sys_w t))"
proof -
  have f: "flags_ok (sys_w t) (sys_active t)" by (rule flags_ok_run [OF assms(2,1)])
  have "length (current_runs t i) \<le> 1"
    using distinct_at_most_one [of run_flag "sys_active t"] f by (simp add: current_runs_def flags_ok_def)
  moreover have "Id (run_job r) = Id j \<and> fire_begin j (sys_w t) = (Skipped, sys_w t)"
    if "r \<in> set (current_runs t (Id j))" for r j
    using that f by (auto simp: current_runs_def flags_ok_def fire_begin_def)
  ultimately show ?thesis by blast
qed

text \<open>A concrete system: one enabled job, no wire format beyond its configuration.\<close>

definition demo_job :: JobSpec where
  "demo_job = \<lparr>Id = ''j'', job_Enabled = True, Schedule = ''0 7 * * *'', Timezone = [], AgentKind = ''custom_exec'',
     AgentParams = Map.empty, PromptTemplate = [], PromptVars = Map.empty, TimeoutMs = 0, Overlap = [],
     MaxAttempts = 0, BackoffMs = 0, ReportHubs = []\<rparr>"

definition demo_cmd :: ConfigureBatchCommand where
  "demo_cmd = \<lparr>Jobs = [demo_job]\<rparr>"

definition demo_report :: BatchReport where
  "demo_report = \<lparr>JobId = ''j'', RunId = ''run-1'', rep_Status = ''success'', ReportMd = [], rep_Metrics = Map.empty,
     StartedAtMs = 0, EndedAtMs = 0, rep_Error = [], rep_ReportHubs = []\<rparr>"

definition demo_sys :: "log_bucket bsys" where
  "demo_sys = \<lparr>sys_w = batch_Init, sys_active = [], sys_pending = [], sys_store = empty_store\<rparr>"

lemma demo_sys_ok: "sys_ok ref_bolt demo_sys"
  by (simp add: sys_ok_def demo_sys_def flags_ok_Init pending_ok_def)

lemma configure_new_flag:
  "w_running (fold (configure_job cronErr) js w) i = Some a \<Longrightarrow> w_running w i = Some a \<or> w_next w \<le> a"
proof (induction js arbitrary: w)
  case (Cons j js)
  from Cons.IH [of "configure_job cronErr j w"] Cons.prems show ?case
    by (auto simp: configure_job_simps split: if_splits)
qed simp

lemma configure_fresh:
  assumes "flags_ok w act" and "configure B CC cronErr cmd p w s = (w', s')" and "j \<in> set (Jobs cmd)"
  shows "\<exists>a. w_running w' (Id j) = Some a \<and> w_flags w' a = 0"
proof -
  let ?w = "w\<lparr>w_cron := Some [], w_jobs := Map.empty, w_running := Map.empty\<rparr>"
  have w': "w' = fold (configure_job cronErr) (Jobs cmd) ?w" using assms(2) by (auto simp: configure_def)
  have "Id j \<in> dom (w_running w')" using assms(3) by (auto simp: w' configure_running_dom)
  then obtain a where a: "w_running w' (Id j) = Some a" by blast
  then have "w_next w \<le> a" using configure_new_flag [of cronErr "Jobs cmd" ?w "Id j" a] by (simp add: w')
  then have "a \<notin> run_flag ` set act" using assms(1) by (auto simp: flags_ok_def)
  then show ?thesis using a flags_ok_configure [OF assms(1,2)] by (auto simp: flags_ok_def)
qed

text \<open>A configuration that contains a job can be followed by the start of a run of that job.\<close>

lemma configure_then_begin:
  assumes "flags_ok (sys_w s) (sys_active s)" and "j \<in> set (Jobs cmd)"
  shows "\<exists>t r. batch_run B CC RC cronErr s [LConfigure cmd, LBegin j] t
    \<and> sys_active t = sys_active s @ [r] \<and> run_job r = j \<and> w_running (sys_w t) (Id j) = Some (run_flag r)"
proof -
  obtain w' st' where c: "configure B CC cronErr cmd True (sys_w s) (sys_store s) = (w', st')"
    by (cases "configure B CC cronErr cmd True (sys_w s) (sys_store s)")
  obtain a where a: "w_running w' (Id j) = Some a" "w_flags w' a = 0"
    using configure_fresh [OF assms(1) c assms(2)] by blast
  obtain rid st'' where n: "newRunID B [] st' = (rid, st'')" by (cases "newRunID B [] st'")
  let ?s1 = "s\<lparr>sys_w := w', sys_store := st'\<rparr>"
  have "fire_begin j (sys_w ?s1) = (Begun a, w'\<lparr>w_flags := (w_flags w')(a := 1)\<rparr>)"
    using a by (simp add: fire_begin_def)
  from batch_step.Begin [OF this, of B "[]" rid st'' CC RC cronErr] n
  have "batch_step B CC RC cronErr ?s1 (LBegin j) (?s1\<lparr>sys_w := w'\<lparr>w_flags := (w_flags w')(a := 1)\<rparr>,
      sys_store := st'', sys_active := sys_active s @ [\<lparr>run_job = j, run_flag = a, run_id = rid\<rparr>]\<rparr>)"
    by simp
  from batch_run_Step [OF batch_step.Configure [OF c] batch_run_Step [OF this batch_run_Nil]]
  show ?thesis using a(1) by (intro exI conjI) (assumption, simp, simp_all)
qed

theorem no_overlap_witness:
  "\<exists>t. batch_run ref_bolt (one_codec demo_cmd) (one_codec demo_report) (\<lambda>_. None) demo_sys [LConfigure demo_cmd, LBegin demo_job] t
     \<and> length (current_runs t ''j'') = 1 \<and> fire_begin demo_job (sys_w t) = (Skipped, sys_w t)"
proof -
  have f: "flags_ok (sys_w demo_sys) (sys_active demo_sys)" using demo_sys_ok by (simp add: sys_ok_def)
  obtain t r where t: "batch_run ref_bolt (one_codec demo_cmd) (one_codec demo_report) (\<lambda>_. None) demo_sys [LConfigure demo_cmd, LBegin demo_job] t"
    "sys_active t = [r]" "run_job r = demo_job" "w_running (sys_w t) (Id demo_job) = Some (run_flag r)"
    using configure_then_begin [OF f, of demo_job demo_cmd ref_bolt "one_codec demo_cmd" "one_codec demo_report" "\<lambda>_. None"]
    by (auto simp: demo_cmd_def demo_sys_def)
  have j: "Id demo_job = ''j''" by (simp add: demo_job_def)
  have "r \<in> set (current_runs t (Id demo_job))" using t by (simp add: current_runs_def)
  then have "fire_begin demo_job (sys_w t) = (Skipped, sys_w t)" "length (current_runs t ''j'') \<le> 1"
    "current_runs t ''j'' \<noteq> []"
    using no_overlap [OF f t(1)] j by auto
  then show ?thesis using t(1) by (auto simp: le_Suc_eq)
qed

text \<open>C34: The exclusion ends at a reconfiguration. From any state in which the flags are consistent,
  applying a configuration twice while a run of one of its jobs is in progress lets a second run of
  the same job start: two runs of the job are then active together.\<close>

theorem reconfigure_overlap:
  assumes "flags_ok (sys_w s) (sys_active s)" and "j \<in> set (Jobs cmd)"
  shows "\<exists>t. batch_run B CC RC cronErr s [LConfigure cmd, LBegin j, LConfigure cmd, LBegin j] t
    \<and> 2 \<le> length (filter (\<lambda>r. run_job r = j) (sys_active t))"
proof -
  obtain t r where t: "batch_run B CC RC cronErr s [LConfigure cmd, LBegin j] t"
    "sys_active t = sys_active s @ [r]" "run_job r = j"
    using configure_then_begin [OF assms] by blast
  obtain u r' where u: "batch_run B CC RC cronErr t [LConfigure cmd, LBegin j] u"
    "sys_active u = sys_active t @ [r']" "run_job r' = j"
    using configure_then_begin [OF flags_ok_run [OF t(1) assms(1)] assms(2)] by blast
  from steps_append [OF t(1) u(1)] show ?thesis using t(2,3) u(2,3) by (intro exI [of _ u]) simp
qed

theorem reconfigure_overlap_witness:
  "\<exists>t. batch_run ref_bolt (one_codec demo_cmd) (one_codec demo_report) (\<lambda>_. None) demo_sys
       [LConfigure demo_cmd, LBegin demo_job, LConfigure demo_cmd, LBegin demo_job] t
     \<and> 2 \<le> length (filter (\<lambda>r. run_job r = demo_job) (sys_active t))"
proof -
  have "flags_ok (sys_w demo_sys) (sys_active demo_sys)" using demo_sys_ok by (simp add: sys_ok_def)
  then show ?thesis by (rule reconfigure_overlap) (simp add: demo_cmd_def)
qed

text \<open>A store with one report that does not decode, for the witness of the first property.\<close>

definition demo_sys1 :: "log_bucket bsys" where
  "demo_sys1 = demo_sys\<lparr>sys_store := snd (snd (QueueEnqueue ref_bolt batchQueue (Some ''x'') 5 empty_store))\<rparr>"

lemma demo_sys1_view: "queues_ok ref_bolt (sys_store demo_sys1)
  \<and> reports ref_bolt (sys_store demo_sys1) = snd (aq_enqueue (Some ''x'') 5 \<lparr>aq_seq = 0, aq_items = []\<rparr>)"
proof -
  obtain n e s' where q: "QueueEnqueue ref_bolt batchQueue (Some ''x'') 5 empty_store = (n, e, s')"
    by (cases "QueueEnqueue ref_bolt batchQueue (Some ''x'') 5 empty_store") auto
  have "e = None" using logh.QueueEnqueue_total [OF _ q] by (simp add: batchQueue_def)
  then show ?thesis
    using logb.QueueEnqueue_refines [of _ empty_store batchQueue "Some ''x''" 5 n s'] q by (simp add: demo_sys1_def)
qed

theorem reports_survive_witness:
  "\<exists>t. batch_run ref_bolt (one_codec demo_cmd) (one_codec demo_report) (\<lambda>_. None) demo_sys1
       [LConfigure demo_cmd, LBegin demo_job, LCrash] t
     \<and> holds_item 1 (Some ''x'') (reports ref_bolt (sys_store t))"
proof -
  have ok: "sys_ok ref_bolt demo_sys1"
    using demo_sys1_view flags_ok_Init by (simp add: sys_ok_def pending_ok_def demo_sys1_def demo_sys_def)
  then have f: "flags_ok (sys_w demo_sys1) (sys_active demo_sys1)" by (simp add: sys_ok_def)
  obtain t where t: "batch_run ref_bolt (one_codec demo_cmd) (one_codec demo_report) (\<lambda>_. None) demo_sys1
      [LConfigure demo_cmd, LBegin demo_job] t"
    using configure_then_begin [OF f, of demo_job demo_cmd ref_bolt "one_codec demo_cmd" "one_codec demo_report" "\<lambda>_. None"]
    by (auto simp: demo_cmd_def)
  obtain w' st' where "batch_reload ref_bolt (one_codec demo_cmd) (\<lambda>_. None) batch_Init (sys_store t) = (w', st')"
    by (cases "batch_reload ref_bolt (one_codec demo_cmd) (\<lambda>_. None) batch_Init (sys_store t)")
  then obtain u where "batch_step ref_bolt (one_codec demo_cmd) (one_codec demo_report) (\<lambda>_. None) t LCrash u"
    using batch_step.Crash by blast
  then have u: "batch_run ref_bolt (one_codec demo_cmd) (one_codec demo_report) (\<lambda>_. None) demo_sys1
      [LConfigure demo_cmd, LBegin demo_job, LCrash] u"
    using steps_append [OF t batch_run_Step [OF _ batch_run_Nil]] by simp
  have "holds_item 1 (Some ''x'') (reports ref_bolt (sys_store u))"
    using reports_survive [OF log_bolt_bucket ok u, of 1 "Some ''x''"] demo_sys1_view
    by (simp add: aq_enqueue_def holds_item_def zero_item_def)
  then show ?thesis using u by blast
qed

end
