(* ===== verification/BatchReports.thy ===== *)
theory BatchReports
  imports BatchContract
begin

section \<open>Guarantees of the single operations of the batch role\<close>

text \<open>
  Run numbers are decimal and unique, the configuration survives a restart, every firing leaves a
  report of the right kind, a tick of the upload delivers what is due, and the one way a report can
  be missing: a result whose text is not valid UTF-8.
\<close>

subsection \<open>Sequences of run numbers\<close>

datatype seq_op = MakeId bytes | Count bytes

text \<open>The run numbers made by a sequence of operations, among which other counters are incremented.\<close>

fun run_ids :: "'b bolt \<Rightarrow> seq_op list \<Rightarrow> 'b store \<Rightarrow> bytes list" where
  "run_ids B [] s = []"
| "run_ids B (MakeId stamp # ops) s = (case newRunID B stamp s of (i, s') \<Rightarrow> i # run_ids B ops s')"
| "run_ids B (Count n # ops) s = run_ids B ops (snd (snd (Incr B n s)))"

context bolt_healthy
begin

lemma Incr_total: "n \<noteq> [] \<Longrightarrow> Incr B n s = (v, e, s') \<Longrightarrow> e = None"
  unfolding Incr_def by (erule db_Update_ok) (auto simp: Let_def split: sum.split)

lemma Incr_step:
  assumes "n \<noteq> []"
  shows "Counter B m (snd (snd (Incr B n s))) = (if m = n then Counter B n s + 1 else Counter B m s)"
proof -
  obtain v e s' where i: "Incr B n s = (v, e, s')" by (cases "Incr B n s") auto
  then have "Incr B n s = (v, None, s')" using Incr_total [OF assms i] by simp
  then show ?thesis using Counter_Incr [of n s v s' m] Incr_value [OF i] i by simp
qed

text \<open>Every number made later carries a counter value between the present one and the last.\<close>

lemma run_ids_values:
  assumes "list_all (\<lambda>op. case op of Count n \<Rightarrow> n \<noteq> [] \<and> n \<noteq> ''batch_run_seq'' | MakeId st \<Rightarrow> True) ops"
    and "unat (Counter B ''batch_run_seq'' s) + length ops < 2 ^ 64"
  shows "distinct (run_ids B ops s) \<and>
    (\<forall>i\<in>set (run_ids B ops s). \<exists>st c. i = ''run-'' @ st @ ''-'' @ itoa c \<and> Counter B ''batch_run_seq'' s < c)"
  using assms
proof (induction ops arbitrary: s)
  case (Cons op ops)
  show ?case
  proof (cases op)
    case (MakeId st)
    obtain i s' where n: "newRunID B st s = (i, s')" by (cases "newRunID B st s")
    let ?c = "Counter B ''batch_run_seq'' s"
    note v = newRunID_value [OF n]
    have ne: "?c \<noteq> - 1" using Cons.prems(2) max_word_64 by auto
    have c': "Counter B ''batch_run_seq'' s' = ?c + 1"
      using v Incr_step [of "''batch_run_seq''" "''batch_run_seq''" s] by simp
    then have "unat (Counter B ''batch_run_seq'' s') + length ops < 2 ^ 64"
      using Cons.prems(2) word_succ_unat [OF ne] by simp
    then have IH: "distinct (run_ids B ops s')"
      "\<forall>i\<in>set (run_ids B ops s'). \<exists>st c. i = ''run-'' @ st @ ''-'' @ itoa c \<and> ?c + 1 < c"
      using Cons.IH [of s'] Cons.prems(1) c' by simp_all
    have lt: "?c < ?c + 1" by (rule word_less_succ [OF ne])
    have "i \<notin> set (run_ids B ops s')"
    proof
      assume "i \<in> set (run_ids B ops s')"
      then obtain st' c where "i = ''run-'' @ st' @ ''-'' @ itoa c" "?c + 1 < c" using IH(2) by blast
      then show False using v run_id_inject [of st "?c + 1" st' c] by simp
    qed
    moreover have "\<exists>st' c. i = ''run-'' @ st' @ ''-'' @ itoa c \<and> ?c < c" using v lt by blast
    moreover have "\<forall>i\<in>set (run_ids B ops s'). \<exists>st c. i = ''run-'' @ st @ ''-'' @ itoa c \<and> ?c < c"
      using IH(2) lt by (meson less_trans)
    ultimately show ?thesis using IH(1) MakeId n by simp
  next
    case (Count n)
    then have "Counter B ''batch_run_seq'' (snd (snd (Incr B n s))) = Counter B ''batch_run_seq'' s"
      using Cons.prems(1) Incr_step [of n "''batch_run_seq''" s] by auto
    then show ?thesis using Cons.IH [of "snd (snd (Incr B n s))"] Cons.prems Count by simp
  qed
qed simp

end

subsection \<open>Firing\<close>

text \<open>The result a firing should report: skipped while the job's flag is set, else what the checks
  and the runner say.\<close>

definition run_result :: "'t fire_env \<Rightarrow> JobSpec \<Rightarrow> RunResult" where
  "run_result F j = (case fe_runners F (AgentKind j) of
     None \<Rightarrow> failed_result (''runner inconnu: '' @ AgentKind j)
   | Some run \<Rightarrow> (case ResolvePrompt (fe_tmpl F) (PromptTemplate j) (PromptVars j) (fe_at F) of
       Inl e \<Rightarrow> failed_result (err_text e)
     | Inr prompt \<Rightarrow> run prompt (AgentParams j) (run_timeout j)))"

definition skip_result :: "'t fire_env \<Rightarrow> RunResult" where
  "skip_result F = \<lparr>Status = ''skipped'', ReportMD = [], Metrics = Map.empty, Error = [],
     StartedMs = fe_start F, EndedMs = fe_end F\<rparr>"

definition fire_result :: "'t fire_env \<Rightarrow> JobSpec \<Rightarrow> batch_worker \<Rightarrow> RunResult" where
  "fire_result F j w = (if fst (fire_begin j w) = Skipped then skip_result F else run_result F j)"

text \<open>
  One report of the given content at the end of the queue, or none: when the wire format refuses the
  report, or the store refuses to enqueue it.
\<close>

definition one_report_more :: "'b bolt \<Rightarrow> BatchReport codec \<Rightarrow> JobSpec \<Rightarrow> RunResult \<Rightarrow> 'b store \<Rightarrow> 'b store \<Rightarrow> bool" where
  "one_report_more B RC j res s s' \<longleftrightarrow> (\<exists>it rid.
     aq_items (queue_view B s' batchQueue) = aq_items (queue_view B s batchQueue) @ [it]
     \<and> Unmarshal RC (payload_bytes (Payload it)) = Some (report_of j rid res))"

definition report_refused :: "'b bolt \<Rightarrow> BatchReport codec \<Rightarrow> i64 \<Rightarrow> JobSpec \<Rightarrow> RunResult \<Rightarrow> 'b store \<Rightarrow> 'b store \<Rightarrow> bool" where
  "report_refused B RC now j res s s' \<longleftrightarrow> queue_view B s' = queue_view B s \<and>
     (\<exists>rid. (\<exists>e. Marshal RC (report_of j rid res) = Inl e)
        \<or> (\<exists>raw s1 n e. Marshal RC (report_of j rid res) = Inr raw \<and> queue_view B s1 = queue_view B s
             \<and> QueueEnqueue B batchQueue (Some raw) now s1 = (n, Some e, s')))"

definition reported :: "'b bolt \<Rightarrow> BatchReport codec \<Rightarrow> i64 \<Rightarrow> JobSpec \<Rightarrow> RunResult \<Rightarrow> 'b store \<Rightarrow> 'b store \<Rightarrow> bool" where
  "reported B RC now j res s s' \<longleftrightarrow> one_report_more B RC j res s s' \<or> report_refused B RC now j res s s'"

lemma reported_frame:
  "queue_view B s1 = queue_view B s \<Longrightarrow> reported B RC now j res s1 s' = reported B RC now j res s s'"
  by (simp add: reported_def one_report_more_def report_refused_def)

context bolt_bucket
begin

lemma report_enqueued:
  assumes "proto_codec RC" and "queues_ok B s" and "aq_seq (queue_view B s batchQueue) \<noteq> - 1"
  shows "reported B RC now j res s (enqueueReportWithID B RC now j rid res s)"
proof (cases "Marshal RC (report_of j rid res)")
  case (Inl e)
  then show ?thesis by (auto simp: reported_def report_refused_def enqueueReportWithID_def)
next
  case (Inr raw)
  obtain n e s' where q: "QueueEnqueue B batchQueue (Some raw) now s = (n, e, s')"
    by (cases "QueueEnqueue B batchQueue (Some raw) now s") auto
  then have s': "enqueueReportWithID B RC now j rid res s = s'" using Inr by (simp add: enqueueReportWithID_def)
  show ?thesis
  proof (cases e)
    case None
    from QueueEnqueue_refines [OF assms(2,3) q [unfolded None]]
    have "aq_items (queue_view B s' batchQueue) = aq_items (queue_view B s batchQueue) @
        [zero_item\<lparr>ID := aq_seq (queue_view B s batchQueue) + 1, Payload := Some raw, EnqueuedMs := now, NotBeforeMs := now\<rparr>]"
      by (simp add: aq_enqueue_def)
    moreover have "Unmarshal RC raw = Some (report_of j rid res)"
      using proto_codec.Unmarshal_Marshal [OF assms(1) Inr] .
    ultimately show ?thesis by (auto simp: s' reported_def one_report_more_def payload_bytes_def)
  next
    case (Some err)
    have "queue_view B s' = queue_view B s" using QueueEnqueue_fail [OF assms(2) q [unfolded Some]] by simp
    then show ?thesis using q Some Inr unfolding s' reported_def report_refused_def by blast
  qed
qed

lemma report_enqueued_new:
  assumes "proto_codec RC" and "queues_ok B s" and "aq_seq (queue_view B s batchQueue) \<noteq> - 1"
  shows "reported B RC now j res s (enqueueReport B RC stamp now j res s)"
proof -
  obtain rid s1 where n: "newRunID B stamp s = (rid, s1)" by (cases "newRunID B stamp s")
  note q = newRunID_queues [OF n]
  show ?thesis using report_enqueued [OF assms(1), of s1 now] q assms(2,3) reported_frame [of B s1 s]
    by (simp add: enqueueReport_def n)
qed

lemma fire_reports_lemma:
  assumes "proto_codec RC" and "queues_ok B s" and "aq_seq (queue_view B s batchQueue) \<noteq> - 1"
    and "fire B RC F j w s = (w', s')" and "w_running w (Id j) \<noteq> None"
  shows "reported B RC (fe_now F) j (fire_result F j w) s s' \<and> w_flags w' = w_flags w"
proof (cases "fst (fire_begin j w) = Skipped")
  case True
  then have b: "fire_begin j w = (Skipped, w)" by (auto simp: fire_begin_def split: option.splits if_splits)
  obtain v e s1 where n: "Incr B (''batch_'' @ Id j @ ''_skipped'') s = (v, e, s1)"
    by (cases "Incr B (''batch_'' @ Id j @ ''_skipped'') s") auto
  note q = Incr_queues [OF n]
  have "fire_result F j w = skip_result F" using b by (simp add: fire_result_def)
  with report_enqueued_new [OF assms(1), of s1 "fe_now F" j "skip_result F" "fe_stamp F"] q assms(2-4) b reported_frame [of B s1 s]
  show ?thesis by (auto simp: fire_def fire_skip_def n [simplified] skip_result_def)
next
  case False
  then obtain a w1 where b: "fire_begin j w = (Begun a, w1)" "w1 = w\<lparr>w_flags := (w_flags w)(a := 1)\<rparr>" "w_flags w a = 0"
    using assms(5) by (auto simp: fire_begin_def split: option.splits if_splits)
  obtain rid s1 where n: "newRunID B (fe_stamp F) s = (rid, s1)" by (cases "newRunID B (fe_stamp F) s")
  have r: "fire_result F j w = run_result F j" using False by (simp add: fire_result_def)
  have s1: "queues_ok B s1" "aq_seq (queue_view B s1 batchQueue) \<noteq> - 1" "queue_view B s1 = queue_view B s"
    using newRunID_queues [OF n] assms(2,3) by simp_all
  have "reported B RC (fe_now F) j (run_result F j) s1 (fire_finish B RC F j rid s1)"
    using report_enqueued [OF assms(1) s1(1,2)] report_enqueued_new [OF assms(1) s1(1,2)]
    by (auto simp: fire_finish_def run_result_def split: option.split sum.split)
  then show ?thesis using assms(4) b n r reported_frame [OF s1(3)]
    by (auto simp: fire_def fire_body_def fire_end_def fun_upd_idem)
qed

end

subsection \<open>Uploading\<close>

text \<open>What a tick does with an item if the parent answers without an error.\<close>

definition accepted_outcome :: "BatchReport codec \<Rightarrow> QueueItem \<Rightarrow> drain_outcome" where
  "accepted_outcome RC it = (case Unmarshal RC (payload_bytes (Payload it)) of None \<Rightarrow> Corrupt | Some rep \<Rightarrow> Sent rep)"

abbreviation accepted_log :: "BatchReport codec \<Rightarrow> QueueItem list \<Rightarrow> (u64 \<times> drain_outcome) list" where
  "accepted_log RC its \<equiv> map (\<lambda>it. (ID it, accepted_outcome RC it)) its"

lemma accepted_outcome_leased [simp]: "accepted_outcome RC (leased l now it) = accepted_outcome RC it"
  by (simp add: accepted_outcome_def)

context bolt_healthy
begin

lemma drain_one_sent:
  assumes "queues_ok B s" and "fst (ans it) = None" and "drain_one B RC ans it s = (oc, s')"
  shows "queues_ok B s' \<and> oc = accepted_outcome RC it \<and> queue_view B s' batchQueue = aq_ack (ID it) (queue_view B s batchQueue)"
proof -
  obtain e s1 where a: "QueueAck B batchQueue (ID it) s = (e, s1)" by (cases "QueueAck B batchQueue (ID it) s")
  then have "QueueAck B batchQueue (ID it) s = (None, s1)" using QueueAck_total [OF a] by simp
  note r = QueueAck_refines [OF assms(1) this]
  obtain v e' s2 where i: "Incr B ''batch_reports_sent'' s1 = (v, e', s2)"
    by (cases "Incr B ''batch_reports_sent'' s1") auto
  then show ?thesis using r a assms Incr_queues [OF i] by (auto simp: drain_one_def accepted_outcome_def split: option.splits)
qed

lemma drain_items_sent:
  assumes "queues_ok B s" and "drain_items B RC ans its s = (log, t)" and "\<And>it. fst (ans it) = None"
  shows "queues_ok B t \<and> log = accepted_log RC its
    \<and> aq_items (queue_view B t batchQueue) =
        filter (\<lambda>x. ID x \<notin> ID ` set its) (aq_items (queue_view B s batchQueue))"
  using assms(1,2)
proof (induction its arbitrary: s log)
  case (Cons it its)
  obtain oc s' where o: "drain_one B RC ans it s = (oc, s')" by (cases "drain_one B RC ans it s")
  obtain log' where r: "drain_items B RC ans its s' = (log', t)" "log = (ID it, oc) # log'"
    using Cons.prems(2) o by (auto split: prod.splits)
  note d = drain_one_sent [OF Cons.prems(1) assms(3) o]
  have ih: "log' = accepted_log RC its" "queues_ok B t"
    "aq_items (queue_view B t batchQueue) = filter (\<lambda>x. ID x \<notin> ID ` set its) (aq_items (queue_view B s' batchQueue))"
    using Cons.IH [OF _ r(1)] d by auto
  show ?case using ih d r(2) by (auto simp: aq_ack_def intro: filter_cong)
qed simp

lemma leased_rest:
  assumes "distinct (map ID its)" and "set sel \<subseteq> set its"
  shows "filter (\<lambda>x. ID x \<notin> ID ` set (map (leased l now) sel))
      (map (\<lambda>it. if it \<in> set sel then leased l now it else it) its) = filter (\<lambda>it. it \<notin> set sel) its"
proof -
  have img: "ID ` set (map (leased l now) sel) = ID ` set sel" by (auto simp: image_iff)
  have "ID x \<in> ID ` set sel \<longleftrightarrow> x \<in> set sel" if "x \<in> set its" for x
    using that assms by (auto simp: distinct_map dest: inj_onD)
  then have "filter (\<lambda>x. ID x \<notin> ID ` set sel) (map (\<lambda>it. if it \<in> set sel then leased l now it else it) ys) =
      filter (\<lambda>it. it \<notin> set sel) ys" if "set ys \<subseteq> set its" for ys
    using that by (induction ys) auto
  then show ?thesis unfolding img by simp
qed

lemma drain_tick_sent:
  assumes "queues_ok B s" and "drain_tick B RC now ans s = (log, t)" and "\<And>it. fst (ans it) = None"
  shows "queues_ok B t \<and> log = accepted_log RC (aq_select 5 now (aq_items (queue_view B s batchQueue)))
    \<and> aq_items (queue_view B t batchQueue) = filter (\<lambda>it. it \<notin> set (aq_select 5 now (aq_items (queue_view B s batchQueue))))
        (aq_items (queue_view B s batchQueue))"
proof -
  let ?its = "aq_items (queue_view B s batchQueue)" and ?sel = "aq_select 5 now (aq_items (queue_view B s batchQueue))"
  obtain items e s1 where l: "QueueLease B batchQueue 5 batchLeaseMs now s = (items, e, s1)"
    by (cases "QueueLease B batchQueue 5 batchLeaseMs now s") auto
  have e: "e = None" by (rule QueueLease_total [OF assms(1) l])
  note r = QueueLease_refines [OF assms(1) l [unfolded e]]
  have items: "items = map (leased batchLeaseMs now) ?sel" using r by (simp add: aq_lease_def)
  have v: "aq_items (queue_view B s1 batchQueue) =
      map (\<lambda>it. if it \<in> set ?sel then leased batchLeaseMs now it else it) ?its"
    using r by (simp add: aq_lease_def)
  have sel: "set ?sel \<subseteq> set ?its" using aq_select_due by blast
  show ?thesis
  proof (cases "items = []")
    case True
    then have "?sel = []" using items by simp
    moreover have "log = []" "t = s1" using True assms(2) l e by (auto simp: drain_tick_def)
    ultimately show ?thesis using r v by simp
  next
    case False
    then have d: "drain_items B RC ans items s1 = (log, t)" using assms(2) l e by (simp add: drain_tick_def)
    from drain_items_sent [OF conjunct1 [OF r] d assms(3)]
      leased_rest [OF aq_ok_distinct [OF queue_view_ok [OF assms(1)]] sel, of batchLeaseMs now]
    show ?thesis by (simp add: items v comp_def)
  qed
qed

end

text \<open>Ticks in a row, at the given times.\<close>

fun drain_ticks :: "'b bolt \<Rightarrow> BatchReport codec \<Rightarrow> (QueueItem \<Rightarrow> gerror option \<times> i64) \<Rightarrow> i64 list \<Rightarrow>
    'b store \<Rightarrow> (u64 \<times> drain_outcome) list \<times> 'b store" where
  "drain_ticks B RC ans [] s = ([], s)"
| "drain_ticks B RC ans (now # nows) s = (case drain_tick B RC now ans s of (log, s') \<Rightarrow>
     case drain_ticks B RC ans nows s' of (log', t) \<Rightarrow> (log @ log', t))"

text \<open>What they should do, on the list of the waiting reports: every tick takes out the first five of
  those that are due then.\<close>

fun upload_order :: "i64 list \<Rightarrow> QueueItem list \<Rightarrow> QueueItem list \<times> QueueItem list" where
  "upload_order [] its = ([], its)"
| "upload_order (now # nows) its = (let out = take 5 (filter (due now) its) in
     case upload_order nows (filter (\<lambda>it. it \<notin> set out) its) of (later, rest) \<Rightarrow> (out @ later, rest))"

lemma take_drop_distinct: "distinct xs \<Longrightarrow> filter (\<lambda>x. x \<notin> set (take n xs)) xs = drop n xs"
proof -
  assume "distinct xs"
  then have "set (take n xs) \<inter> set (drop n xs) = {}" by (rule set_take_disj_set_drop_if_distinct) simp
  then have "filter (\<lambda>x. x \<notin> set (take n xs)) (take n xs @ drop n xs) = drop n xs"
    unfolding filter_append by (auto simp: filter_id_conv filter_empty_conv)
  then show ?thesis by simp
qed

lemma upload_all_due:
  "\<forall>now\<in>set nows. \<forall>it\<in>set its. due now it \<Longrightarrow> distinct its \<Longrightarrow>
   upload_order nows its = (take (5 * length nows) its, drop (5 * length nows) its)"
proof (induction nows arbitrary: its)
  case (Cons now nows)
  have "filter (due now) its = its" using Cons.prems(1) by simp
  moreover have "upload_order nows (drop 5 its) = (take (5 * length nows) (drop 5 its), drop (5 * length nows) (drop 5 its))"
    using Cons.prems by (intro Cons.IH) (auto dest: in_set_dropD)
  ultimately show ?case using take_drop_distinct [OF Cons.prems(2), of 5]
    by (simp add: Let_def take_add add.commute)
qed simp

text \<open>Nothing is taken out before it is due, and nothing disappears.\<close>

lemma upload_partition:
  "upload_order nows its = (sent, rest) \<Longrightarrow> set sent \<union> set rest = set its
     \<and> (\<forall>it\<in>set sent. \<exists>now\<in>set nows. due now it)"
proof (induction nows arbitrary: its sent)
  case (Cons now nows)
  let ?out = "take 5 (filter (due now) its)"
  obtain later where l: "upload_order nows (filter (\<lambda>it. it \<notin> set ?out) its) = (later, rest)" "sent = ?out @ later"
    using Cons.prems by (auto simp: Let_def split: prod.splits)
  have out: "set ?out \<subseteq> set its" "\<forall>it\<in>set ?out. due now it" by (auto dest: in_set_takeD)
  have "set later \<union> set rest = set its - set ?out" "\<forall>it\<in>set later. \<exists>now\<in>set nows. due now it"
    using Cons.IH [OF l(1)] by (auto simp only: set_filter)
  then show ?case using out unfolding l(2) set_append list.set by blast
qed simp

lemma distinct_items: "aq_ok a \<Longrightarrow> distinct (aq_items a)"
  using aq_ok_distinct by (auto simp: distinct_map)

context bolt_healthy
begin

lemma drain_ticks_sent:
  assumes "queues_ok B s" and "drain_ticks B RC ans nows s = (log, t)" and "\<And>it. fst (ans it) = None"
    and "upload_order nows (aq_items (queue_view B s batchQueue)) = (sent, rest)"
  shows "aq_items (queue_view B t batchQueue) = rest \<and> log = accepted_log RC sent"
  using assms(1,2,4)
proof (induction nows arbitrary: s log sent)
  case (Cons now nows)
  let ?its = "aq_items (queue_view B s batchQueue)"
  obtain l1 s1 where d: "drain_tick B RC now ans s = (l1, s1)" by (cases "drain_tick B RC now ans s")
  obtain l2 where r: "drain_ticks B RC ans nows s1 = (l2, t)" "log = l1 @ l2"
    using Cons.prems(2) d by (auto split: prod.splits)
  have sel: "aq_select 5 now ?its = take 5 (filter (due now) ?its)" by (simp add: aq_select_def)
  obtain later where u: "upload_order nows (filter (\<lambda>it. it \<notin> set (aq_select 5 now ?its)) ?its) = (later, rest)"
    "sent = aq_select 5 now ?its @ later"
    using Cons.prems(3) by (auto simp: Let_def sel split: prod.splits)
  note t = drain_tick_sent [OF Cons.prems(1) d assms(3)]
  show ?case using Cons.IH [OF _ r(1), of later] t u r(2) by simp
qed simp

end

subsection \<open>Restart\<close>

definition cron_entries :: "batch_worker \<Rightarrow> (bytes \<times> JobSpec) list" where
  "cron_entries w = (case w_cron w of None \<Rightarrow> [] | Some es \<Rightarrow> es)"

lemma configure_entries:
  "configure B CC cronErr cmd p w s = (w', s') \<Longrightarrow>
   w_jobs w' = map_of (rev (map (\<lambda>j. (Id j, j)) (Jobs cmd)))
   \<and> cron_entries w' = map (\<lambda>j. (cron_spec j, j)) (filter (armed cronErr) (Jobs cmd))"
  using configure_effect [of B CC cronErr cmd p w s w' s'] by (simp add: cron_entries_def)

lemma reload_blob:
  assumes "GetBlob B batchJobsBlobKey s = copy_bytes raw" and "Unmarshal CC raw = Some cmd"
    and "Unmarshal CC [] = Some \<lparr>Jobs = []\<rparr>" and "batch_reload B CC cronErr batch_Init s = (w, s')"
  shows "w_jobs w = map_of (rev (map (\<lambda>j. (Id j, j)) (Jobs cmd)))
    \<and> cron_entries w = map (\<lambda>j. (cron_spec j, j)) (filter (armed cronErr) (Jobs cmd))"
proof (cases raw)
  case Nil
  then show ?thesis using assms by (auto simp: batch_reload_def cron_entries_def batch_Init_def copy_bytes_def)
next
  case (Cons c cs)
  then have "configure B CC cronErr cmd False batch_Init s = (w, s')" using assms by (simp add: batch_reload_def copy_bytes_def)
  then show ?thesis by (rule configure_entries)
qed

subsection \<open>Texts that are not UTF-8\<close>

definition valid_utf8 :: "bytes \<Rightarrow> bool" where
  "valid_utf8 s = list_all (\<lambda>rb. fst rb \<noteq> rune_error \<or> 1 < length (snd rb)) (runes s)"

lemma runes_ascii_append: "\<forall>c\<in>set s. ascii c \<Longrightarrow> runes (s @ u) = map (\<lambda>c. (of_char c, [c])) s @ runes u"
  by (induction s) (simp_all add: DecodeRune_def ascii_def Let_def)

lemma valid_utf8_ascii_append: "\<forall>c\<in>set s. ascii c \<Longrightarrow> valid_utf8 (s @ u) = valid_utf8 u"
  by (auto simp: valid_utf8_def runes_ascii_append list_all_iff ascii_def rune_error_def)

text \<open>399 ASCII characters and an accented letter, as a program may print on its error output.\<close>

definition long_message :: bytes where
  "long_message = replicate 399 (CHR ''a'') @ [CHR 0xC3, CHR 0xA9]"

lemma long_message_valid: "valid_utf8 long_message"
proof -
  have "valid_utf8 [CHR 0xC3, CHR 0xA9]" by code_simp
  then show ?thesis unfolding long_message_def
    by (subst valid_utf8_ascii_append) (auto simp: ascii_def)
qed

lemma truncated_message_invalid:
  assumes "\<forall>c\<in>set p. ascii c"
  shows "\<not> valid_utf8 (p @ truncate_text long_message 400)"
proof -
  have t: "truncate_text long_message 400 = replicate 399 (CHR ''a'') @ [CHR 0xC3, CHR 0xE2, CHR 0x80, CHR 0xA6]"
    by (simp add: truncate_text_def long_message_def)
  have "\<not> valid_utf8 [CHR 0xC3, CHR 0xE2, CHR 0x80, CHR 0xA6]" by code_simp
  then show ?thesis unfolding t
    using assms by (subst valid_utf8_ascii_append, simp, subst valid_utf8_ascii_append) (auto simp: ascii_def)
qed

lemma report_not_enqueued:
  "Marshal RC (report_of j rid res) = Inl e \<Longrightarrow> enqueueReportWithID B RC now j rid res s = s"
  by (simp add: enqueueReportWithID_def)

text \<open>A codec of the reports of one job with one result, whatever their run id; for witnesses.\<close>

definition job_codec :: "JobSpec \<Rightarrow> RunResult \<Rightarrow> BatchReport codec" where
  "job_codec j res = \<lparr>Marshal = (\<lambda>rep. if valid_utf8 (rep_Error rep) \<and> rep = report_of j (RunId rep) res
       then Inr (RunId rep) else Inl (ErrText ''invalid UTF-8'')),
     Unmarshal = (\<lambda>bs. Some (report_of j bs res))\<rparr>"

interpretation jobc: proto_codec "job_codec j res" for j res
  by unfold_locales (auto simp: job_codec_def split: if_splits)


definition echo_job :: JobSpec where
  "echo_job = \<lparr>Id = ''j'', job_Enabled = True, Schedule = ''0 7 * * *'', Timezone = [], AgentKind = ''echo'',
     AgentParams = Map.empty, PromptTemplate = [], PromptVars = Map.empty, TimeoutMs = 0, Overlap = [],
     MaxAttempts = 0, BackoffMs = 0, ReportHubs = []\<rparr>"

definition echo_result :: RunResult where
  "echo_result = \<lparr>Status = ''success'', ReportMD = ''# ok'', Metrics = Map.empty, Error = [], StartedMs = 1, EndedMs = 2\<rparr>"





subsection \<open>Properties\<close>

text \<open>Run numbers are printed in decimal: the hand-written conversion agrees with strconv, needs at
  most the 20 bytes of its buffer, and can be read back.\<close>

theorem itoa_decimal:
  "itoa n = dec_nat (unat n) \<and> length (itoa n) \<le> 20 \<and> ParseUint (itoa n) = (n, None)"
proof -
  have "unat n < 2 ^ 64" using unsigned_less [of n, where ?'a = nat] by simp
  then have "unat n < 10 ^ Suc 19" by simp
  from dec_nat_length [OF this] show ?thesis by (simp add: itoa_dec)
qed

text \<open>Run ids are unique. In a store whose writes do not fail, all ids made by any sequence of
  operations, with any time stamps and other counters counted in between, are different.\<close>

theorem run_ids_unique:
  assumes "bolt_healthy B"
    and "list_all (\<lambda>op. case op of Count n \<Rightarrow> n \<noteq> [] \<and> n \<noteq> ''batch_run_seq'' | MakeId st \<Rightarrow> True) ops"
    and "unat (Counter B ''batch_run_seq'' s) + length ops < 2 ^ 64"
  shows "distinct (run_ids B ops s)"
  using bolt_healthy.run_ids_values [OF assms] by simp

theorem run_ids_unique_witness:
  "distinct (run_ids ref_bolt [MakeId ''20250101-070000'', Count ''heartbeats'', MakeId ''20250101-070000''] empty_store)
   \<and> run_ids ref_bolt [MakeId ''20250101-070000'', Count ''heartbeats'', MakeId ''20250101-070000''] empty_store
     = [''run-20250101-070000-1'', ''run-20250101-070000-2'']"
proof -
  let ?ops = "[MakeId ''20250101-070000'', Count ''heartbeats'', MakeId ''20250101-070000'']"
  have "Counter ref_bolt ''batch_run_seq'' empty_store = 0" by code_simp
  then have "distinct (run_ids ref_bolt ?ops empty_store)"
    using run_ids_unique [OF logh.bolt_healthy_axioms, of ?ops empty_store] by (simp del: run_ids.simps)
  moreover have "run_ids ref_bolt ?ops empty_store = [''run-20250101-070000-1'', ''run-20250101-070000-2'']"
    by code_simp
  ultimately show ?thesis by simp
qed



text \<open>C17: The upload makes progress. If the store's writes do not fail and the parent answers every push
  without an error, then ticks at any times do exactly this: each takes, of the reports that wait
  then, the first five that are due, in queue order, sends them (or discards one that does not
  decode) and removes them; what is not due stays, unchanged. So nothing is sent before it is due and
  nothing else disappears, and of reports that are all due, \<open>k\<close> ticks send the first \<open>5 k\<close>.\<close>

theorem drain_progress:
  assumes "bolt_healthy B" and "queues_ok B s" and "drain_ticks B RC ans nows s = (log, t)"
    and "\<And>it. fst (ans it) = None"
    and "upload_order nows (aq_items (queue_view B s batchQueue)) = (sent, rest)"
  shows "aq_items (queue_view B t batchQueue) = rest \<and> log = map (\<lambda>it. (ID it, accepted_outcome RC it)) sent
    \<and> set sent \<union> set rest = set (aq_items (queue_view B s batchQueue))
    \<and> (\<forall>it\<in>set sent. \<exists>now\<in>set nows. due now it)
    \<and> ((\<forall>now\<in>set nows. \<forall>it\<in>set (aq_items (queue_view B s batchQueue)). due now it) \<longrightarrow>
        sent = take (5 * length nows) (aq_items (queue_view B s batchQueue))
        \<and> rest = drop (5 * length nows) (aq_items (queue_view B s batchQueue)))"
proof -
  have d: "distinct (aq_items (queue_view B s batchQueue))"
    using bolt_bucket.queue_view_ok [OF bolt_healthy.axioms(1) [OF assms(1)] assms(2)] by (rule distinct_items)
  show ?thesis
    using bolt_healthy.drain_ticks_sent [OF assms] upload_partition [OF assms(5)] upload_all_due [OF _ d, of nows] assms(5)
    by auto
qed

theorem drain_progress_witness:
  "aq_items (queue_view ref_bolt (snd (drain_ticks ref_bolt (job_codec echo_job echo_result) (\<lambda>_. (None, 0)) [5, 5]
     (snd (q_run (store_queue ref_bolt) batchQueue [QEnq (Some ''a'') 5, QEnq (Some ''b'') 6] empty_store)))) batchQueue)
   = [zero_item\<lparr>ID := 2, Payload := Some ''b'', EnqueuedMs := 6, NotBeforeMs := 6\<rparr>]"
proof -
  let ?s = "snd (q_run (store_queue ref_bolt) batchQueue [QEnq (Some ''a'') 5, QEnq (Some ''b'') 6] empty_store)"
  let ?b = "zero_item\<lparr>ID := 2, Payload := Some ''b'', EnqueuedMs := 6, NotBeforeMs := 6\<rparr>"
  have v: "queues_ok ref_bolt ?s" "queue_view ref_bolt ?s batchQueue = \<lparr>aq_seq = 2, aq_items =
      [zero_item\<lparr>ID := 1, Payload := Some ''a'', EnqueuedMs := 5, NotBeforeMs := 5\<rparr>, ?b]\<rparr>"
    using logr.run_refines [OF _ _ _ prod.collapse [symmetric], of empty_store batchQueue
        "[QEnq (Some ''a'') 5, QEnq (Some ''b'') 6]"]
    by (simp_all add: batchQueue_def aq_enqueue_def zero_item_def del: q_run.simps)
  have "upload_order [5, 5] (aq_items (queue_view ref_bolt ?s batchQueue)) =
      ([zero_item\<lparr>ID := 1, Payload := Some ''a'', EnqueuedMs := 5, NotBeforeMs := 5\<rparr>], [?b])"
    unfolding v(2) by (simp add: due_def zero_item_def)
  from drain_progress [OF logh.bolt_healthy_axioms v(1) prod.collapse [symmetric] _ this]
  show ?thesis by simp
qed

text \<open>The configuration survives a restart. After a configuration was applied and its blob written,
  a restarted worker has the same jobs and arms the same cron entries.\<close>

theorem config_survives_restart:
  assumes "bolt_bucket B" and "proto_codec CC" and "Unmarshal CC [] = Some \<lparr>Jobs = []\<rparr>"
    and "Marshal CC cmd = Inr raw" and "PutBlob B batchJobsBlobKey raw s = (None, s1)"
    and "configure B CC cronErr cmd True w s = (w', s')"
    and "batch_reload B CC cronErr batch_Init s' = (w'', s'')"
  shows "w_jobs w'' = w_jobs w' \<and> cron_entries w'' = cron_entries w'"
proof -
  have "s' = s1" using assms(4-6) by (auto simp: configure_def)
  then have "GetBlob B batchJobsBlobKey s' = copy_bytes raw"
    using bolt_bucket.GetBlob_PutBlob [OF assms(1,5), of batchJobsBlobKey] by simp
  from reload_blob [OF this proto_codec.Unmarshal_Marshal [OF assms(2,4)] assms(3,7)]
    configure_entries [OF assms(6)]
  show ?thesis by simp
qed

text \<open>A wire format of two configurations: the empty one and the one of the witness.\<close>

definition two_codec :: "ConfigureBatchCommand codec" where
  "two_codec = \<lparr>Marshal = (\<lambda>m. if m = \<lparr>Jobs = []\<rparr> then Inr [] else if m = \<lparr>Jobs = [echo_job]\<rparr> then Inr ''j''
       else Inl (ErrText ''unsupported'')),
     Unmarshal = (\<lambda>bs. if bs = [] then Some \<lparr>Jobs = []\<rparr> else if bs = ''j'' then Some \<lparr>Jobs = [echo_job]\<rparr> else None)\<rparr>"

interpretation twoc: proto_codec two_codec
  by unfold_locales (auto simp: two_codec_def split: if_splits)

theorem config_survives_restart_witness:
  "cron_entries (fst (batch_reload ref_bolt two_codec (\<lambda>_. None) batch_Init
     (snd (configure ref_bolt two_codec (\<lambda>_. None) \<lparr>Jobs = [echo_job]\<rparr> True batch_Init empty_store)))) =
   [(''0 7 * * *'', echo_job)]"
proof -
  let ?c = "configure ref_bolt two_codec (\<lambda>_. None) \<lparr>Jobs = [echo_job]\<rparr> True batch_Init empty_store"
  have "fst (PutBlob ref_bolt batchJobsBlobKey ''j'' empty_store) = None" by code_simp
  then have p: "PutBlob ref_bolt batchJobsBlobKey ''j'' empty_store =
      (None, snd (PutBlob ref_bolt batchJobsBlobKey ''j'' empty_store))"
    by (metis prod.collapse)
  have "cron_entries (fst ?c) = [(''0 7 * * *'', echo_job)]"
    by (simp add: configure_entries [OF prod.collapse [symmetric]] armed_def cron_spec_def echo_job_def)
  then show ?thesis
    using config_survives_restart [OF log_bolt_bucket twoc.proto_codec_axioms _ _ p prod.collapse [symmetric] prod.collapse [symmetric],
        of "\<lparr>Jobs = [echo_job]\<rparr>" "\<lambda>_. None" batch_Init]
    by (simp add: two_codec_def)
qed

text \<open>C39: A report can be lost before it is queued. The error text of a failed run is cut after 400
  bytes of the program's error output, which may split a character; when the wire format refuses
  texts that are not valid UTF-8, as proto3 does, no report of such a run is queued. There is a
  valid UTF-8 output for which this happens.\<close>

theorem truncated_error_loses_report:
  assumes "\<And>rep. \<not> valid_utf8 (rep_Error rep) \<Longrightarrow> \<exists>e. Marshal RC rep = Inl e"
    and "exec E = (\<lambda>_ _. \<lparr>x_err = Some (ErrText ''exit status 1''), x_stdout = [], x_stderr = long_message,
                     x_deadline = False\<rparr>)"
    and "param ps ''command'' \<noteq> []"
  shows "valid_utf8 long_message
    \<and> Status (CustomExec_Run E prompt ps timeout) = ''failed''
    \<and> enqueueReportWithID B RC now j rid (CustomExec_Run E prompt ps timeout) s = s"
proof -
  let ?r = "CustomExec_Run E prompt ps timeout"
  have p: "\<forall>c\<in>set ''exec: exit status 1 | ''. ascii c" by (simp add: ascii_def)
  have "Error ?r = ''exec: exit status 1 | '' @ truncate_text long_message 400" and st: "Status ?r = ''failed''"
    using assms(2,3) by (simp_all add: CustomExec_Run_def Let_def)
  then have "\<not> valid_utf8 (rep_Error (report_of j rid ?r))"
    using truncated_message_invalid [OF p] by (simp add: report_of_def)
  then obtain e where "Marshal RC (report_of j rid ?r) = Inl e" using assms(1) by blast
  then show ?thesis using st long_message_valid report_not_enqueued by simp
qed

theorem truncated_error_loses_report_witness:
  "enqueueReportWithID ref_bolt (job_codec echo_job echo_result) 5 echo_job ''run-1''
     (CustomExec_Run \<lparr>exec = (\<lambda>_ _. \<lparr>x_err = Some (ErrText ''exit status 1''), x_stdout = [], x_stderr = long_message,
                     x_deadline = False\<rparr>), t_start = 1, t_end = 2, f_zero = (), f_parse = (\<lambda>_. None), f_format4 = (\<lambda>_. [])\<rparr>
        [] [''command'' \<mapsto> ''make report''] 0) empty_store = empty_store"
  by (rule conjunct2 [OF conjunct2 [OF truncated_error_loses_report]])
     (auto simp: job_codec_def param_def)

end
