(* ===== verification/Float64.thy ===== *)
theory Float64
  imports Complex_Main "HOL-Library.Code_Target_Numeral"
begin

section \<open>float64, for the percentages\<close>

text \<open>
  The source computes with \<open>float64\<close> only to turn a ratio of two \<open>uint64\<close> into a percentage. A
  value is the exact rational it stands for; every operation computes exactly and rounds to 53
  significant bits, ties to even (IEEE 754 binary64, whose exponent range these values do not
  leave: they are 0 or lie between \<open>2^-64\<close> and \<open>2^72\<close>).
\<close>

subsection \<open>Rounding\<close>

fun bits_Len :: "nat \<Rightarrow> nat" where
  "bits_Len n = (if n = 0 then 0 else Suc (bits_Len (n div 2)))"

declare bits_Len.simps [simp del]

definition round_even :: "rat \<Rightarrow> int" where
  "round_even x = (let n = \<lfloor>x\<rfloor>; f = x - of_int n in
     if f < 1 / 2 then n else if 1 / 2 < f then n + 1 else if even n then n else n + 1)"

text \<open>The exponent that gives a number a significand of 53 bits.\<close>

definition exponent :: "rat \<Rightarrow> int" where
  "exponent x = (case quotient_of x of (n, d) \<Rightarrow>
     let e = int (bits_Len (nat \<bar>n\<bar>)) - int (bits_Len (nat d)) - 53
     in if \<bar>x\<bar> < 2 ^ 53 * 2 powi e then e else e + 1)"

definition rd :: "rat \<Rightarrow> rat" where
  "rd x = (if x = 0 then 0 else of_int (round_even (x / 2 powi exponent x)) * 2 powi exponent x)"

text \<open>The operations: conversion from \<open>uint64\<close>, sum, quotient, product, conversion to an integer.\<close>

definition f_of_nat :: "nat \<Rightarrow> rat" where
  "f_of_nat n = rd (of_nat n)"

definition f_add :: "rat \<Rightarrow> rat \<Rightarrow> rat" where "f_add x y = rd (x + y)"
definition f_mul :: "rat \<Rightarrow> rat \<Rightarrow> rat" where "f_mul x y = rd (x * y)"
definition f_div :: "rat \<Rightarrow> rat \<Rightarrow> rat" where "f_div x y = rd (x / y)"

definition f_trunc :: "rat \<Rightarrow> int" where
  "f_trunc x = (if x < 0 then - \<lfloor>- x\<rfloor> else \<lfloor>x\<rfloor>)"

subsection \<open>The error of a rounding\<close>

lemma bits_Len_bounds:
  "0 < n \<Longrightarrow> 0 < bits_Len n \<and> 2 ^ (bits_Len n - 1) \<le> n \<and> n < 2 ^ bits_Len n"
proof (induction n rule: bits_Len.induct)
  case (1 n)
  show ?case
  proof (cases "n = 1")
    case True
    moreover have "bits_Len 1 = 1" by code_simp
    ultimately show ?thesis by simp
  next
    case False
    then have h: "0 < n div 2" using "1.prems" by simp
    then have IH: "0 < bits_Len (n div 2)" "2 ^ (bits_Len (n div 2) - 1) \<le> n div 2"
      "n div 2 < 2 ^ bits_Len (n div 2)" using 1 by simp_all
    obtain k where k: "bits_Len (n div 2) = Suc k" using IH(1) by (cases "bits_Len (n div 2)") auto
    have b: "bits_Len n = Suc (Suc k)" using "1.prems" k by (simp add: bits_Len.simps [of n])
    have "2 ^ k \<le> n div 2" "n div 2 < 2 ^ Suc k" using IH k by simp_all
    then have "2 ^ Suc k \<le> n" "n < 2 ^ Suc (Suc k)" by simp_all
    then show ?thesis by (simp add: b)
  qed
qed

lemma round_even_error: "\<bar>of_int (round_even x) - x\<bar> \<le> 1 / 2"
proof -
  have b: "of_int \<lfloor>x\<rfloor> \<le> x" "x < of_int \<lfloor>x\<rfloor> + 1" by linarith+
  define f where "f = x - of_int \<lfloor>x\<rfloor>"
  have f: "0 \<le> f" "f < 1" "x = of_int \<lfloor>x\<rfloor> + f" using b by (simp_all add: f_def)
  have "round_even x = (if f < 1 / 2 then \<lfloor>x\<rfloor> else if 1 / 2 < f then \<lfloor>x\<rfloor> + 1
      else if even \<lfloor>x\<rfloor> then \<lfloor>x\<rfloor> else \<lfloor>x\<rfloor> + 1)"
    by (simp add: round_even_def Let_def f_def)
  then have "of_int (round_even x) - x = - f \<and> f \<le> 1 / 2 \<or> of_int (round_even x) - x = 1 - f \<and> 1 / 2 \<le> f"
    using f(3) by (auto split: if_splits)
  then show ?thesis using f(1,2) unfolding abs_le_iff by linarith
qed

lemma round_even_int [simp]: "round_even (of_int n) = n"
  by (simp add: round_even_def Let_def)

lemma rat_pow_bounds:
  assumes "0 < n"
  shows "(2 :: rat) powi (int (bits_Len (nat n)) - 1) \<le> of_int n" "of_int n < (2 :: rat) powi int (bits_Len (nat n))"
proof -
  let ?b = "bits_Len (nat n)"
  have b: "0 < ?b" "2 ^ (?b - 1) \<le> nat n" "nat n < 2 ^ ?b" using bits_Len_bounds [of "nat n"] assms by simp_all
  have "int ?b - 1 = int (?b - 1)" using b(1) by simp
  moreover have "(2 :: int) ^ (?b - 1) \<le> n" "n < 2 ^ ?b"
    using b(2,3) assms by (simp_all add: nat_less_iff le_nat_iff)
  then have "of_int (2 ^ (?b - 1)) \<le> (of_int n :: rat)" "(of_int n :: rat) < of_int (2 ^ ?b)"
    by (simp_all only: of_int_le_iff of_int_less_iff)
  ultimately show "(2 :: rat) powi (int ?b - 1) \<le> of_int n" "of_int n < (2 :: rat) powi int ?b"
    by (simp_all only: power_int_of_nat of_int_power of_int_numeral)
qed

lemma exponent_bound:
  assumes "0 < x"
  shows "2 ^ 52 * 2 powi exponent x \<le> x"
proof -
  obtain n d where q: "quotient_of x = (n, d)" by (cases "quotient_of x")
  have d: "0 < d" using quotient_of_denom_pos [OF q] .
  have x: "x = of_int n / of_int d" using quotient_of_div [OF q] .
  have n: "0 < n" using assms d x by (simp add: zero_less_divide_iff)
  define a where "a = int (bits_Len (nat n))"
  define b where "b = int (bits_Len (nat d))"
  define e where "e = a - b - 53"
  have "2 powi (a - 1) / 2 powi b \<le> x"
    unfolding x a_def b_def using rat_pow_bounds [OF n] rat_pow_bounds [OF d] n d
    by (intro frac_le) simp_all
  also have "2 powi (a - 1) / 2 powi b = (2 :: rat) powi (e + 52)"
    by (simp add: e_def algebra_simps flip: power_int_diff)
  also have "(2 :: rat) powi (e + 52) = 2 ^ 52 * 2 powi e" by (simp add: power_int_add)
  finally have low: "2 ^ 52 * 2 powi e \<le> x" .
  have ex: "exponent x = (if x < 2 ^ 53 * 2 powi e then e else e + 1)"
    using q n assms by (simp add: exponent_def e_def a_def b_def Let_def)
  have "2 ^ 52 * 2 powi (e + 1) = 2 ^ 53 * (2 powi e :: rat)" by (simp add: power_int_add)
  then show ?thesis using low by (simp add: ex del: power_numeral_even power_numeral_odd)
qed

lemma rd_error: "0 \<le> x \<Longrightarrow> \<bar>rd x - x\<bar> \<le> x / 2 ^ 53"
proof (cases "x = 0")
  case False
  assume "0 \<le> x"
  then have x: "0 < x" using False by simp
  let ?p = "(2 :: rat) powi exponent x"
  have p: "0 < ?p" by simp
  have "rd x - x = (of_int (round_even (x / ?p)) - x / ?p) * ?p"
    using False p by (simp add: rd_def left_diff_distrib)
  then have "\<bar>rd x - x\<bar> \<le> 1 / 2 * ?p"
    using mult_right_mono [OF round_even_error [of "x / ?p"], of ?p] p by (simp add: abs_mult)
  also have "\<dots> \<le> x / 2 ^ 53" using exponent_bound [OF x] by simp
  finally show ?thesis .
qed (simp add: rd_def)

lemma rd_bounds:
  assumes "0 \<le> x"
  shows "x * (1 - 1 / 2 ^ 53) \<le> rd x" "rd x \<le> x * (1 + 1 / 2 ^ 53)" "0 \<le> rd x"
proof -
  have e: "rd x - x \<le> x / 2 ^ 53" "- (rd x - x) \<le> x / 2 ^ 53"
    using rd_error [OF assms] unfolding abs_le_iff by blast+
  have "x * (1 - 1 / 2 ^ 53) = x - x / 2 ^ 53" by (simp only: right_diff_distrib mult_1_right times_divide_eq_right)
  then show l: "x * (1 - 1 / 2 ^ 53) \<le> rd x" using e(2) by linarith
  have "x * (1 + 1 / 2 ^ 53) = x + x / 2 ^ 53" by (simp only: distrib_left mult_1_right times_divide_eq_right)
  then show "rd x \<le> x * (1 + 1 / 2 ^ 53)" using e(1) by linarith
  have "0 \<le> x * (1 - 1 / 2 ^ 53)" using assms by simp
  then show "0 \<le> rd x" using l by linarith
qed

end
