(* ===== verification/GoBufio.thy ===== *)
theory GoBufio
  imports GoText
begin

section \<open>Package bufio, and the fields of a line\<close>

text \<open>
  The two ways the source reads lines: \<open>Scanner\<close> for the files under \<open>/proc\<close>, and
  \<open>Reader.ReadString\<close> on connections. A stream of bytes is what it will deliver until its end.
\<close>

subsection \<open>Scanner\<close>

text \<open>
  The lines a scanner yields: without the line feed and one carriage return before it. It stops
  for good at a line that does not fit into its buffer of 65536 bytes.
\<close>

definition dropCR :: "bytes \<Rightarrow> bytes" where
  "dropCR s = (if s \<noteq> [] \<and> last s = CHR 0x0D then butlast s else s)"

lemma Cut_length: "Cut s c = (a, b, True) \<Longrightarrow> length b < length s"
  by (induction s arbitrary: a) (auto split: if_splits prod.splits simp: less_Suc_eq)

function scan_lines :: "bytes \<Rightarrow> bytes list" where
  "scan_lines s = (if s = [] then [] else case Cut s (CHR 0x0A) of (l, rest, nl) \<Rightarrow>
     if 65536 \<le> length l then [] else dropCR l # (if nl then scan_lines rest else []))"
  by pat_completeness auto
termination
  by (relation "measure length") (auto dest: Cut_length [OF sym])

declare scan_lines.simps [simp del]

lemma scan_lines_Cons:
  "CHR 0x0A \<notin> set l \<Longrightarrow> length l < 65536 \<Longrightarrow>
   scan_lines (l @ CHR 0x0A # rest) = dropCR l # scan_lines rest"
  by (subst scan_lines.simps) (simp add: Cut_append)

subsection \<open>Reader.ReadString\<close>

text \<open>
  \<open>ReadString\<close> of the line feed on what a connection still delivers: the line with its line feed,
  or what is left and an error; and what remains to be read.
\<close>

fun ReadString :: "gerror \<Rightarrow> bytes \<Rightarrow> bytes \<times> gerror option \<times> bytes" where
  "ReadString eof [] = ([], Some eof, [])"
| "ReadString eof (c # cs) = (if c = CHR 0x0A then ([c], None, cs)
     else case ReadString eof cs of (l, e, r) \<Rightarrow> (c # l, e, r))"

lemma ReadString_append:
  "CHR 0x0A \<notin> set l \<Longrightarrow> ReadString eof (l @ CHR 0x0A # r) = (l @ [CHR 0x0A], None, r)"
  by (induction l) auto

lemma ReadString_split: "ReadString eof s = (l, e, r) \<Longrightarrow> s = l @ r"
  by (induction s arbitrary: l) (auto split: if_splits prod.splits)

lemma ReadString_ok:
  "ReadString eof s = (l, None, r) \<longleftrightarrow> (\<exists>u. l = u @ [CHR 0x0A] \<and> CHR 0x0A \<notin> set u \<and> s = l @ r)"
proof (induction s arbitrary: l)
  case (Cons c cs)
  show ?case
  proof (cases "c = CHR 0x0A")
    case True
    then show ?thesis by (auto simp: Cons_eq_append_conv)
  next
    case False
    obtain m e q where m: "ReadString eof cs = (m, e, q)" by (cases "ReadString eof cs")
    show ?thesis
    proof
      assume "ReadString eof (c # cs) = (l, None, r)"
      then have "l = c # m" "ReadString eof cs = (m, None, r)" using False m by auto
      then show "\<exists>u. l = u @ [CHR 0x0A] \<and> CHR 0x0A \<notin> set u \<and> c # cs = l @ r"
        using Cons.IH [of m] False by (metis append_Cons set_ConsD)
    next
      assume "\<exists>u. l = u @ [CHR 0x0A] \<and> CHR 0x0A \<notin> set u \<and> c # cs = l @ r"
      then obtain u where u: "l = u @ [CHR 0x0A]" "CHR 0x0A \<notin> set u" "c # cs = l @ r" by blast
      then obtain v where "u = c # v" using False by (cases u) auto
      then have "ReadString eof cs = (v @ [CHR 0x0A], None, r)" using u Cons.IH by auto
      then show "ReadString eof (c # cs) = (l, None, r)" using False u \<open>u = c # v\<close> by simp
    qed
  qed
qed simp

subsection \<open>Fields of ASCII text\<close>

definition word_char :: "char \<Rightarrow> bool" where
  "word_char c \<longleftrightarrow> ascii c \<and> \<not> IsSpace (of_char c)"

definition is_word :: "bytes \<Rightarrow> bool" where
  "is_word w \<longleftrightarrow> w \<noteq> [] \<and> list_all word_char w"

lemma word_char_digit: "is_digit c \<Longrightarrow> word_char c"
proof -
  assume "is_digit c"
  then have "48 \<le> (of_char c :: nat)" "(of_char c :: nat) \<le> 57" by (simp_all add: is_digit_def less_eq_char_def)
  then show ?thesis by (auto simp: word_char_def ascii_def IsSpace_def)
qed

lemma is_word_dec_nat: "is_word (dec_nat n)"
  unfolding is_word_def list_all_iff using dec_nat_nonempty [of n] word_char_digit dec_nat_digits [of _ n] by blast

abbreviation ascii_runes :: "bytes \<Rightarrow> (nat \<times> bytes) list" where
  "ascii_runes s \<equiv> map (\<lambda>c. (of_char c, [c])) s"

lemma fields_loop_word:
  "list_all word_char w \<Longrightarrow> fields_loop cur (ascii_runes w @ rs) = fields_loop (cur @ w) rs"
  by (induction w arbitrary: cur) (simp_all add: word_char_def)

lemma IsSpace_blank: "IsSpace (of_char (CHR '' ''))" "IsSpace (of_char (CHR 0x0D))" "IsSpace (of_char (CHR 0x0A))"
  by (simp_all add: IsSpace_def)

lemma fields_loop_space:
  "list_all (\<lambda>c. IsSpace (of_char c)) sp \<Longrightarrow> sp \<noteq> [] \<Longrightarrow>
   fields_loop cur (ascii_runes sp @ rs) = (if cur = [] then [] else [cur]) @ fields_loop [] rs"
proof (induction sp arbitrary: cur)
  case (Cons c sp)
  then show ?case by (cases "sp = []") simp_all
qed simp

text \<open>A line of words, each after its white space, ends in white space or not.\<close>

fun spaced :: "(bytes \<times> bytes) list \<Rightarrow> bytes" where
  "spaced [] = []"
| "spaced ((sp, w) # ws) = sp @ w @ spaced ws"

definition blank :: "bytes \<Rightarrow> bool" where
  "blank sp \<longleftrightarrow> list_all (\<lambda>c. ascii c \<and> IsSpace (of_char c)) sp"

lemma fields_loop_spaced:
  "list_all (\<lambda>(sp, w). blank sp \<and> sp \<noteq> [] \<and> is_word w) ws \<Longrightarrow> blank tail \<Longrightarrow>
   fields_loop cur (ascii_runes (spaced ws @ tail)) = (if cur = [] then [] else [cur]) @ map snd ws"
proof (induction ws arbitrary: cur)
  case Nil
  then show ?case
    using fields_loop_space [of tail cur "[]"] by (cases "tail = []") (auto simp: blank_def list_all_iff)
next
  case (Cons p ws)
  obtain sp w where p: "p = (sp, w)" by (cases p)
  have h: "blank sp" "sp \<noteq> []" "is_word w" "list_all (\<lambda>(sp, w). blank sp \<and> sp \<noteq> [] \<and> is_word w) ws"
    using Cons.prems(1) by (simp_all add: p)
  have "fields_loop cur (ascii_runes (spaced (p # ws) @ tail)) =
      (if cur = [] then [] else [cur]) @ fields_loop w (ascii_runes (spaced ws @ tail))"
    using fields_loop_space [of sp cur "ascii_runes w @ ascii_runes (spaced ws @ tail)"]
      fields_loop_word [of w "[]" "ascii_runes (spaced ws @ tail)"] h
    by (simp add: p blank_def is_word_def list_all_iff)
  also have "fields_loop w (ascii_runes (spaced ws @ tail)) = w # map snd ws"
    using Cons.IH [OF h(4) Cons.prems(2), of w] h(3) by (simp add: is_word_def)
  finally show ?case by (simp add: p)
qed

lemma spaced_ascii:
  "list_all (\<lambda>(sp, w). blank sp \<and> sp \<noteq> [] \<and> is_word w) ws \<Longrightarrow> c \<in> set (spaced ws) \<Longrightarrow> ascii c"
  by (induction ws rule: spaced.induct) (auto simp: blank_def is_word_def word_char_def list_all_iff)

theorem Fields_spaced:
  assumes "is_word w" "list_all (\<lambda>(sp, w). blank sp \<and> sp \<noteq> [] \<and> is_word w) ws" "blank tail"
  shows "Fields (w @ spaced ws @ tail) = w # map snd ws"
proof -
  have "\<forall>c\<in>set (w @ spaced ws @ tail). ascii c"
    using assms spaced_ascii [OF assms(2)] by (auto simp: is_word_def word_char_def blank_def list_all_iff)
  then have "Fields (w @ spaced ws @ tail) = fields_loop [] (ascii_runes w @ ascii_runes (spaced ws @ tail))"
    unfolding Fields_def by (simp add: runes_ascii)
  also have "\<dots> = w # map snd ws"
    using fields_loop_word [of w "[]" "ascii_runes (spaced ws @ tail)"] fields_loop_spaced [OF assms(2,3), of w] assms(1)
    by (simp add: is_word_def)
  finally show ?thesis .
qed

end
