(* ===== verification/SysLoad.thy ===== *)
theory SysLoad
  imports Float64 GoBufio
begin

section \<open>internal/worker/sysload.go: the load of the agent\<close>

text \<open>
  The gauges of open egress connections and the percentages sent with every heartbeat. The content
  of \<open>/proc/stat\<close> and \<open>/proc/meminfo\<close> (\<open>None\<close> when the file cannot be opened) and the answer of
  statfs are arguments; everything that is made of them is written out, on \<open>uint64\<close> and \<open>float64\<close>.
\<close>

subsection \<open>Gauges\<close>

record gauges =
  activeProxy :: i64
  activeProxyTor :: i64

definition egressBegin :: "bool \<Rightarrow> gauges \<Rightarrow> gauges" where
  "egressBegin viaTor g = (if viaTor then g\<lparr>activeProxyTor := activeProxyTor g + 1\<rparr>
     else g\<lparr>activeProxy := activeProxy g + 1\<rparr>)"

definition egressEnd :: "bool \<Rightarrow> gauges \<Rightarrow> gauges" where
  "egressEnd viaTor g = (if viaTor then g\<lparr>activeProxyTor := activeProxyTor g + - 1\<rparr>
     else g\<lparr>activeProxy := activeProxy g + - 1\<rparr>)"

definition connsByService :: "gauges \<Rightarrow> (bytes \<rightharpoonup> i32)" where
  "connsByService g =
     (let m = Map.empty;
          m = (let v = activeProxy g in if 0 < sint v then m(''proxy'' \<mapsto> ucast v) else m)
      in let v = activeProxyTor g in if 0 < sint v then m(''proxy-tor'' \<mapsto> ucast v) else m)"

subsection \<open>Percentages\<close>

definition clampPct :: "rat \<Rightarrow> i32" where
  "clampPct p = (if p < 0 then 0 else if 100 < p then 100 else of_int (f_trunc (f_add p (1 / 2))))"

text \<open>\<open>float64(part) / float64(whole) * 100\<close>, which three functions compute.\<close>

definition percent :: "u64 \<Rightarrow> u64 \<Rightarrow> rat" where
  "percent part whole = f_mul (f_div (f_of_nat (unat part)) (f_of_nat (unat whole))) 100"

record cpuSample =
  total :: u64
  idle :: u64

text \<open>The loop over the fields of the line, from field \<open>i\<close> on.\<close>

fun cpu_fields :: "nat \<Rightarrow> bytes list \<Rightarrow> cpuSample \<Rightarrow> cpuSample" where
  "cpu_fields i [] s = s"
| "cpu_fields i (f # fs) s = (case ParseUint f of
     (v, Some e) \<Rightarrow> cpu_fields (Suc i) fs s
   | (v, None) \<Rightarrow> cpu_fields (Suc i) fs
       (let s = s\<lparr>total := total s + v\<rparr> in if i = 4 \<or> i = 5 then s\<lparr>idle := idle s + v\<rparr> else s))"

definition readCPUSample :: "bytes option \<Rightarrow> cpuSample \<times> bool" where
  "readCPUSample stat = (let none = (\<lparr>total = 0, idle = 0\<rparr>, False) in
     case stat of None \<Rightarrow> none | Some text \<Rightarrow>
       (case scan_lines text of [] \<Rightarrow> none | l # _ \<Rightarrow>
          let fields = Fields l in
          if length fields < 5 \<or> hd fields \<noteq> ''cpu'' then none
          else (cpu_fields 1 (tl fields) \<lparr>total = 0, idle = 0\<rparr>, True)))"

definition cpuPct :: "cpuSample \<Rightarrow> cpuSample \<Rightarrow> i32 \<times> bool" where
  "cpuPct prev cur =
     (let dt = total cur - total prev; di = idle cur - idle prev
      in if dt = 0 \<or> total cur < total prev then (0, False)
         else (clampPct (percent (dt - di) dt), True))"

definition parseMeminfo :: "bytes \<Rightarrow> u64" where
  "parseMeminfo l = (let fields = Fields l in
     if length fields < 2 then 0 else fst (ParseUint (fields ! 1)))"

text \<open>The loop over the lines: the totals and the available memory read so far.\<close>

fun mem_lines :: "bytes list \<Rightarrow> u64 \<times> u64 \<Rightarrow> u64 \<times> u64" where
  "mem_lines [] ta = ta"
| "mem_lines (l # ls) (t, a) =
     (if HasPrefix l ''MemTotal:'' then mem_lines ls (parseMeminfo l, a)
      else if HasPrefix l ''MemAvailable:'' then mem_lines ls (t, parseMeminfo l)
      else mem_lines ls (t, a))"

definition memPct :: "bytes option \<Rightarrow> i32" where
  "memPct meminfo = (case meminfo of None \<Rightarrow> 0 | Some text \<Rightarrow>
     case mem_lines (scan_lines text) (0, 0) of (tot, avail) \<Rightarrow>
       if tot = 0 then 0 else clampPct (percent (tot - avail) tot))"

record Statfs_t =
  Blocks :: u64
  Bavail :: u64

definition diskPct :: "Statfs_t option \<Rightarrow> i32" where
  "diskPct st = (case st of None \<Rightarrow> 0 | Some st \<Rightarrow>
     if Blocks st = 0 then 0
     else let used = Blocks st - Bavail st in clampPct (percent used (Blocks st)))"

subsection \<open>Bounds and accuracy of a percentage\<close>

lemma f_trunc_nonneg: "0 \<le> x \<Longrightarrow> f_trunc x = \<lfloor>x\<rfloor>"
  by (simp add: f_trunc_def)

text \<open>Adding a half and truncating, on 0 to 100, before the conversion to \<open>int32\<close>.\<close>

lemma trunc_half:
  assumes "0 \<le> p" "p \<le> 100"
  shows "0 \<le> f_trunc (f_add p (1 / 2))" "f_trunc (f_add p (1 / 2)) \<le> 100"
    "\<bar>of_int (f_trunc (f_add p (1 / 2))) - p\<bar> \<le> 1 / 2 + 1 / 10 ^ 13"
proof -
  let ?y = "rd (p + 1 / 2)"
  have e: "\<bar>?y - (p + 1 / 2)\<bar> \<le> (p + 1 / 2) / 2 ^ 53" "0 \<le> ?y"
    using rd_error [of "p + 1 / 2"] rd_bounds [of "p + 1 / 2"] assms by simp_all
  have t: "f_trunc (f_add p (1 / 2)) = \<lfloor>?y\<rfloor>" using e(2) by (simp add: f_add_def f_trunc_nonneg)
  have f: "of_int \<lfloor>?y\<rfloor> \<le> ?y" "?y < of_int \<lfloor>?y\<rfloor> + 1" by linarith+
  have "(p + 1 / 2) / 2 ^ 53 \<le> 1 / 10 ^ 13" using assms by simp
  then have y: "?y \<le> p + 1 / 2 + 1 / 10 ^ 13" "p + 1 / 2 - 1 / 10 ^ 13 \<le> ?y"
    using e(1) unfolding abs_le_iff by linarith+
  show "0 \<le> f_trunc (f_add p (1 / 2))" using e(2) by (simp add: t)
  have "(of_int \<lfloor>?y\<rfloor> :: rat) < of_int 101" using y(1) f(1) assms by simp
  then have "\<lfloor>?y\<rfloor> < 101" by (simp only: of_int_less_iff)
  then show "f_trunc (f_add p (1 / 2)) \<le> 100" by (simp add: t)
  show "\<bar>of_int (f_trunc (f_add p (1 / 2))) - p\<bar> \<le> 1 / 2 + 1 / 10 ^ 13"
    unfolding t abs_le_iff using f y by linarith
qed

lemma sint_small: "0 \<le> i \<Longrightarrow> i \<le> 100 \<Longrightarrow> sint (of_int i :: i32) = i"
  by (simp add: signed_of_int signed_take_bit_int_eq_self)

lemma clampPct_range: "0 \<le> sint (clampPct p) \<and> sint (clampPct p) \<le> 100"
  using trunc_half [of p] by (auto simp: clampPct_def sint_small)

lemma clampPct_close:
  assumes "0 \<le> p"
  shows "\<bar>of_int (sint (clampPct p)) - min p 100\<bar> \<le> 1 / 2 + 1 / 10 ^ 13"
proof (cases "p \<le> 100")
  case True
  then show ?thesis using trunc_half [of p] assms by (simp add: clampPct_def sint_small)
next
  case False
  then show ?thesis by (simp add: clampPct_def)
qed

text \<open>The relative error of a division, and of a percentage.\<close>

lemma quotient_close:
  assumes "0 \<le> a" "0 < b" and u: "u = 1 / 2 ^ 53"
    and A: "a * (1 - u) \<le> A" "A \<le> a * (1 + u)" "0 \<le> A" and B: "b * (1 - u) \<le> B" "B \<le> b * (1 + u)" "0 < (B :: rat)"
  shows "a / b * (1 - 2 * u) \<le> A / B" "A / B \<le> a / b * (1 + 3 * u)"
proof -
  have r: "0 \<le> a / b" using assms(1,2) by simp
  have "A / B \<le> (a * (1 + u)) / (b * (1 - u))" using assms by (intro frac_le) (simp_all add: u)
  also have "\<dots> = a / b * ((1 + u) / (1 - u))" by simp
  also have "\<dots> \<le> a / b * (1 + 3 * u)" using r by (intro mult_left_mono) (simp_all add: u)
  finally show "A / B \<le> a / b * (1 + 3 * u)" .
  have "a / b * (1 - 2 * u) \<le> a / b * ((1 - u) / (1 + u))" using r by (intro mult_left_mono) (simp_all add: u)
  also have "\<dots> = (a * (1 - u)) / (b * (1 + u))" by simp
  also have "\<dots> \<le> A / B" using A B assms(1,2) by (intro frac_le) (simp_all add: u)
  finally show "a / b * (1 - 2 * u) \<le> A / B" .
qed

lemma percentage_close:
  assumes r: "0 \<le> r" "r \<le> 1" and u: "u = 1 / 2 ^ 53" and q: "r * (1 - 2 * u) \<le> q" "q \<le> r * (1 + 3 * u)"
    and Q: "q * (1 - u) \<le> Q" "Q \<le> q * (1 + u)" and P: "Q * 100 * (1 - u) \<le> P" "P \<le> Q * 100 * (1 + (u :: rat))"
  shows "\<bar>P - 100 * r\<bar> \<le> 1 / 10 ^ 12"
proof -
  have u0: "0 \<le> u" "0 \<le> 1 - u" by (simp_all add: u)
  note P(2)
  also have "Q * 100 * (1 + u) \<le> q * (1 + u) * 100 * (1 + u)" using Q(2) u0 by (intro mult_right_mono) simp_all
  also have "\<dots> \<le> r * (1 + 3 * u) * (1 + u) * 100 * (1 + u)" using q u0 by (intro mult_right_mono) simp_all
  also have "\<dots> = r * (100 * ((1 + 3 * u) * (1 + u) * (1 + u)))" by simp
  also have "\<dots> \<le> r * (100 + 1 / 10 ^ 12)" using r(1) by (intro mult_left_mono) (simp_all add: u)
  also have "\<dots> = 100 * r + r * (1 / 10 ^ 12)" by (simp add: distrib_left)
  also have "\<dots> \<le> 100 * r + 1 / 10 ^ 12" using r(2) by simp
  finally have hi: "P \<le> 100 * r + 1 / 10 ^ 12" .
  have "100 * r - 1 / 10 ^ 12 \<le> 100 * r - r * (1 / 10 ^ 12)" using r(2) by simp
  also have "\<dots> = r * (100 - 1 / 10 ^ 12)" by (simp add: right_diff_distrib)
  also have "\<dots> \<le> r * (100 * ((1 - 2 * u) * (1 - u) * (1 - u)))"
    using r(1) by (intro mult_left_mono) (simp_all add: u)
  also have "\<dots> = r * (1 - 2 * u) * (1 - u) * 100 * (1 - u)" by simp
  also have "\<dots> \<le> q * (1 - u) * 100 * (1 - u)" using q u0 by (intro mult_right_mono) simp_all
  also have "\<dots> \<le> Q * 100 * (1 - u)" using Q(1) u0 by (intro mult_right_mono) simp_all
  also note P(1)
  finally show ?thesis using hi unfolding abs_le_iff by linarith
qed

lemma percent_close:
  assumes "0 < whole" "part \<le> whole"
  shows "0 \<le> percent part whole"
    "\<bar>percent part whole - 100 * of_nat (unat part) / of_nat (unat whole)\<bar> \<le> 1 / 10 ^ 12"
proof -
  define u :: rat where "u = 1 / 2 ^ 53"
  define a :: rat where "a = of_nat (unat part)"
  define b :: rat where "b = of_nat (unat whole)"
  have b: "0 < b" "0 \<le> a" "a \<le> b"
    using assms unfolding word_less_nat_alt word_le_nat_alt a_def b_def
    by (simp_all only: of_nat_0_less_iff of_nat_le_iff of_nat_0_le_iff unat_0)
  note rd = rd_bounds [unfolded u_def [symmetric]]
  have "0 < b * (1 - u)" using b(1) by (simp add: u_def)
  then have B0: "0 < rd b" using rd(1) [of b] b by linarith
  have q0: "0 \<le> rd a / rd b" using rd(3) [of a] B0 b by simp
  have p: "percent part whole = rd (rd (rd a / rd b) * 100)"
    by (simp add: percent_def f_mul_def f_div_def f_of_nat_def a_def b_def)
  show "0 \<le> percent part whole" using rd(3) q0 by (simp add: p)
  have q: "a / b * (1 - 2 * u) \<le> rd a / rd b" "rd a / rd b \<le> a / b * (1 + 3 * u)"
    using quotient_close [OF b(2,1) u_def rd(1-3) [OF b(2)] rd(1,2) B0] b by simp_all
  have "\<bar>percent part whole - 100 * (a / b)\<bar> \<le> 1 / 10 ^ 12"
    unfolding p using b rd(3) [OF q0]
    by (intro percentage_close [OF _ _ u_def q rd(1,2) [OF q0] rd(1,2)]) simp_all
  then show "\<bar>percent part whole - 100 * of_nat (unat part) / of_nat (unat whole)\<bar> \<le> 1 / 10 ^ 12"
    by (simp add: a_def b_def)
qed

lemma load_close:
  assumes "0 < whole" "part \<le> whole"
  shows "\<bar>of_int (sint (clampPct (percent part whole))) - 100 * of_nat (unat part) / of_nat (unat whole)\<bar>
    \<le> (1 / 2 + 1 / 10 ^ 11 :: rat)"
proof -
  let ?e = "100 * of_nat (unat part) / of_nat (unat whole) :: rat"
  have "unat part \<le> unat whole" using assms(2) by (simp add: word_le_nat_alt)
  then have "(of_nat (unat part) :: rat) \<le> of_nat (unat whole)" by (rule of_nat_mono)
  moreover have "(0 :: rat) < of_nat (unat whole)" using assms(1) by (simp only: of_nat_0_less_iff word_less_nat_alt unat_0)
  ultimately have "?e \<le> 100" by (simp add: divide_le_eq)
  then have "\<bar>min (percent part whole) 100 - ?e\<bar> \<le> 1 / 10 ^ 12"
    using percent_close(2) [OF assms] unfolding abs_le_iff min_def by (auto simp del: of_nat_unat)
  moreover have "1 / 10 ^ 12 + 1 / 10 ^ 13 \<le> (1 / 10 ^ 11 :: rat)" by simp
  ultimately show ?thesis
    using clampPct_close [OF percent_close(1) [OF assms]] unfolding abs_le_iff by linarith
qed

text \<open>A part that exceeds the whole is shown as 100.\<close>

lemma percent_over:
  assumes "0 < whole" "whole \<le> part"
  shows "100 - 1 / 10 ^ 12 \<le> percent part whole"
proof -
  define u :: rat where "u = 1 / 2 ^ 53"
  define a :: rat where "a = of_nat (unat part)"
  define b :: rat where "b = of_nat (unat whole)"
  have b: "0 < b" "0 \<le> a" "b \<le> a"
    using assms unfolding word_less_nat_alt word_le_nat_alt a_def b_def
    by (simp_all only: of_nat_0_less_iff of_nat_le_iff of_nat_0_le_iff unat_0)
  note rd = rd_bounds [unfolded u_def [symmetric]]
  have u0: "0 \<le> 1 - u" "0 \<le> 1 - 2 * u" by (simp_all add: u_def)
  have "0 < b * (1 - u)" using b(1) by (simp add: u_def)
  then have B0: "0 < rd b" using rd(1) [of b] b by linarith
  have q0: "0 \<le> rd a / rd b" using rd(3) [of a] B0 b by simp
  have "1 * (1 - 2 * u) \<le> a / b * (1 - 2 * u)" using b u0 by (intro mult_right_mono) simp_all
  also have "\<dots> \<le> rd a / rd b"
    using quotient_close [OF b(2,1) u_def rd(1-3) [OF b(2)] rd(1,2) B0] b by simp
  finally have q: "1 - 2 * u \<le> rd a / rd b" by simp
  have "100 - 1 / 10 ^ 12 \<le> (1 - 2 * u) * (1 - u) * 100 * (1 - u)" by (simp add: u_def)
  also have "\<dots> \<le> rd a / rd b * (1 - u) * 100 * (1 - u)" using q u0 by (intro mult_right_mono) simp_all
  also have "\<dots> \<le> rd (rd a / rd b) * 100 * (1 - u)" using rd(1) [OF q0] u0 by (intro mult_right_mono) simp_all
  also have "\<dots> \<le> rd (rd (rd a / rd b) * 100)" using rd(1) [of "rd (rd a / rd b) * 100"] rd(3) [OF q0] by simp
  finally show ?thesis by (simp add: percent_def f_mul_def f_div_def f_of_nat_def a_def b_def)
qed

lemma clampPct_top: "100 - 1 / 10 ^ 12 \<le> p \<Longrightarrow> sint (clampPct p) = 100"
proof -
  assume p: "100 - 1 / 10 ^ 12 \<le> p"
  then have "0 \<le> p" by (rule order_trans [rotated]) simp
  then have "min p 100 - of_int (sint (clampPct p)) \<le> 1 / 2 + 1 / 10 ^ 13"
    using clampPct_close unfolding abs_le_iff by fastforce
  moreover have "100 - 1 / 10 ^ 12 \<le> min p 100" using p by simp
  moreover have "(99 :: rat) < 100 - 1 / 10 ^ 12 - (1 / 2 + 1 / 10 ^ 13)" by simp
  ultimately have "(of_int 99 :: rat) < of_int (sint (clampPct p))" by (simp only: of_int_numeral)
  then have "99 < sint (clampPct p)" by (simp only: of_int_less_iff)
  then show ?thesis using clampPct_range [of p] by simp
qed

lemma word_diff_less: "(p :: u64) < c \<Longrightarrow> 0 < c - p"
  by (simp add: word_greater_zero_iff)

lemma word_diff_part: "(d :: u64) \<le> w \<Longrightarrow> w - d \<le> w"
  by (rule word_sub_le)

subsection \<open>The lines of \<open>/proc/stat\<close>\<close>

definition stat_line :: "u64 list \<Rightarrow> bytes" where
  "stat_line ns = ''cpu'' @ spaced (map (\<lambda>n. ('' '', dec_nat (unat n))) ns)"

lemma cpu_fields_tail:
  "5 < i \<Longrightarrow> cpu_fields i (map (\<lambda>n. dec_nat (unat n)) ns) s = s\<lparr>total := total s + sum_list ns\<rparr>"
  by (induction ns arbitrary: i s) (simp_all add: Let_def add.assoc)

text \<open>Fields 4 and 5 of the line count as idle.\<close>

lemma cpu_fields_dec:
  assumes "4 \<le> length ns"
  shows "cpu_fields 1 (map (\<lambda>n. dec_nat (unat n)) ns) s =
     \<lparr>total = total s + sum_list ns,
      idle = idle s + (ns ! 3 + (if 4 < length ns then ns ! 4 else 0)), \<dots> = cpuSample.more s\<rparr>"
proof -
  obtain u n sy i ns' where ns: "ns = u # n # sy # i # ns'"
    using assms by (auto simp: Suc_le_length_iff numeral_eq_Suc)
  show ?thesis
    by (cases ns') (simp_all add: ns numeral_eq_Suc Let_def add.assoc cpu_fields_tail)
qed

lemma stat_line_words:
  "list_all (\<lambda>(sp, w). blank sp \<and> sp \<noteq> [] \<and> is_word w) (map (\<lambda>n. ('' '', dec_nat (unat n))) ns)"
  by (simp add: list_all_iff is_word_dec_nat blank_def ascii_def IsSpace_def)

lemma cpu_word: "is_word ''cpu''"
  by (simp add: is_word_def word_char_def ascii_def IsSpace_def)

lemma Fields_stat_line: "Fields (stat_line ns) = ''cpu'' # map (\<lambda>n. dec_nat (unat n)) ns"
proof -
  have "Fields (''cpu'' @ spaced (map (\<lambda>n. ('' '', dec_nat (unat n))) ns) @ []) =
      ''cpu'' # map snd (map (\<lambda>n. ('' '', dec_nat (unat n))) ns)"
    by (rule Fields_spaced [OF cpu_word stat_line_words]) (simp add: blank_def)
  then show ?thesis unfolding stat_line_def append_Nil2 map_map comp_def snd_conv .
qed

lemma word_not_break: "is_word w \<Longrightarrow> CHR 0x0A \<notin> set w \<and> CHR 0x0D \<notin> set w"
  by (auto simp: is_word_def list_all_iff word_char_def IsSpace_def)

lemma stat_line_no_break: "c \<in> set (stat_line ns) \<Longrightarrow> c \<noteq> CHR 0x0A \<and> c \<noteq> CHR 0x0D"
proof -
  have "c \<in> set (spaced (map (\<lambda>n. ('' '', dec_nat (unat n))) ns)) \<Longrightarrow> c \<noteq> CHR 0x0A \<and> c \<noteq> CHR 0x0D"
    using word_not_break [OF is_word_dec_nat] by (induction ns) auto
  then show "c \<in> set (stat_line ns) \<Longrightarrow> c \<noteq> CHR 0x0A \<and> c \<noteq> CHR 0x0D" by (auto simp: stat_line_def)
qed

lemma dropCR_stat_line: "dropCR (stat_line ns) = stat_line ns"
  unfolding dropCR_def using stat_line_no_break [OF last_in_set] by auto

subsection \<open>The gauges over a run\<close>

text \<open>The atomic additions of all goroutines, in the order they take effect.\<close>

datatype gauge_op = Begin bool | End bool

fun gauge_step :: "gauge_op \<Rightarrow> gauges \<Rightarrow> gauges" where
  "gauge_step (Begin viaTor) g = egressBegin viaTor g"
| "gauge_step (End viaTor) g = egressEnd viaTor g"

definition open_conns :: "bool \<Rightarrow> gauge_op list \<Rightarrow> int" where
  "open_conns viaTor ops = int (length (filter (\<lambda>op. op = Begin viaTor) ops)) - int (length (filter (\<lambda>op. op = End viaTor) ops))"

lemma gauges_run:
  "fold gauge_step ops g = \<lparr>activeProxy = activeProxy g + of_int (open_conns False ops),
     activeProxyTor = activeProxyTor g + of_int (open_conns True ops)\<rparr>"
proof (induction ops arbitrary: g)
  case (Cons op ops)
  then show ?case
    by (cases op) (auto simp: open_conns_def egressBegin_def egressEnd_def)
qed (simp add: open_conns_def)

lemma sint_of_int_i64: "0 \<le> n \<Longrightarrow> n < 2 ^ 31 \<Longrightarrow> sint (of_int n :: i64) = n"
  by (simp add: signed_of_int signed_take_bit_int_eq_self)

lemma ucast_of_int_i32: "ucast (of_int n :: i64) = (of_int n :: i32)"
  by (rule bit_word_eqI) (simp add: bit_simps)


subsection \<open>Properties\<close>

text \<open>By how much a counter advanced between two samples.\<close>

definition advance :: "(cpuSample \<Rightarrow> u64) \<Rightarrow> cpuSample \<Rightarrow> cpuSample \<Rightarrow> nat" where
  "advance counter prev cur = unat (counter cur) - unat (counter prev)"

text \<open>Whatever \<open>/proc\<close> and statfs answer, each of the three percentages of a heartbeat lies
  between 0 and 100.\<close>

theorem load_in_range:
  "list_all (\<lambda>p. 0 \<le> sint p \<and> sint p \<le> 100) [fst (cpuPct prev cur), memPct meminfo, diskPct st]"
  using clampPct_range
  by (auto simp: cpuPct_def memPct_def diskPct_def Let_def split: option.split prod.split)

text \<open>Of two differences that wrap, the second larger than the first.\<close>

lemma word_diff_wraps: "t < d \<Longrightarrow> t \<le> t - (d :: u64)"
  using unsigned_less [of d, where ?'a = nat]
  by (simp add: word_less_nat_alt word_le_nat_alt unat_sub_if_size word_size)

lemma advance_word: "counter prev \<le> counter cur \<Longrightarrow> unat (counter cur - counter prev) = advance counter prev cur"
  by (simp add: advance_def unat_sub)

lemma receded_word:
  assumes "c < (p :: u64)" "unat t + (unat p - unat c) < 2 ^ 64"
  shows "t < c - p"
  using assms by (simp add: word_less_nat_alt unat_sub_if_size word_size)

text \<open>C40: The CPU percentage is given exactly when the total advanced since the last sample. If
  the idle time did not recede and advanced by no more than the total, it is within half a percent of
  the exact share of time that was not idle (up to the rounding of \<open>float64\<close>). Otherwise, when the idle
  time outran the total, or receded (the two advances together below \<open>2^64\<close>), it is 100: the
  code guards only against a receding total.\<close>

theorem cpu_load_accurate:
  shows "if total cur \<le> total prev then cpuPct prev cur = (0, False)
    else \<exists>pct. cpuPct prev cur = (pct, True) \<and>
      (if idle prev \<le> idle cur \<and> advance idle prev cur \<le> advance total prev cur
       then \<bar>of_int (sint pct) - 100 * of_nat (advance total prev cur - advance idle prev cur) / of_nat (advance total prev cur)\<bar>
          \<le> (1 / 2 + 1 / 10 ^ 11 :: rat)
       else (idle cur < idle prev \<longrightarrow> advance total prev cur + advance idle cur prev < 2 ^ 64) \<longrightarrow> sint pct = 100)"
proof (cases "total cur \<le> total prev")
  case True
  then show ?thesis by (auto simp: cpuPct_def Let_def)
next
  case False
  let ?dt = "total cur - total prev" and ?di = "idle cur - idle prev"
  have pos: "0 < ?dt" using False by (intro word_diff_less) simp
  have c: "cpuPct prev cur = (clampPct (percent (?dt - ?di) ?dt), True)"
    using False pos by (auto simp: cpuPct_def Let_def)
  have T: "unat ?dt = advance total prev cur" using False by (intro advance_word) simp
  show ?thesis
  proof (cases "idle prev \<le> idle cur \<and> advance idle prev cur \<le> advance total prev cur")
    case ok: True
    then have I: "unat ?di = advance idle prev cur" by (intro advance_word) simp
    have le: "?di \<le> ?dt" using ok T I by (simp add: word_le_nat_alt)
    have D: "unat (?dt - ?di) = advance total prev cur - advance idle prev cur" using unat_sub [OF le] T I by simp
    show ?thesis using load_close [OF pos word_diff_part [OF le]] False ok unfolding c T D by simp
  next
    case over: False
    have "sint (clampPct (percent (?dt - ?di) ?dt)) = 100"
      if "idle cur < idle prev \<longrightarrow> advance total prev cur + advance idle cur prev < 2 ^ 64"
    proof -
      have "?dt < ?di"
      proof (cases "idle prev \<le> idle cur")
        case True
        then show ?thesis using over T advance_word [of idle prev cur] by (simp add: word_less_nat_alt)
      next
        case False
        then show ?thesis using that T by (intro receded_word) (simp_all add: advance_def)
      qed
      then show ?thesis by (intro clampPct_top percent_over [OF pos] word_diff_wraps)
    qed
    then show ?thesis using False over unfolding c by auto
  qed
qed

theorem cpu_load_accurate_witness:
  "(\<exists>pct. cpuPct \<lparr>total = 1000, idle = 500\<rparr> \<lparr>total = 1100, idle = 525\<rparr> = (pct, True)
     \<and> \<bar>of_int (sint pct) - 75\<bar> \<le> (1 / 2 + 1 / 10 ^ 11 :: rat))
   \<and> (\<exists>pct. cpuPct \<lparr>total = 1000, idle = 500\<rparr> \<lparr>total = 1100, idle = 499\<rparr> = (pct, True) \<and> sint pct = 100)"
  using cpu_load_accurate [of "\<lparr>total = 1100, idle = 525\<rparr>" "\<lparr>total = 1000, idle = 500\<rparr>"]
    cpu_load_accurate [of "\<lparr>total = 1100, idle = 499\<rparr>" "\<lparr>total = 1000, idle = 500\<rparr>"]
  by (simp add: advance_def)

text \<open>The memory percentage is within half a percent of the exact share of memory that is
  not available, when the file gives a total and no more than it as available; the disk percentage
  is within half a percent of the share of blocks that are not available.\<close>

theorem memory_and_disk_accurate:
  assumes "mem_lines (scan_lines text) (0, 0) = (t, a)" "0 < t" "a \<le> t"
    and "0 < Blocks st" "Bavail st \<le> Blocks st"
  shows "\<bar>of_int (sint (memPct (Some text))) - 100 * of_nat (unat t - unat a) / of_nat (unat t)\<bar>
      \<le> (1 / 2 + 1 / 10 ^ 11 :: rat)
    \<and> \<bar>of_int (sint (diskPct (Some st))) - 100 * of_nat (unat (Blocks st) - unat (Bavail st)) / of_nat (unat (Blocks st))\<bar>
      \<le> (1 / 2 + 1 / 10 ^ 11 :: rat)"
proof
  have "memPct (Some text) = clampPct (percent (t - a) t)"
    using assms(1,2) by (simp add: memPct_def word_greater_zero_iff)
  then show "\<bar>of_int (sint (memPct (Some text))) - 100 * of_nat (unat t - unat a) / of_nat (unat t)\<bar>
      \<le> (1 / 2 + 1 / 10 ^ 11 :: rat)"
    using load_close [OF assms(2) word_diff_part [OF assms(3)]] unat_sub [OF assms(3)] by metis
  have "diskPct (Some st) = clampPct (percent (Blocks st - Bavail st) (Blocks st))"
    using assms(4) by (simp add: diskPct_def word_greater_zero_iff)
  then show "\<bar>of_int (sint (diskPct (Some st))) - 100 * of_nat (unat (Blocks st) - unat (Bavail st)) / of_nat (unat (Blocks st))\<bar>
      \<le> (1 / 2 + 1 / 10 ^ 11 :: rat)"
    using load_close [OF assms(4) word_diff_part [OF assms(5)]] unat_sub [OF assms(5)] by metis
qed

text \<open>The first line of \<open>/proc/stat\<close>, printed from at least four counters, is read back:
  the total is their sum (modulo \<open>2^64\<close>), the idle time the fourth and fifth counter.\<close>

theorem proc_stat_readback:
  assumes "4 \<le> length ns" "length (stat_line ns) < 65536"
  shows "readCPUSample (Some (stat_line ns @ CHR 0x0A # rest)) =
    (\<lparr>total = sum_list ns, idle = ns ! 3 + (if 4 < length ns then ns ! 4 else 0)\<rparr>, True)"
proof -
  have "CHR 0x0A \<notin> set (stat_line ns)" using stat_line_no_break by blast
  then have l: "scan_lines (stat_line ns @ CHR 0x0A # rest) = stat_line ns # scan_lines rest"
    using scan_lines_Cons [OF _ assms(2)] dropCR_stat_line by simp
  show ?thesis
    using assms(1) cpu_fields_dec [OF assms(1), of "\<lparr>total = 0, idle = 0\<rparr>"]
    by (simp add: readCPUSample_def l Fields_stat_line Let_def)
qed

theorem proc_stat_readback_witness:
  "readCPUSample (Some (stat_line [10, 20, 30, 40, 50] @ CHR 0x0A # ''cpu0 1 2 3 4'')) =
    (\<lparr>total = 150, idle = 90\<rparr>, True)"
proof -
  have "length (stat_line [10, 20, 30, 40, 50]) < 65536" by code_simp
  from proc_stat_readback [OF _ this, of "''cpu0 1 2 3 4''"] show ?thesis by simp
qed

text \<open>The gauges count the open connections: after any interleaving of the additions of all
  connections, a heartbeat reports for each service the number of connections begun and not ended,
  and leaves out a service without one.\<close>

theorem gauges_count_open:
  assumes "\<And>viaTor. 0 \<le> open_conns viaTor ops \<and> open_conns viaTor ops < 2 ^ 31"
  shows "connsByService (fold gauge_step ops \<lparr>activeProxy = 0, activeProxyTor = 0\<rparr>) = (\<lambda>svc.
    if svc = ''proxy'' \<and> 0 < open_conns False ops then Some (of_int (open_conns False ops))
    else if svc = ''proxy-tor'' \<and> 0 < open_conns True ops then Some (of_int (open_conns True ops))
    else None)"
  using assms [of False] assms [of True]
  by (auto simp: connsByService_def gauges_run sint_of_int_i64 ucast_of_int_i32 Let_def fun_eq_iff)

theorem gauges_count_open_witness:
  "connsByService (fold gauge_step [Begin False, Begin True, Begin True, End True]
     \<lparr>activeProxy = 0, activeProxyTor = 0\<rparr>) ''proxy-tor'' = Some 1"
proof -
  have "0 \<le> open_conns b [Begin False, Begin True, Begin True, End True]
      \<and> open_conns b [Begin False, Begin True, Begin True, End True] < 2 ^ 31" for b
    by (simp add: open_conns_def)
  from gauges_count_open [OF this] show ?thesis by (simp add: open_conns_def)
qed

end
