(* ===== verification/Tor.thy ===== *)
theory Tor
  imports GoBufio
begin

section \<open>internal/worker/tor.go: new circuits through the control port\<close>

text \<open>
  The environment variables, the cookie file and the control port are arguments. A control port is
  given by what it does after the lines written to it so far: it refuses the last of them, or
  delivers further bytes, after which reading fails with an error (closed or out of time). The
  state of a connection is the lines written and the bytes that arrived and are not yet read.
\<close>

record tor_conn =
  tc_Write :: "bytes list \<Rightarrow> gerror option"
  tc_deliver :: "bytes list \<Rightarrow> bytes"
  tc_read_err :: "bytes list \<Rightarrow> gerror"

record tor_env =
  te_Getenv :: "bytes \<Rightarrow> bytes"
  te_ReadFile :: "bytes \<Rightarrow> gerror + bytes"
  te_Dial :: "bytes \<Rightarrow> gerror + tor_conn"
  te_quote :: "bytes \<Rightarrow> bytes"

definition torControlAddr :: bytes where "torControlAddr = ''127.0.0.1:9051''"
definition torCookiePath :: bytes where "torCookiePath = ''/run/tor/control.authcookie''"

definition envOr :: "(bytes \<Rightarrow> bytes) \<Rightarrow> bytes \<Rightarrow> bytes \<Rightarrow> bytes" where
  "envOr Getenv key def = (if Getenv key \<noteq> [] then Getenv key else def)"

definition CRLF :: bytes where "CRLF = [CHR 0x0D, CHR 0x0A]"

definition torCmd :: "tor_env \<Rightarrow> tor_conn \<Rightarrow> bytes \<Rightarrow> bytes list \<times> bytes \<Rightarrow> gerror option \<times> bytes list \<times> bytes" where
  "torCmd E conn cmd st = (case st of (sent, unread) \<Rightarrow>
     let sent = sent @ [cmd @ CRLF] in
     case tc_Write conn sent of
       Some err \<Rightarrow> (Some err, sent, unread)
     | None \<Rightarrow>
         (case ReadString (tc_read_err conn sent) (unread @ tc_deliver conn sent) of
            (line, Some err, r) \<Rightarrow> (Some err, sent, r)
          | (line, None, r) \<Rightarrow>
              let line = TrimSpace line in
              if \<not> HasPrefix line ''250''
              then (Some (ErrText (''r'' @ [CHR 0xC3, CHR 0xA9] @ ''ponse tor inattendue: '' @ te_quote E line)), sent, r)
              else (None, sent, r)))"

text \<open>\<open>rotateTor\<close>: the error, and the lines written to the control port.\<close>

definition rotateTor :: "tor_env \<Rightarrow> gerror option \<times> bytes list" where
  "rotateTor E =
     (let addr = envOr (te_Getenv E) ''MMH_TOR_CONTROL_ADDR'' torControlAddr;
          cookiePath = envOr (te_Getenv E) ''MMH_TOR_COOKIE_PATH'' torCookiePath
      in case te_ReadFile E cookiePath of
           Inl err \<Rightarrow> (Some (Wrapped (''lecture cookie tor '' @ cookiePath) err), [])
         | Inr cookie \<Rightarrow>
             (case te_Dial E addr of
                Inl err \<Rightarrow> (Some (Wrapped (''dial ControlPort '' @ addr) err), [])
              | Inr conn \<Rightarrow>
                  (case torCmd E conn (''AUTHENTICATE '' @ hex_EncodeToString cookie) ([], []) of
                     (Some err, sent, r) \<Rightarrow> (Some (Wrapped ''AUTHENTICATE'' err), sent)
                   | (None, sent, r) \<Rightarrow>
                       (case torCmd E conn ''SIGNAL NEWNYM'' (sent, r) of
                          (Some err, sent, r) \<Rightarrow> (Some (Wrapped ''SIGNAL NEWNYM'' err), sent)
                        | (None, sent, r) \<Rightarrow> (None, sent @ [''QUIT'' @ CRLF])))))"

text \<open>\<open>ProxyWorker.rotate\<close> (proxy.go): a rotation that succeeded is counted.\<close>

definition proxy_rotate :: "tor_env \<Rightarrow> (bytes \<Rightarrow> 's \<Rightarrow> u64 \<times> gerror option \<times> 's) \<Rightarrow> 's \<Rightarrow> 's" where
  "proxy_rotate E incr s = (case fst (rotateTor E) of
     Some err \<Rightarrow> s | None \<Rightarrow> (case incr ''egress_rotations'' s of (_, _, s') \<Rightarrow> s'))"

subsection \<open>Lemmas\<close>

definition auth_line :: "bytes \<Rightarrow> bytes" where
  "auth_line cookie = ''AUTHENTICATE '' @ hex_EncodeToString cookie @ CRLF"

definition newnym_line :: bytes where "newnym_line = ''SIGNAL NEWNYM'' @ CRLF"

text \<open>A command is accepted when it was written and the next line read starts with 250.\<close>

definition answered_250 :: "tor_conn \<Rightarrow> bytes list \<Rightarrow> bytes \<Rightarrow> bytes \<Rightarrow> bool" where
  "answered_250 conn sent unread r \<longleftrightarrow> tc_Write conn sent = None
     \<and> (\<exists>line. unread @ tc_deliver conn sent = line @ CHR 0x0A # r \<and> CHR 0x0A \<notin> set line
          \<and> HasPrefix (TrimSpace (line @ [CHR 0x0A])) ''250'')"

lemma torCmd_sent: "torCmd E conn cmd (sent, unread) = (e, sent', r) \<Longrightarrow> sent' = sent @ [cmd @ CRLF]"
  by (auto simp: torCmd_def Let_def split: option.splits prod.splits if_splits)

lemma torCmd_ok:
  "torCmd E conn cmd (sent, unread) = (None, sent @ [cmd @ CRLF], r) \<longleftrightarrow>
   answered_250 conn (sent @ [cmd @ CRLF]) unread r"
proof (cases "tc_Write conn (sent @ [cmd @ CRLF])")
  case None
  let ?s = "sent @ [cmd @ CRLF]"
  obtain l e q where R: "ReadString (tc_read_err conn ?s) (unread @ tc_deliver conn ?s) = (l, e, q)"
    by (cases "ReadString (tc_read_err conn ?s) (unread @ tc_deliver conn ?s)")
  have split: "unread @ tc_deliver conn ?s = l @ q" using ReadString_split [OF R] .
  show ?thesis
  proof (cases e)
    case None': None
    then obtain u where u: "l = u @ [CHR 0x0A]" "CHR 0x0A \<notin> set u"
      using R ReadString_ok by blast
    have "line = u \<and> q = r'" if "u @ CHR 0x0A # q = line @ CHR 0x0A # r'" "CHR 0x0A \<notin> set line" for line r'
      using that u(2) by (metis Cut_append prod.inject)
    then show ?thesis
      using None None' R split u by (auto simp: torCmd_def answered_250_def Let_def)
  next
    case (Some err)
    have "\<not> (\<exists>line. unread @ tc_deliver conn ?s = line @ CHR 0x0A # r \<and> CHR 0x0A \<notin> set line)"
      using R Some ReadString_append by fastforce
    then show ?thesis using None Some R by (auto simp: torCmd_def answered_250_def)
  qed
qed (simp add: torCmd_def answered_250_def)

definition tor_cookie :: "tor_env \<Rightarrow> gerror + bytes" where
  "tor_cookie E = te_ReadFile E (envOr (te_Getenv E) ''MMH_TOR_COOKIE_PATH'' torCookiePath)"

definition tor_port :: "tor_env \<Rightarrow> gerror + tor_conn" where
  "tor_port E = te_Dial E (envOr (te_Getenv E) ''MMH_TOR_CONTROL_ADDR'' torControlAddr)"

definition quit_line :: bytes where "quit_line = ''QUIT'' @ CRLF"

text \<open>How far the dialogue gets: authenticated, and the signal accepted.\<close>

definition authenticated :: "tor_env \<Rightarrow> bytes \<Rightarrow> tor_conn \<Rightarrow> bytes \<Rightarrow> bool" where
  "authenticated E cookie conn r \<longleftrightarrow> tor_cookie E = Inr cookie \<and> tor_port E = Inr conn
     \<and> answered_250 conn [auth_line cookie] [] r"

definition signalled :: "tor_env \<Rightarrow> bytes \<Rightarrow> bool" where
  "signalled E cookie \<longleftrightarrow> (\<exists>conn r r'. authenticated E cookie conn r
     \<and> answered_250 conn [auth_line cookie, newnym_line] r r')"

lemma rotateTor_unfold:
  "rotateTor E = (case tor_cookie E of
     Inl err \<Rightarrow> (Some (Wrapped (''lecture cookie tor '' @ envOr (te_Getenv E) ''MMH_TOR_COOKIE_PATH'' torCookiePath) err), [])
   | Inr cookie \<Rightarrow> (case tor_port E of
       Inl err \<Rightarrow> (Some (Wrapped (''dial ControlPort '' @ envOr (te_Getenv E) ''MMH_TOR_CONTROL_ADDR'' torControlAddr) err), [])
     | Inr conn \<Rightarrow>
         (case torCmd E conn (''AUTHENTICATE '' @ hex_EncodeToString cookie) ([], []) of
            (Some err, sent, r) \<Rightarrow> (Some (Wrapped ''AUTHENTICATE'' err), sent)
          | (None, sent, r) \<Rightarrow>
              (case torCmd E conn ''SIGNAL NEWNYM'' (sent, r) of
                 (Some err, sent, r) \<Rightarrow> (Some (Wrapped ''SIGNAL NEWNYM'' err), sent)
               | (None, sent, r) \<Rightarrow> (None, sent @ [quit_line])))))"
  unfolding rotateTor_def tor_cookie_def tor_port_def quit_line_def Let_def ..

text \<open>One command, as its two outcomes.\<close>

lemma torCmd_cases:
  obtains r where "torCmd E conn cmd (sent, unread) = (None, sent @ [cmd @ CRLF], r)"
      "answered_250 conn (sent @ [cmd @ CRLF]) unread r"
  | err r where "torCmd E conn cmd (sent, unread) = (Some err, sent @ [cmd @ CRLF], r)"
      "\<And>r'. \<not> answered_250 conn (sent @ [cmd @ CRLF]) unread r'"
proof -
  obtain e sent' r where t: "torCmd E conn cmd (sent, unread) = (e, sent', r)"
    by (cases "torCmd E conn cmd (sent, unread)")
  have s: "sent' = sent @ [cmd @ CRLF]" using torCmd_sent [OF t] .
  show ?thesis
  proof (cases e)
    case None
    then show ?thesis using t s that(1) torCmd_ok by blast
  next
    case (Some err)
    have "\<not> answered_250 conn (sent @ [cmd @ CRLF]) unread r'" for r'
      using torCmd_ok [of E conn cmd sent unread r'] t Some by auto
    then show ?thesis using t s Some that(2) by blast
  qed
qed

text \<open>The three ways a rotation goes: no connection, a refused cookie, an answer to the signal.\<close>

lemma auth_line_sent: "[] @ [(''AUTHENTICATE '' @ hex_EncodeToString cookie) @ CRLF] = [auth_line cookie]"
  by (simp add: auth_line_def)

lemma newnym_line_sent: "[auth_line cookie] @ [''SIGNAL NEWNYM'' @ CRLF] = [auth_line cookie, newnym_line]"
  by (simp add: newnym_line_def)

lemma authenticated_iff:
  "tor_cookie E = Inr cookie \<Longrightarrow> tor_port E = Inr conn \<Longrightarrow> authenticated E cookie conn' r \<longleftrightarrow> conn' = conn
   \<and> torCmd E conn (''AUTHENTICATE '' @ hex_EncodeToString cookie) ([], []) = (None, [auth_line cookie], r)"
  using torCmd_ok [of E conn "''AUTHENTICATE '' @ hex_EncodeToString cookie" "[]" "[]" r]
  unfolding auth_line_sent by (auto simp: authenticated_def)

lemma rotate_unconnected:
  assumes "\<forall>cookie conn. tor_cookie E \<noteq> Inr cookie \<or> tor_port E \<noteq> Inr conn"
  shows "\<exists>e. rotateTor E = (Some e, [])"
  using assms by (cases "tor_cookie E"; cases "tor_port E") (auto simp: rotateTor_unfold)

lemma rotate_unauthenticated:
  assumes "tor_cookie E = Inr cookie" "tor_port E = Inr conn" "\<forall>conn r. \<not> authenticated E cookie conn r"
  shows "\<exists>e. rotateTor E = (Some e, [auth_line cookie])"
proof (cases rule: torCmd_cases [of E conn "''AUTHENTICATE '' @ hex_EncodeToString cookie" "[]" "[]"])
  case (1 r)
  then show ?thesis using assms authenticated_iff [OF assms(1,2), of conn r] unfolding auth_line_sent by simp
next
  case (2 e r)
  then show ?thesis using assms(1,2) unfolding rotateTor_unfold auth_line_sent by simp
qed

lemma rotate_authenticated:
  assumes "authenticated E cookie conn r"
  shows "(\<exists>e. rotateTor E = (Some e, [auth_line cookie, newnym_line])) \<and> \<not> signalled E cookie
    \<or> rotateTor E = (None, [auth_line cookie, newnym_line, quit_line]) \<and> signalled E cookie"
proof -
  have c: "tor_cookie E = Inr cookie" "tor_port E = Inr conn" using assms by (auto simp: authenticated_def)
  note au = authenticated_iff [OF c]
  have t: "torCmd E conn (''AUTHENTICATE '' @ hex_EncodeToString cookie) ([], []) = (None, [auth_line cookie], r)"
    using assms au by simp
  have s: "signalled E cookie \<longleftrightarrow> (\<exists>r'. answered_250 conn [auth_line cookie, newnym_line] r r')"
    unfolding signalled_def au t by auto
  show ?thesis
  proof (cases rule: torCmd_cases [of E conn "''SIGNAL NEWNYM''" "[auth_line cookie]" r])
    case (1 r2)
    then show ?thesis using c t s unfolding rotateTor_unfold newnym_line_sent by auto
  next
    case (2 e r2)
    then show ?thesis using c t s unfolding rotateTor_unfold newnym_line_sent by auto
  qed
qed

subsection \<open>Properties\<close>

text \<open>C32: The control dialogue. Only when the cookie could be read and the port dialled is anything
  sent, first the authentication with the cookie in hexadecimal; the signal is sent exactly when the
  authentication was answered with 250; the rotation is reported as done, counted and the
  connection told to quit exactly when the signal was answered with 250 too.\<close>

theorem rotate_protocol:
  assumes "rotateTor E = (err, sent)"
  shows "(sent = [] \<and> err \<noteq> None \<and> (\<forall>cookie conn. tor_cookie E \<noteq> Inr cookie \<or> tor_port E \<noteq> Inr conn)
    \<or> (\<exists>cookie. sent = [auth_line cookie] \<and> tor_cookie E = Inr cookie \<and> err \<noteq> None
         \<and> (\<forall>conn r. \<not> authenticated E cookie conn r))
    \<or> (\<exists>cookie. sent = [auth_line cookie, newnym_line] \<and> err \<noteq> None
         \<and> (\<exists>conn r. authenticated E cookie conn r) \<and> \<not> signalled E cookie)
    \<or> (\<exists>cookie. sent = [auth_line cookie, newnym_line, quit_line] \<and> err = None \<and> signalled E cookie))
    \<and> proxy_rotate E incr s = (if err = None then snd (snd (incr ''egress_rotations'' s)) else s)"
    (is "(?none \<or> ?auth \<or> ?signal \<or> ?done) \<and> _")
proof (intro conjI)
  show "proxy_rotate E incr s = (if err = None then snd (snd (incr ''egress_rotations'' s)) else s)"
    using assms by (auto simp: proxy_rotate_def split: option.split prod.split)
next
  consider "\<forall>cookie conn. tor_cookie E \<noteq> Inr cookie \<or> tor_port E \<noteq> Inr conn"
    | cookie conn where "tor_cookie E = Inr cookie" "tor_port E = Inr conn" "\<forall>conn r. \<not> authenticated E cookie conn r"
    | cookie conn r where "authenticated E cookie conn r"
    by blast
  then show "?none \<or> ?auth \<or> ?signal \<or> ?done"
  proof cases
    case 1
    then show ?thesis using assms rotate_unconnected by force
  next
    case 2
    then show ?thesis using assms rotate_unauthenticated [OF 2(1,2)] by force
  next
    case 3
    then show ?thesis using assms rotate_authenticated [OF 3] by force
  qed
qed

text \<open>A port that answers 250 to every line, and one that refuses the cookie.\<close>

definition demo_tor :: "bool \<Rightarrow> tor_env" where
  "demo_tor accept = \<lparr>te_Getenv = (\<lambda>_. []), te_ReadFile = (\<lambda>_. Inr [CHR 0xAB, CHR 0x01]),
     te_Dial = (\<lambda>_. Inr \<lparr>tc_Write = (\<lambda>_. None),
       tc_deliver = (\<lambda>_. (if accept then ''250 OK'' else ''515 no'') @ CRLF), tc_read_err = (\<lambda>_. ErrText ''EOF'')\<rparr>),
     te_quote = id\<rparr>"

theorem rotate_protocol_witness:
  "snd (rotateTor (demo_tor True)) = [''AUTHENTICATE ab01'' @ CRLF, newnym_line, quit_line]
   \<and> proxy_rotate (demo_tor True) (\<lambda>_ s. (0, None, s + 1)) (0 :: nat) = 1
   \<and> proxy_rotate (demo_tor False) (\<lambda>_ s. (0, None, s + 1)) (0 :: nat) = 0"
proof -
  have y: "rotateTor (demo_tor True) = (None, [''AUTHENTICATE ab01'' @ CRLF, newnym_line, quit_line])"
    by code_simp
  have n: "fst (rotateTor (demo_tor False)) \<noteq> None" by code_simp
  show ?thesis
    using rotate_protocol [OF y, of "\<lambda>_ s. (0, None, s + 1)" "0 :: nat"] y
      rotate_protocol [of "demo_tor False" _ _ "\<lambda>_ s. (0, None, s + 1)" "0 :: nat", OF prod.collapse [symmetric]] n
    by auto
qed

end
