(* ===== verification/TunnelClient.thy ===== *)
theory TunnelClient
  imports Config Proto Smtp
begin

section \<open>internal/tunnel/client.go: the channel to the parent\<close>

text \<open>
  The client's own part of the channel: the credentials it dials with, the messages it sends and
  what it makes of the answers. The gRPC stubs and the TLS library are arguments: an rpc is a
  function of its deadline (in nanoseconds) and its request.
\<close>

subsection \<open>Connecting\<close>

record Client =
  endpoint :: bytes
  cl_id :: bytes
  cl_slug :: bytes
  tlsCfg :: TLSConfig
  cl_conn :: bool

definition New_client :: "bytes \<Rightarrow> bytes \<Rightarrow> bytes \<Rightarrow> TLSConfig \<Rightarrow> Client" where
  "New_client ep i sl tls = \<lparr>endpoint = ep, cl_id = i, cl_slug = sl, tlsCfg = tls, cl_conn = False\<rparr>"

datatype 'c creds =
    Insecure
  | TLS_creds (cert: 'c) (root_ca: bytes) (server_name: bytes) (min_version: nat)

record 'c tls_env =
  LoadX509KeyPair :: "bytes \<Rightarrow> bytes \<Rightarrow> gerror + 'c"
  tls_ReadFile :: "bytes \<Rightarrow> gerror + bytes"
  AppendCertsFromPEM :: "bytes \<Rightarrow> bool"

definition VersionTLS12 :: nat where "VersionTLS12 = 0x0303"

definition transportCreds :: "'c tls_env \<Rightarrow> Client \<Rightarrow> gerror + 'c creds" where
  "transportCreds T c =
     (if \<not> Enabled (tlsCfg c) then Inr Insecure
      else case LoadX509KeyPair T (CertPath (tlsCfg c)) (KeyPath (tlsCfg c)) of
        Inl err \<Rightarrow> Inl (Wrapped ''load client keypair'' err)
      | Inr crt \<Rightarrow>
          (case tls_ReadFile T (CAPath (tlsCfg c)) of
             Inl err \<Rightarrow> Inl (Wrapped ''read CA'' err)
           | Inr caPEM \<Rightarrow>
               if \<not> AppendCertsFromPEM T caPEM
               then Inl (ErrText (''CA '' @ CAPath (tlsCfg c) @ '': no certificate parsed''))
               else Inr (TLS_creds crt caPEM (ServerName (tlsCfg c)) VersionTLS12)))"

text \<open>\<open>NewClient\<close> is the constructor of a gRPC connection; the result is the error and the client.\<close>

definition Connect :: "'c tls_env \<Rightarrow> (bytes \<Rightarrow> 'c creds \<Rightarrow> gerror option) \<Rightarrow> Client \<Rightarrow> gerror option \<times> Client" where
  "Connect T NewClient c = (case transportCreds T c of
     Inl err \<Rightarrow> (Some err, c)
   | Inr cr \<Rightarrow> (case NewClient (endpoint c) cr of
       Some err \<Rightarrow> (Some (Wrapped (''dial '' @ endpoint c) err), c)
     | None \<Rightarrow> (None, c\<lparr>cl_conn := True\<rparr>)))"

definition Close_client :: "Client \<Rightarrow> Client" where
  "Close_client c = (if cl_conn c then c\<lparr>cl_conn := False\<rparr> else c)"

subsection \<open>Heartbeats\<close>

record load_data =
  ld_CPUPct :: i32
  ld_MemPct :: i32
  ld_DiskPct :: i32
  ld_Conns :: "bytes \<rightharpoonup> i32"

definition heartbeat_request :: "Client \<Rightarrow> i64 \<Rightarrow> u64 \<Rightarrow> load_data \<Rightarrow> HeartbeatRequest" where
  "heartbeat_request c nowMs sq ld = \<lparr>hb_MiniminihubId = cl_id c, hb_Slug = cl_slug c, ClientTsMs = nowMs,
     hb_Sequence = sq, CpuLoadPct = ld_CPUPct ld, MemPct = ld_MemPct ld, DiskPct = ld_DiskPct ld,
     ConnsByService = ld_Conns ld\<rparr>"

definition seconds :: "nat \<Rightarrow> i64" where
  "seconds n = of_nat n * 1000000000"

definition Heartbeat :: "(i64 \<Rightarrow> HeartbeatRequest \<Rightarrow> gerror + HeartbeatResponse) \<Rightarrow> Client \<Rightarrow> i64 \<Rightarrow> u64 \<Rightarrow>
    load_data \<Rightarrow> gerror + HeartbeatResponse" where
  "Heartbeat rpc c nowMs sq ld = (case rpc (seconds 15) (heartbeat_request c nowMs sq ld) of
     Inl err \<Rightarrow> Inl (Wrapped (''heartbeat seq='' @ dec_nat (unat sq)) err)
   | Inr resp \<Rightarrow> Inr resp)"

subsection \<open>Results\<close>

definition PushSmtpResult :: "(i64 \<Rightarrow> ResultMsg \<Rightarrow> gerror + ResultAck) \<Rightarrow> SmtpResultData \<Rightarrow> gerror option" where
  "PushSmtpResult rpc r = (case rpc (seconds 15) (smtp_result_msg r) of
     Inl err \<Rightarrow> Some (Wrapped (''push smtp result req='' @ RequestID r) err)
   | Inr ack \<Rightarrow> None)"

definition batch_report_msg :: "BatchReport \<Rightarrow> ResultMsg" where
  "batch_report_msg rep = \<lparr>res_RequestId = GetRunId (Some rep), res_Payload = Some (ResultMsg_BatchReport rep)\<rparr>"

definition PushBatchReport :: "(i64 \<Rightarrow> ResultMsg \<Rightarrow> gerror + ResultAck) \<Rightarrow> BatchReport \<Rightarrow> gerror option" where
  "PushBatchReport rpc rep = (case rpc (seconds 30) (batch_report_msg rep) of
     Inl err \<Rightarrow> Some (Wrapped (''push batch report run='' @ GetRunId (Some rep)) err)
   | Inr ack \<Rightarrow> None)"

subsection \<open>Streams\<close>

definition EgressStream :: "(gerror + 's) \<Rightarrow> gerror + 's" where
  "EgressStream opened = (case opened of
     Inl err \<Rightarrow> Inl (Wrapped ''open egress stream'' err) | Inr stream \<Rightarrow> Inr stream)"

definition poll_request :: "Client \<Rightarrow> PollRequest" where
  "poll_request c = \<lparr>poll_MiniminihubId = cl_id c, poll_Slug = cl_slug c\<rparr>"

definition poll_recv_error :: "gerror \<Rightarrow> gerror" where
  "poll_recv_error err = Wrapped ''pollcommand recv'' err"

text \<open>
  The loop of \<open>Poll\<close> over what \<open>Recv\<close> returns call by call; \<open>None\<close> while it waits for the next
  command. The state is that of the handler.
\<close>

fun poll_loop :: "(Command \<Rightarrow> 's \<Rightarrow> 's) \<Rightarrow> (gerror + Command) list \<Rightarrow> 's \<Rightarrow> gerror option \<times> 's" where
  "poll_loop onCommand [] s = (None, s)"
| "poll_loop onCommand (Inl err # rs) s = (Some (poll_recv_error err), s)"
| "poll_loop onCommand (Inr cmd # rs) s = poll_loop onCommand rs (onCommand cmd s)"

definition Poll :: "(PollRequest \<Rightarrow> gerror + (gerror + Command) list) \<Rightarrow> Client \<Rightarrow> (Command \<Rightarrow> 's \<Rightarrow> 's) \<Rightarrow> 's \<Rightarrow>
    gerror option \<times> 's" where
  "Poll rpc c onCommand s = (case rpc (poll_request c) of
     Inl err \<Rightarrow> (Some (Wrapped ''open pollcommand'' err), s)
   | Inr recvs \<Rightarrow> poll_loop onCommand recvs s)"

subsection \<open>Properties\<close>

lemma poll_loop_prefix:
  "poll_loop onCommand (map Inr cmds @ rs) s = poll_loop onCommand rs (fold onCommand cmds s)"
  by (induction cmds arbitrary: s) simp_all

text \<open>C21: With TLS enabled the channel is never opened in plain text. \<open>Connect\<close> succeeds only if
  the key pair, the CA file and at least one certificate in it could be read, and then dials with
  exactly these, the configured server name and TLS 1.2 as the least version; if anything is
  missing it returns an error and the client stays unconnected. Without TLS it dials in plain text.\<close>

theorem tls_never_plaintext:
  assumes "Connect T NewClient c = (err, c')" and "\<not> cl_conn c"
  shows "(err = None \<longleftrightarrow> cl_conn c') \<and> (err = None \<longleftrightarrow>
     (\<exists>cr. NewClient (endpoint c) cr = None \<and>
        (if Enabled (tlsCfg c)
         then (\<exists>crt ca. LoadX509KeyPair T (CertPath (tlsCfg c)) (KeyPath (tlsCfg c)) = Inr crt
                 \<and> tls_ReadFile T (CAPath (tlsCfg c)) = Inr ca \<and> AppendCertsFromPEM T ca
                 \<and> cr = TLS_creds crt ca (ServerName (tlsCfg c)) VersionTLS12)
         else cr = Insecure)))"
  using assms by (auto simp: Connect_def transportCreds_def split: sum.splits option.splits if_splits)

definition demo_client :: Client where
  "demo_client = New_client ''mh:7443'' ''id1'' ''vm1''
     \<lparr>Enabled = True, CAPath = ''ca'', CertPath = ''crt'', KeyPath = ''key'', ServerName = ''mh''\<rparr>"

definition demo_tls :: "bool \<Rightarrow> nat tls_env" where
  "demo_tls good = \<lparr>LoadX509KeyPair = (\<lambda>_ _. Inr 7), tls_ReadFile = (\<lambda>_. Inr ''PEM''), AppendCertsFromPEM = (\<lambda>_. good)\<rparr>"

theorem tls_never_plaintext_witness:
  "cl_conn (snd (Connect (demo_tls True) (\<lambda>_ _. None) demo_client))
   \<and> \<not> cl_conn (snd (Connect (demo_tls False) (\<lambda>_ _. None) demo_client))"
proof -
  have c: "\<not> cl_conn demo_client" by (simp add: demo_client_def New_client_def)
  show ?thesis
    using tls_never_plaintext [of "demo_tls True" "\<lambda>_ _. None" demo_client, OF prod.collapse [symmetric] c]
      tls_never_plaintext [of "demo_tls False" "\<lambda>_ _. None" demo_client, OF prod.collapse [symmetric] c]
    by (auto simp: demo_client_def New_client_def demo_tls_def)
qed

end
