(* ===== verification/TunnelWorker.thy ===== *)
theory TunnelWorker
  imports TunnelClient SysLoad BatchReports Bus
begin

section \<open>internal/worker/tunnel.go: heartbeats and commands\<close>

text \<open>
  The tunnel worker: a session sends heartbeats at a cadence the parent may change and routes the
  commands the parent pushes to the workers, through the bus. The two goroutines of a session share
  the store and the context; a session is therefore a sequence of events (a tick of the heartbeat
  goroutine, a command or error received by the polling goroutine, the end of the context), in the
  order they take effect. The clock, \<open>/proc\<close>, statfs and the answers of the parent are part of the
  events.
\<close>

subsection \<open>Messages on the bus\<close>

text \<open>The dynamic types of the values published on the bus.\<close>

datatype bus_msg =
    MsgEgressOpen EgressOpenCommand
  | MsgRotateEgress RotateEgressCommand
  | MsgSmtpSend SmtpSendCommand
  | MsgConfigureBatch ConfigureBatchCommand

definition TopicEgress :: bytes where "TopicEgress = ''egress''"
definition TopicRotate :: bytes where "TopicRotate = ''egress_rotate''"
definition TopicSmtp :: bytes where "TopicSmtp = ''smtp_send''"
definition TopicBatch :: bytes where "TopicBatch = ''batch_configure''"

record 'b agent =
  ag_store :: "'b store"
  ag_bus :: "bus_msg Bus"

subsection \<open>Commands\<close>

text \<open>\<open>record\<close>: an event in the local journal, best effort.\<close>

definition record_event :: "'b bolt \<Rightarrow> i64 \<Rightarrow> bytes \<Rightarrow> bytes \<Rightarrow> 'b store \<Rightarrow> 'b store" where
  "record_event B nowMs kd dt s = snd (AppendEvent B nowMs kd dt s)"

definition handleCommand :: "'b bolt \<Rightarrow> i64 \<Rightarrow> Command \<Rightarrow> 'b agent \<Rightarrow> 'b agent" where
  "handleCommand B nowMs cmd a = (case cmd_Payload cmd of
     Some (Command_Ping p) \<Rightarrow>
       (case Incr B ''pings_received'' (ag_store a) of (_, _, s) \<Rightarrow>
          a\<lparr>ag_store := record_event B nowMs ''ping_received'' (CommandId cmd) s\<rparr>)
   | Some (Command_EgressOpen p) \<Rightarrow> a\<lparr>ag_bus := Publish TopicEgress (MsgEgressOpen p) (ag_bus a)\<rparr>
   | Some (Command_RotateEgress p) \<Rightarrow> a\<lparr>ag_bus := Publish TopicRotate (MsgRotateEgress p) (ag_bus a)\<rparr>
   | Some (Command_SmtpSend p) \<Rightarrow> a\<lparr>ag_bus := Publish TopicSmtp (MsgSmtpSend p) (ag_bus a)\<rparr>
   | Some (Command_ConfigureBatch p) \<Rightarrow> a\<lparr>ag_bus := Publish TopicBatch (MsgConfigureBatch p) (ag_bus a)\<rparr>
   | None \<Rightarrow> a)"

subsection \<open>Heartbeats\<close>

text \<open>What one heartbeat reads: the clock, the load, and the parent's answer.\<close>

record hb_input =
  in_now :: i64
  in_meminfo :: "bytes option"
  in_statfs :: "Statfs_t option"
  in_gauges :: gauges
  in_stat :: "bytes option"
  in_rpc :: "i64 \<Rightarrow> HeartbeatRequest \<Rightarrow> gerror + HeartbeatResponse"

text \<open>The variables of the heartbeat goroutine; the period of its ticker is in nanoseconds.\<close>

record hb_state =
  curMs :: i64
  seq :: u64
  prevCPU :: cpuSample
  prevOK :: bool
  tick_period :: i64

definition ms_duration :: "i64 \<Rightarrow> i64" where
  "ms_duration ms = ms * 1000000"

text \<open>The load sent with a heartbeat, and the CPU sample kept for the next one.\<close>

definition hb_load :: "hb_input \<Rightarrow> hb_state \<Rightarrow> load_data \<times> cpuSample \<times> bool" where
  "hb_load i h =
     (let ld = \<lparr>ld_CPUPct = 0, ld_MemPct = memPct (in_meminfo i), ld_DiskPct = diskPct (in_statfs i),
                ld_Conns = connsByService (in_gauges i)\<rparr>
      in case readCPUSample (in_stat i) of
           (cur, True) \<Rightarrow>
             ((if prevOK h then (case cpuPct (prevCPU h) cur of
                 (pct, True) \<Rightarrow> ld\<lparr>ld_CPUPct := pct\<rparr> | (_, False) \<Rightarrow> ld) else ld), cur, True)
         | (_, False) \<Rightarrow> (ld, prevCPU h, prevOK h))"

text \<open>\<open>send\<close>: the request, the error, the new variables and the store.\<close>

definition hb_send :: "'b bolt \<Rightarrow> Client \<Rightarrow> hb_input \<Rightarrow> hb_state \<Rightarrow> 'b store \<Rightarrow>
    HeartbeatRequest \<times> gerror option \<times> hb_state \<times> 'b store" where
  "hb_send B c i h s =
     (let h = h\<lparr>seq := seq h + 1\<rparr> in
      case hb_load i h of (ld, cpu, ok) \<Rightarrow>
        let h = h\<lparr>prevCPU := cpu, prevOK := ok\<rparr>;
            req = heartbeat_request c (in_now i) (seq h) ld
        in case Heartbeat (in_rpc i) c (in_now i) (seq h) ld of
             Inl err \<Rightarrow> (req, Some err, h, s)
           | Inr resp \<Rightarrow>
               (case Incr B ''heartbeats'' s of (_, _, s) \<Rightarrow>
                  let n = scast (NextIntervalMs resp)
                  in (req, None,
                      (if 0 < sint n \<and> n \<noteq> curMs h then h\<lparr>curMs := n, tick_period := ms_duration n\<rparr> else h),
                      s)))"

subsection \<open>Sessions\<close>

datatype sess_event =
    CtxDone
  | Tick hb_input
  | PollOpenErr gerror
  | Recv i64 "gerror + Command"

datatype sess_end = Running | Ended "gerror option" | Panicked

record 'b sess =
  s_hb :: hb_state
  s_agent :: "'b agent"
  s_sent :: "HeartbeatRequest list"

text \<open>One event; a session that ended takes no further event. The first tick is the heartbeat the
  goroutine sends at once.\<close>

definition sess_step :: "'b bolt \<Rightarrow> Client \<Rightarrow> sess_event \<Rightarrow> 'b sess \<Rightarrow> sess_end \<times> 'b sess" where
  "sess_step B c ev st = (case ev of
     CtxDone \<Rightarrow> (Ended None, st)
   | Tick i \<Rightarrow> (case hb_send B c i (s_hb st) (ag_store (s_agent st)) of
       (req, err, h, s) \<Rightarrow>
         ((case err of None \<Rightarrow> Running | Some e \<Rightarrow> Ended (Some (Wrapped ''heartbeat'' e))),
          \<lparr>s_hb = h, s_agent = (s_agent st)\<lparr>ag_store := s\<rparr>, s_sent = s_sent st @ [req]\<rparr>))
   | PollOpenErr e \<Rightarrow> (Ended (Some (Wrapped ''open pollcommand'' e)), st)
   | Recv t (Inl e) \<Rightarrow> (Ended (Some (poll_recv_error e)), st)
   | Recv t (Inr cmd) \<Rightarrow> (Running, st\<lparr>s_agent := handleCommand B t cmd (s_agent st)\<rparr>))"

fun sess_loop :: "'b bolt \<Rightarrow> Client \<Rightarrow> sess_event list \<Rightarrow> 'b sess \<Rightarrow> sess_end \<times> 'b sess" where
  "sess_loop B c [] st = (Running, st)"
| "sess_loop B c (ev # evs) st = (case sess_step B c ev st of
     (Running, st') \<Rightarrow> sess_loop B c evs st' | (r, st') \<Rightarrow> (r, st'))"

text \<open>\<open>session\<close>: \<open>time.NewTicker\<close> panics on a period that is not positive; \<open>procstat\<close> is \<open>/proc/stat\<close>
  at the start, \<open>hbMs\<close> the configured interval.\<close>

definition session :: "'b bolt \<Rightarrow> Client \<Rightarrow> i64 \<Rightarrow> bytes option \<Rightarrow> sess_event list \<Rightarrow> 'b agent \<Rightarrow>
    sess_end \<times> 'b sess" where
  "session B c hbMs procstat evs a = (case readCPUSample procstat of (cpu, ok) \<Rightarrow>
     let st = \<lparr>s_hb = \<lparr>curMs = hbMs, seq = 0, prevCPU = cpu, prevOK = ok, tick_period = ms_duration hbMs\<rparr>,
               s_agent = a, s_sent = []\<rparr>
     in if sint (ms_duration hbMs) \<le> 0 then (Panicked, st) else sess_loop B c evs st)"

text \<open>\<open>Run\<close>: count and record the session, then run it.\<close>

definition tunnel_Run :: "'b bolt \<Rightarrow> Client \<Rightarrow> i64 \<Rightarrow> i64 \<Rightarrow> bytes option \<Rightarrow> sess_event list \<Rightarrow> 'b agent \<Rightarrow>
    sess_end \<times> 'b sess" where
  "tunnel_Run B c hbMs nowMs procstat evs a = (case Incr B ''tunnel_sessions'' (ag_store a) of
     (n, _, s) \<Rightarrow> session B c hbMs procstat evs
       (a\<lparr>ag_store := record_event B nowMs ''tunnel_session_start'' (''session #'' @ dec_nat (unat n)) s\<rparr>))"


subsection \<open>Lemmas on heartbeats\<close>

lemma ms_duration_value:
  assumes "0 < sint ms" "sint ms \<le> 9223372036854"
  shows "sint (ms_duration ms) = sint ms * 1000000"
  using assms by (simp add: ms_duration_def sint_word_ariths signed_take_bit_int_eq_self)

lemma ms_duration_wrap:
  assumes "9223372036855 \<le> sint ms" "sint ms \<le> 18446744073709"
  shows "sint (ms_duration ms) < 0"
proof -
  have "sint (ms_duration ms) = signed_take_bit 63 (sint ms * 1000000)"
    by (simp add: ms_duration_def sint_word_ariths)
  also have "\<dots> = signed_take_bit 63 (sint ms * 1000000 - 2 ^ 64)"
    by (rule signed_take_bit_eq_iff_take_bit_eq [THEN iffD2]) (simp add: take_bit_eq_mod mod_diff_eq [symmetric])
  also have "\<dots> = sint ms * 1000000 - 2 ^ 64"
    using assms by (intro signed_take_bit_int_eq_self) simp_all
  finally show ?thesis using assms by simp
qed

lemma scast_interval:
  "sint (scast (n :: i32) :: i64) = sint n" "sint (n :: i32) < 2147483648"
  using sint_lt [of n] by (simp_all add: sint_up_scast is_up)

text \<open>The variables of the heartbeat goroutine after \<open>n\<close> heartbeats.\<close>

definition hb_ok :: "nat \<Rightarrow> hb_state \<Rightarrow> bool" where
  "hb_ok n h \<longleftrightarrow> seq h = of_nat n \<and> 0 < sint (curMs h) \<and> sint (curMs h) \<le> 9223372036854
     \<and> tick_period h = ms_duration (curMs h)"

lemma hb_send_cases:
  assumes "hb_send B c i h s = (req, err, h', s')"
  shows "seq h' = seq h + 1 \<and> hb_Sequence req = seq h + 1 \<and> hb_MiniminihubId req = cl_id c \<and> hb_Slug req = cl_slug c
    \<and> (case in_rpc i (seconds 15) req of
         Inl e \<Rightarrow> err = Some (Wrapped (''heartbeat seq='' @ dec_nat (unat (seq h + 1))) e) \<and> s' = s
           \<and> curMs h' = curMs h \<and> tick_period h' = tick_period h
       | Inr resp \<Rightarrow> err = None \<and> s' = snd (snd (Incr B ''heartbeats'' s))
           \<and> (let n = scast (NextIntervalMs resp) in
               if 0 < sint n \<and> n \<noteq> curMs h then curMs h' = n \<and> tick_period h' = ms_duration n
               else curMs h' = curMs h \<and> tick_period h' = tick_period h))"
  using assms
  by (auto simp: hb_send_def Let_def Heartbeat_def heartbeat_request_def split: prod.splits sum.splits if_splits)

lemma hb_send_ok:
  assumes "hb_send B c i h s = (req, err, h', s')" "hb_ok n h"
  shows "hb_ok (Suc n) h' \<and> hb_Sequence req = of_nat (Suc n)"
proof -
  have sq: "seq h' = of_nat (Suc n) \<and> hb_Sequence req = of_nat (Suc n)"
    using hb_send_cases [OF assms(1)] assms(2) by (simp add: hb_ok_def add.commute)
  have "(curMs h' = curMs h \<and> tick_period h' = tick_period h)
      \<or> (\<exists>n :: i32. 0 < sint n \<and> curMs h' = scast n \<and> tick_period h' = ms_duration (scast n))"
    using hb_send_cases [OF assms(1)] by (auto simp: Let_def scast_interval split: sum.splits if_splits)
  then show ?thesis
    using sq assms(2) scast_interval by (fastforce simp: hb_ok_def intro: order_trans [OF less_imp_le])
qed

text \<open>The invariant of a session: heartbeats are numbered from 1 without gaps.\<close>

definition sess_ok :: "'b sess \<Rightarrow> bool" where
  "sess_ok st \<longleftrightarrow> hb_ok (length (s_sent st)) (s_hb st)
     \<and> map hb_Sequence (s_sent st) = map of_nat [1 ..< Suc (length (s_sent st))]"

lemma sess_ok_step: "sess_step B c ev st = (r, st') \<Longrightarrow> sess_ok st \<Longrightarrow> sess_ok st' \<and> r \<noteq> Panicked"
proof (cases ev)
  case (Tick i)
  assume st: "sess_step B c ev st = (r, st')" "sess_ok st"
  obtain req err h s where h: "hb_send B c i (s_hb st) (ag_store (s_agent st)) = (req, err, h, s)"
    by (cases "hb_send B c i (s_hb st) (ag_store (s_agent st))") auto
  have "hb_ok (Suc (length (s_sent st))) h \<and> hb_Sequence req = of_nat (Suc (length (s_sent st)))"
    using hb_send_ok [OF h] st(2) by (simp add: sess_ok_def)
  then show ?thesis
    using st h Tick by (auto simp: sess_step_def sess_ok_def split: option.splits)
next
  case (Recv t res)
  assume "sess_step B c ev st = (r, st')" "sess_ok st"
  then show ?thesis using Recv by (auto simp: sess_step_def sess_ok_def split: sum.splits)
qed (auto simp: sess_step_def)

lemma sess_ok_loop: "sess_loop B c evs st = (r, st') \<Longrightarrow> sess_ok st \<Longrightarrow> sess_ok st' \<and> r \<noteq> Panicked"
proof (induction evs arbitrary: st)
  case (Cons ev evs)
  obtain q st1 where q: "sess_step B c ev st = (q, st1)" by (cases "sess_step B c ev st")
  show ?case
    using Cons.prems q sess_ok_step [OF q] Cons.IH [of st1] by (cases q) auto
qed simp


subsection \<open>What reaches the workers\<close>

text \<open>The topic a message is published on, and the type assertions of the subscribers.\<close>

fun topic_of :: "bus_msg \<Rightarrow> bytes" where
  "topic_of (MsgEgressOpen p) = TopicEgress"
| "topic_of (MsgRotateEgress p) = TopicRotate"
| "topic_of (MsgSmtpSend p) = TopicSmtp"
| "topic_of (MsgConfigureBatch p) = TopicBatch"

fun as_EgressOpen :: "bus_msg \<Rightarrow> EgressOpenCommand option" where
  "as_EgressOpen (MsgEgressOpen p) = Some p" | "as_EgressOpen _ = None"

fun as_RotateEgress :: "bus_msg \<Rightarrow> RotateEgressCommand option" where
  "as_RotateEgress (MsgRotateEgress p) = Some p" | "as_RotateEgress _ = None"

fun as_SmtpSend :: "bus_msg \<Rightarrow> SmtpSendCommand option" where
  "as_SmtpSend (MsgSmtpSend p) = Some p" | "as_SmtpSend _ = None"

fun as_ConfigureBatch :: "bus_msg \<Rightarrow> ConfigureBatchCommand option" where
  "as_ConfigureBatch (MsgConfigureBatch p) = Some p" | "as_ConfigureBatch _ = None"

lemma topics_distinct:
  "distinct [TopicEgress, TopicRotate, TopicSmtp, TopicBatch]"
  by (simp add: TopicEgress_def TopicRotate_def TopicSmtp_def TopicBatch_def)

lemma topic_of_type:
  "topic_of m = TopicEgress \<longleftrightarrow> as_EgressOpen m \<noteq> None"
  "topic_of m = TopicRotate \<longleftrightarrow> as_RotateEgress m \<noteq> None"
  "topic_of m = TopicSmtp \<longleftrightarrow> as_SmtpSend m \<noteq> None"
  "topic_of m = TopicBatch \<longleftrightarrow> as_ConfigureBatch m \<noteq> None"
  using topics_distinct by (cases m; auto)+

text \<open>The message a command becomes.\<close>

definition msg_of :: "Command \<Rightarrow> bus_msg option" where
  "msg_of cmd = (case cmd_Payload cmd of
     Some (Command_EgressOpen p) \<Rightarrow> Some (MsgEgressOpen p)
   | Some (Command_RotateEgress p) \<Rightarrow> Some (MsgRotateEgress p)
   | Some (Command_SmtpSend p) \<Rightarrow> Some (MsgSmtpSend p)
   | Some (Command_ConfigureBatch p) \<Rightarrow> Some (MsgConfigureBatch p)
   | _ \<Rightarrow> None)"

lemma handleCommand_bus:
  "ag_bus (handleCommand B t cmd a) = (case msg_of cmd of
     None \<Rightarrow> ag_bus a | Some m \<Rightarrow> Publish (topic_of m) m (ag_bus a))"
  by (auto simp: handleCommand_def msg_of_def split: option.split isCommand_Payload.split prod.split)

text \<open>
  The program's use of the bus: workers subscribe, the polling goroutine handles commands, workers
  receive; in any order.
\<close>

datatype bus_use = Sub bytes | Handle i64 Command | Take nat

fun bus_use_step :: "'b bolt \<Rightarrow> bus_use \<Rightarrow> 'b agent \<Rightarrow> 'b agent" where
  "bus_use_step B (Sub t) a = a\<lparr>ag_bus := snd (Subscribe t (ag_bus a))\<rparr>"
| "bus_use_step B (Handle now cmd) a = handleCommand B now cmd a"
| "bus_use_step B (Take ch) a = a\<lparr>ag_bus := snd (Receive ch (ag_bus a))\<rparr>"

fun bus_op_of :: "bus_use \<Rightarrow> bus_msg bus_op list" where
  "bus_op_of (Sub t) = [OpSubscribe t]"
| "bus_op_of (Handle now cmd) = (case msg_of cmd of None \<Rightarrow> [] | Some m \<Rightarrow> [OpPublish (topic_of m) m])"
| "bus_op_of (Take ch) = [OpReceive ch]"

lemma bus_use_step_bus: "ag_bus (bus_use_step B u a) = fold bus_step (bus_op_of u) (ag_bus a)"
  by (cases u) (simp_all add: handleCommand_bus split: option.split)

lemma bus_uses_bus:
  "ag_bus (fold (bus_use_step B) us a) = fold bus_step (concat (map bus_op_of us)) (ag_bus a)"
  by (induction us arbitrary: a) (simp_all add: bus_use_step_bus)

text \<open>The messages of a topic among the commands, and what a reader got, in order.\<close>

definition commands_for :: "bytes \<Rightarrow> bus_use list \<Rightarrow> bus_msg list" where
  "commands_for t us = concat (map (\<lambda>u. case u of
     Handle now cmd \<Rightarrow> (case msg_of cmd of Some m \<Rightarrow> if topic_of m = t then [m] else [] | None \<Rightarrow> []) | _ \<Rightarrow> []) us)"

fun taken :: "'b bolt \<Rightarrow> nat \<Rightarrow> bus_use list \<Rightarrow> 'b agent \<Rightarrow> bus_msg list" where
  "taken B ch [] a = []"
| "taken B ch (u # us) a = (case u of
     Take c \<Rightarrow> (if c = ch then (case fst (Receive ch (ag_bus a)) of None \<Rightarrow> [] | Some m \<Rightarrow> [m]) else [])
   | _ \<Rightarrow> []) @ taken B ch us (bus_use_step B u a)"

lemma commands_published: "published t (concat (map bus_op_of us)) = commands_for t us"
proof (induction us)
  case (Cons u us)
  then show ?case by (cases u) (auto simp: commands_for_def split: option.split)
qed (simp add: commands_for_def)

lemma received_append: "received ch (xs @ ys) b = received ch xs b @ received ch ys (fold bus_step xs b)"
  by (induction xs arbitrary: b) auto

lemma taken_received: "taken B ch us a = received ch (concat (map bus_op_of us)) (ag_bus a)"
proof (induction us arbitrary: a)
  case (Cons u us)
  have "received ch (bus_op_of u) (ag_bus a) = (case u of
     Take c \<Rightarrow> (if c = ch then (case fst (Receive ch (ag_bus a)) of None \<Rightarrow> [] | Some m \<Rightarrow> [m]) else [])
   | _ \<Rightarrow> [])"
    by (cases u) (auto split: option.split)
  then show ?case using Cons by (simp add: received_append bus_use_step_bus)
qed simp

lemma commands_for_topic: "m \<in> set (commands_for t us) \<Longrightarrow> topic_of m = t"
  by (auto simp: commands_for_def split: bus_use.splits option.splits if_splits)

lemma subscribed:
  assumes "bus_ok (ag_bus a)" "Subscribe t (ag_bus a) = (ch, b)"
  shows "bus_ok b" "ch \<in> set (subs b t)" "chans b ch = []"
proof -
  show "bus_ok b" using bus_ok_Subscribe [OF assms(1), of t] assms(2) by simp
  show "ch \<in> set (subs b t)" "chans b ch = []" using assms by (auto simp: Subscribe_def bus_ok_def)
qed

lemma commands_reach_lemma:
  assumes "bus_ok (ag_bus a)" "Subscribe t (ag_bus a) = (ch, b)"
  shows "subseq (taken B ch us (a\<lparr>ag_bus := b\<rparr>) @ chans (ag_bus (fold (bus_use_step B) us (a\<lparr>ag_bus := b\<rparr>))) ch)
      (commands_for t us)
    \<and> (length (commands_for t us) \<le> 128 \<longrightarrow>
        taken B ch us (a\<lparr>ag_bus := b\<rparr>) @ chans (ag_bus (fold (bus_use_step B) us (a\<lparr>ag_bus := b\<rparr>))) ch
        = commands_for t us)"
proof -
  note b = subscribed [OF assms]
  show ?thesis
    using b received_subseq [of b ch t "concat (map bus_op_of us)"] received_all [of b ch t "concat (map bus_op_of us)"]
    by (simp add: taken_received bus_uses_bus commands_published chan_cap_def)
qed

text \<open>Whenever a command of the topic is pushed, fewer than 128 wait in the channel.\<close>

fun room :: "'b bolt \<Rightarrow> bytes \<Rightarrow> nat \<Rightarrow> bus_use list \<Rightarrow> 'b agent \<Rightarrow> bool" where
  "room B t ch [] a = True"
| "room B t ch (u # us) a \<longleftrightarrow>
     (commands_for t [u] \<noteq> [] \<longrightarrow> length (chans (ag_bus a) ch) < 128) \<and> room B t ch us (bus_use_step B u a)"

lemma commands_for_Cons: "commands_for t (u # us) = commands_for t [u] @ commands_for t us"
  by (simp add: commands_for_def)

lemma bus_uses_ok: "bus_ok (ag_bus a) \<Longrightarrow> bus_ok (ag_bus (fold (bus_use_step B) us a))"
proof (induction us arbitrary: a)
  case (Cons u us)
  have "bus_ok (fold bus_step ops b)" if "bus_ok b" for ops and b :: "bus_msg Bus"
    using that by (induction ops arbitrary: b) (simp_all add: bus_ok_step)
  then show ?case using Cons by (simp add: bus_use_step_bus)
qed simp

lemma bus_uses_subs: "ch \<in> set (subs (ag_bus a) t) \<Longrightarrow> ch \<in> set (subs (ag_bus (fold (bus_use_step B) us a)) t)"
proof (induction us arbitrary: a)
  case (Cons u us)
  have "ch \<in> set (subs (fold bus_step ops b) t)" if "ch \<in> set (subs b t)" for ops and b :: "bus_msg Bus"
    using that by (induction ops arbitrary: b) (simp_all add: subs_step)
  then show ?case using Cons by (simp add: bus_use_step_bus)
qed simp

text \<open>With room, one use of the bus loses nothing, and so no sequence does.\<close>

lemma room_all:
  assumes "bus_ok (ag_bus a)" "ch \<in> set (subs (ag_bus a) t)" "room B t ch us a"
  shows "taken B ch us a @ chans (ag_bus (fold (bus_use_step B) us a)) ch = chans (ag_bus a) ch @ commands_for t us"
  using assms
proof (induction us arbitrary: a)
  case (Cons u us)
  let ?a = "bus_use_step B u a"
  have l: "length (commands_for t [u]) \<le> 1"
    by (auto simp: commands_for_def split: bus_use.split option.split)
  have "length (chans (ag_bus a) ch) \<le> 128" using Cons.prems(1) by (simp add: bus_ok_def chan_cap_def)
  then have "length (chans (ag_bus a) ch) + length (published t (bus_op_of u)) \<le> chan_cap"
    using Cons.prems(3) l commands_published [of t "[u]"] by (cases "commands_for t [u]") (auto simp: chan_cap_def)
  from received_all [OF Cons.prems(1,2) this]
  have e: "received ch (bus_op_of u) (ag_bus a) @ chans (ag_bus ?a) ch = chans (ag_bus a) ch @ commands_for t [u]"
    using commands_published [of t "[u]"] by (simp add: bus_use_step_bus)
  have "taken B ch us ?a @ chans (ag_bus (fold (bus_use_step B) us ?a)) ch = chans (ag_bus ?a) ch @ commands_for t us"
    using Cons.prems bus_uses_ok [of a B "[u]"] bus_uses_subs [of ch a t B "[u]"] by (intro Cons.IH) simp_all
  moreover have "taken B ch (u # us) a = received ch (bus_op_of u) (ag_bus a) @ taken B ch us ?a"
    using taken_received [of B ch "[u]" a] by simp
  ultimately show ?case using e commands_for_Cons [of t u us] by simp
qed (simp add: commands_for_def)

text \<open>There is room for 128 commands.\<close>

lemma room_few:
  assumes "bus_ok (ag_bus a)" "ch \<in> set (subs (ag_bus a) t)" "length (chans (ag_bus a) ch) + length (commands_for t us) \<le> 128"
  shows "room B t ch us a"
  using assms
proof (induction us arbitrary: a)
  case (Cons u us)
  let ?a = "bus_use_step B u a"
  note c = commands_for_Cons [of t u us]
  have "length (chans (ag_bus ?a) ch) \<le> length (chans (ag_bus a) ch) + length (commands_for t [u])"
    using received_subseq [OF Cons.prems(1,2), of "bus_op_of u", THEN list_emb_length] commands_published [of t "[u]"]
    by (simp add: bus_use_step_bus)
  then have "room B t ch us ?a"
    using Cons.prems c bus_uses_ok [of a B "[u]"] bus_uses_subs [of ch a t B "[u]"] by (intro Cons.IH) simp_all
  then show ?case using Cons.prems(3) c by (cases "commands_for t [u]") simp_all
qed simp

lemma room_at_first:
  assumes "bus_ok (ag_bus a)" "Subscribe t (ag_bus a) = (ch, b)" "length (commands_for t us) \<le> 128"
  shows "room B t ch us (a\<lparr>ag_bus := b\<rparr>)"
  using room_few [of "a\<lparr>ag_bus := b\<rparr>" ch t us B] subscribed [OF assms(1,2)] assms(3) by simp

lemma commands_with_room:
  assumes "bus_ok (ag_bus a)" "Subscribe t (ag_bus a) = (ch, b)" "room B t ch us (a\<lparr>ag_bus := b\<rparr>)"
  shows "taken B ch us (a\<lparr>ag_bus := b\<rparr>) @ chans (ag_bus (fold (bus_use_step B) us (a\<lparr>ag_bus := b\<rparr>))) ch = commands_for t us"
  using room_all [of "a\<lparr>ag_bus := b\<rparr>" ch t B us] subscribed [OF assms(1,2)] assms(3) by simp

subsection \<open>What is counted\<close>

lemma record_event_frame: "bktCounters (record_event B t kd dt s) = bktCounters s"
  unfolding record_event_def using AppendEvent_frame [of B t kd dt s] by (metis prod.collapse)

lemma Counter_record_event [simp]: "Counter B n (record_event B t kd dt s) = Counter B n s"
  by (simp add: Counter_def record_event_frame)

lemma Incr_events: "bktEvents (snd (snd (Incr B n s))) = bktEvents s"
  using Incr_frame [of B n s] by (metis prod.collapse)

definition is_ping :: "sess_event \<Rightarrow> bool" where
  "is_ping ev = (case ev of Recv t (Inr cmd) \<Rightarrow> (case cmd_Payload cmd of Some (Command_Ping p) \<Rightarrow> True | _ \<Rightarrow> False) | _ \<Rightarrow> False)"

definition is_tick :: "sess_event \<Rightarrow> bool" where
  "is_tick ev = (case ev of Tick i \<Rightarrow> True | _ \<Rightarrow> False)"

lemma sess_step_store:
  assumes "sess_step B c ev st = (r, st')"
  shows "ag_store (s_agent st') = (let s = ag_store (s_agent st) in
    if is_ping ev then (case ev of Recv t (Inr cmd) \<Rightarrow>
        record_event B t ''ping_received'' (CommandId cmd) (snd (snd (Incr B ''pings_received'' s))) | _ \<Rightarrow> s)
    else if is_tick ev \<and> r = Running then snd (snd (Incr B ''heartbeats'' s)) else s)"
proof (cases ev)
  case (Tick i)
  obtain req err h s where h: "hb_send B c i (s_hb st) (ag_store (s_agent st)) = (req, err, h, s)"
    by (cases "hb_send B c i (s_hb st) (ag_store (s_agent st))") auto
  show ?thesis
    using assms h hb_send_cases [OF h] Tick
    by (auto simp: sess_step_def is_ping_def is_tick_def Let_def split: sum.splits option.splits)
next
  case (Recv t res)
  then show ?thesis
    using assms by (auto simp: sess_step_def is_ping_def is_tick_def handleCommand_def Let_def
        split: sum.splits option.splits isCommand_Payload.splits prod.splits)
qed (use assms in \<open>auto simp: sess_step_def is_ping_def is_tick_def Let_def\<close>)


subsection \<open>Properties\<close>

text \<open>C15: Heartbeats of a session. With a configured interval of at most 9223372036854 ms, whatever
  the parent answers, the session does not panic, its heartbeats are numbered 1, 2, 3 and so on without gaps,
  and the ticker always runs with the current interval, which is positive and not distorted by the
  conversion to nanoseconds.\<close>

theorem heartbeat_cadence:
  assumes "0 < sint hbMs" "sint hbMs \<le> 9223372036854"
    and "session B c hbMs procstat evs a = (r, st)"
  shows "r \<noteq> Panicked \<and> map hb_Sequence (s_sent st) = map of_nat [1 ..< Suc (length (s_sent st))]
    \<and> 0 < sint (curMs (s_hb st)) \<and> sint (tick_period (s_hb st)) = sint (curMs (s_hb st)) * 1000000"
proof -
  obtain cpu ok where s0: "readCPUSample procstat = (cpu, ok)" by (cases "readCPUSample procstat")
  let ?st = "\<lparr>s_hb = \<lparr>curMs = hbMs, seq = 0, prevCPU = cpu, prevOK = ok, tick_period = ms_duration hbMs\<rparr>,
               s_agent = a, s_sent = []\<rparr>"
  have "sess_loop B c evs ?st = (r, st)"
    using assms(3) ms_duration_value [OF assms(1,2)] assms(1) by (simp add: session_def s0 Let_def)
  moreover have "sess_ok ?st" using assms(1,2) by (simp add: sess_ok_def hb_ok_def)
  ultimately have ok: "sess_ok st" "r \<noteq> Panicked" using sess_ok_loop by blast+
  then show ?thesis using ms_duration_value by (auto simp: sess_ok_def hb_ok_def)
qed

text \<open>A parent that accepts every heartbeat and asks for an interval of 5 s.\<close>

definition demo_input :: hb_input where
  "demo_input = \<lparr>in_now = 1000, in_meminfo = None, in_statfs = None,
     in_gauges = \<lparr>activeProxy = 0, activeProxyTor = 0\<rparr>, in_stat = None,
     in_rpc = (\<lambda>_ _. Inr \<lparr>hr_Accepted = True, ServerTsMs = 0, NextIntervalMs = 5000, TraceId = []\<rparr>)\<rparr>"

definition demo_agent :: "log_bucket agent" where
  "demo_agent = \<lparr>ag_store = empty_store, ag_bus = New\<rparr>"

theorem heartbeat_cadence_witness:
  "map hb_Sequence (s_sent (snd (session ref_bolt demo_client 30000 None [Tick demo_input, Tick demo_input] demo_agent))) = [1, 2]"
proof -
  let ?r = "session ref_bolt demo_client 30000 None [Tick demo_input, Tick demo_input] demo_agent"
  have "length (s_sent (snd ?r)) = 2" by (simp add: session_def readCPUSample_def Let_def ms_duration_def
        sess_step_def hb_send_def hb_load_def demo_input_def Heartbeat_def split: prod.split)
  then show ?thesis
    using heartbeat_cadence [of 30000 ref_bolt demo_client None "[Tick demo_input, Tick demo_input]" demo_agent, OF _ _ prod.collapse [symmetric]]
    by (simp add: upt_rec)
qed

text \<open>C37: A configured interval from 9223372036855 to 18446744073709 ms, which a bootstrap file may
  hold and \<open>Load\<close> accepts, overflows the conversion to nanoseconds: every session then panics
  at once, before its first heartbeat.\<close>

theorem heartbeat_overflow_panics:
  assumes "9223372036855 \<le> sint (HeartbeatMs cfg)" "sint (HeartbeatMs cfg) \<le> 18446744073709"
    and "ParentEndpoint cfg \<noteq> []" "\<not> Enabled (TLS cfg)"
    and "ReadFile path = Inr raw" "config_Unmarshal raw = Some cfg"
  shows "Load ReadFile jerr path = Inr (with_defaults cfg)
    \<and> fst (session B c (HeartbeatMs (with_defaults cfg)) procstat evs a) = Panicked
    \<and> s_sent (snd (session B c (HeartbeatMs (with_defaults cfg)) procstat evs a)) = []"
proof -
  have h: "HeartbeatMs (with_defaults cfg) = HeartbeatMs cfg" using assms(1) by (simp add: with_defaults_def)
  have "sint (ms_duration (HeartbeatMs cfg)) \<le> 0" using ms_duration_wrap [OF assms(1,2)] by simp
  then have "fst (session B c (HeartbeatMs cfg) procstat evs a) = Panicked
      \<and> s_sent (snd (session B c (HeartbeatMs cfg) procstat evs a)) = []"
    by (simp add: session_def Let_def split: prod.split)
  moreover have "Load ReadFile jerr path = Inr (with_defaults cfg)"
    using assms(3-6) by (simp add: Load_cases tls_complete_def)
  ultimately show ?thesis by (simp add: h)
qed

definition demo_bootstrap :: bytes where
  "demo_bootstrap = CHR 0x7B # DQ # ''parent_minihub_endpoint'' @ DQ # '':'' @ DQ # ''mh:7443'' @ DQ # '','' @
     DQ # ''heartbeat_ms'' @ DQ # '':10000000000000}''"

theorem heartbeat_overflow_panics_witness:
  "\<exists>cfg. Load (\<lambda>_. Inr demo_bootstrap) ErrText ''bootstrap.json'' = Inr cfg
     \<and> fst (session ref_bolt demo_client (HeartbeatMs cfg) None [Tick demo_input] demo_agent) = Panicked"
proof -
  let ?c = "zero_Config\<lparr>ParentEndpoint := ''mh:7443'', HeartbeatMs := 10000000000000\<rparr>"
  have u: "config_Unmarshal demo_bootstrap = Some ?c" by code_simp
  have v: "9223372036855 \<le> sint (HeartbeatMs ?c)" "sint (HeartbeatMs ?c) \<le> 18446744073709"
    "ParentEndpoint ?c \<noteq> []" "\<not> Enabled (TLS ?c)"
    by (simp_all add: zero_Config_def zero_TLS_def)
  show ?thesis
    using heartbeat_overflow_panics [where cfg = ?c and raw = demo_bootstrap and ReadFile = "\<lambda>_. Inr demo_bootstrap"
        and path = "''bootstrap.json''" and jerr = ErrText and B = ref_bolt and c = demo_client and procstat = None
        and evs = "[Tick demo_input]" and a = demo_agent, OF v refl u]
    by blast
qed

text \<open>C11: Commands reach their workers. A worker that subscribed to a topic receives the commands of
  that topic in the order in which the parent pushed them, whatever happens on other topics; what it
  received followed by what waits in its channel is a subsequence of them, and all of them as long
  as there were at most 128.\<close>

theorem commands_delivered:
  assumes "bus_ok (ag_bus a)" "Subscribe t (ag_bus a) = (ch, b)"
  shows "subseq (taken B ch us (a\<lparr>ag_bus := b\<rparr>) @ chans (ag_bus (fold (bus_use_step B) us (a\<lparr>ag_bus := b\<rparr>))) ch)
      (commands_for t us)
    \<and> (length (commands_for t us) \<le> 128 \<longrightarrow>
        taken B ch us (a\<lparr>ag_bus := b\<rparr>) @ chans (ag_bus (fold (bus_use_step B) us (a\<lparr>ag_bus := b\<rparr>))) ch
        = commands_for t us)"
  by (rule commands_reach_lemma [OF assms])

definition demo_open :: Command where
  "demo_open = \<lparr>CommandId = ''e1'', IssuedAtMs = 0, cmd_Payload = Some (Command_EgressOpen
     \<lparr>ConnId = ''c1'', Host = ''example.org'', Port = 443, ViaTor = False\<rparr>)\<rparr>"

definition demo_rotate :: Command where
  "demo_rotate = \<lparr>CommandId = ''r1'', IssuedAtMs = 0,
     cmd_Payload = Some (Command_RotateEgress \<lparr>rot_RequestId = ''r1''\<rparr>)\<rparr>"

lemma demo_subscribe:
  "bus_ok (ag_bus demo_agent)" "Subscribe t (ag_bus demo_agent) = (0, snd (Subscribe t (ag_bus demo_agent)))"
  by (simp_all add: demo_agent_def bus_ok_New) (simp add: Subscribe_def New_def)

theorem commands_delivered_witness:
  "taken ref_bolt 0 [Handle 5 demo_open, Sub TopicRotate, Handle 6 demo_rotate, Take 0]
     (demo_agent\<lparr>ag_bus := snd (Subscribe TopicEgress (ag_bus demo_agent))\<rparr>) = commands_for TopicEgress [Handle 5 demo_open]"
proof -
  let ?us = "[Handle 5 demo_open, Sub TopicRotate, Handle 6 demo_rotate, Take 0]"
  let ?a = "demo_agent\<lparr>ag_bus := snd (Subscribe TopicEgress (ag_bus demo_agent))\<rparr>"
  have c: "commands_for TopicEgress ?us = commands_for TopicEgress [Handle 5 demo_open]"
    "length (commands_for TopicEgress ?us) \<le> 128"
    using topics_distinct by (auto simp: commands_for_def msg_of_def demo_open_def demo_rotate_def)
  have "List.null (chans (ag_bus (fold (bus_use_step ref_bolt) ?us ?a)) 0)" by code_simp
  then have "chans (ag_bus (fold (bus_use_step ref_bolt) ?us ?a)) 0 = []" by (simp only: List.null_iff)
  then show ?thesis
    using commands_delivered [OF demo_subscribe(1) demo_subscribe(2) [of TopicEgress], of ref_bolt ?us] c by (simp del: taken.simps fold_simps)
qed

text \<open>C30: Messages are well typed: whatever a worker takes from its subscription has the type it
  asserts, so no type assertion of a worker fails.\<close>

theorem commands_typed:
  assumes "bus_ok (ag_bus a)" "Subscribe t (ag_bus a) = (ch, b)"
    and "m \<in> set (taken B ch us (a\<lparr>ag_bus := b\<rparr>))"
  shows "(t = TopicEgress \<longrightarrow> as_EgressOpen m \<noteq> None) \<and> (t = TopicRotate \<longrightarrow> as_RotateEgress m \<noteq> None)
    \<and> (t = TopicSmtp \<longrightarrow> as_SmtpSend m \<noteq> None) \<and> (t = TopicBatch \<longrightarrow> as_ConfigureBatch m \<noteq> None)"
proof -
  have "m \<in> set (taken B ch us (a\<lparr>ag_bus := b\<rparr>) @ chans (ag_bus (fold (bus_use_step B) us (a\<lparr>ag_bus := b\<rparr>))) ch)"
    using assms(3) by simp
  from list_emb_set [OF conjunct1 [OF commands_reach_lemma [OF assms(1,2)]] this]
  have "m \<in> set (commands_for t us)" by metis
  then have "topic_of m = t" by (rule commands_for_topic)
  then show ?thesis using topic_of_type [of m] by auto
qed

theorem commands_typed_witness:
  "list_all (\<lambda>m. as_EgressOpen m \<noteq> None) (taken ref_bolt 0 [Handle 6 demo_rotate, Handle 5 demo_open, Take 0, Take 0]
     (demo_agent\<lparr>ag_bus := snd (Subscribe TopicEgress (ag_bus demo_agent))\<rparr>))"
  using commands_typed [OF demo_subscribe(1) demo_subscribe(2) [of TopicEgress], of _ ref_bolt "[Handle 6 demo_rotate, Handle 5 demo_open, Take 0, Take 0]"]
  by (simp add: list_all_iff del: taken.simps)

end
