(* ===== verification/Workers.thy ===== *)
theory Workers
  imports TunnelWorker Tor
begin

section \<open>The state worker, and how the role workers take their messages\<close>

text \<open>
  state.go; the \<open>Init\<close> and \<open>Run\<close> of smtp.go and the loop of batch.go, the counterpart of \<open>handleCommand\<close>: a role worker
  takes a message from its subscription, checks its type and handles it.
\<close>

subsection \<open>State worker (state.go)\<close>

record snapshot_line =
  sn_slug :: bytes
  sn_connects :: u64
  sn_heartbeats :: u64
  sn_pings :: u64
  sn_events :: nat

definition snapshot :: "'b bolt \<Rightarrow> bytes \<Rightarrow> 'b store \<Rightarrow> snapshot_line" where
  "snapshot B slug s = \<lparr>sn_slug = slug, sn_connects = Counter B ''tunnel_connects'' s,
     sn_heartbeats = Counter B ''heartbeats'' s, sn_pings = Counter B ''pings_received'' s,
     sn_events = CountEvents B s\<rparr>"

definition state_period :: i64 where "state_period = 10 * 1000000000"

text \<open>\<open>Run\<close>: the lines logged, one at once and one per tick; \<open>None\<close> is the end of the context. The
  store is the one found at each tick.\<close>

fun state_ticks :: "'b bolt \<Rightarrow> bytes \<Rightarrow> 'b store option list \<Rightarrow> snapshot_line list \<times> bool" where
  "state_ticks B slug [] = ([], False)"
| "state_ticks B slug (None # evs) = ([], True)"
| "state_ticks B slug (Some s # evs) = (case state_ticks B slug evs of (ls, done) \<Rightarrow> (snapshot B slug s # ls, done))"

definition state_Run :: "'b bolt \<Rightarrow> bytes \<Rightarrow> 'b store \<Rightarrow> 'b store option list \<Rightarrow> snapshot_line list \<times> bool" where
  "state_Run B slug s evs = (case state_ticks B slug evs of (ls, done) \<Rightarrow> (snapshot B slug s # ls, done))"

subsection \<open>SMTP worker: Init and Run (smtp.go)\<close>

text \<open>The name used in HELO: the host name if there is one.\<close>

definition smtp_Init :: "gerror + bytes \<Rightarrow> bytes" where
  "smtp_Init hostname = (case hostname of Inr h \<Rightarrow> if h \<noteq> [] then h else ''mmh'' | Inl e \<Rightarrow> ''mmh'')"

text \<open>One message taken in \<open>Run\<close>: what \<open>handle\<close> and \<open>report\<close> do with it. The messages sent to the
  parent are logged with the error of the push; a failed push is only logged by the worker.\<close>

definition smtp_report :: "(i64 \<Rightarrow> ResultMsg \<Rightarrow> gerror + ResultAck) \<Rightarrow> SmtpResultData \<Rightarrow> ResultMsg \<times> gerror option" where
  "smtp_report rpc res = (smtp_result_msg res, PushSmtpResult rpc res)"

definition smtp_take :: "'b bolt \<Rightarrow> resolver \<Rightarrow> (bytes \<Rightarrow> bytes) \<Rightarrow> (bytes \<Rightarrow> bytes) \<Rightarrow> (nat \<Rightarrow> bytes \<Rightarrow> mx_answers) \<Rightarrow> bytes \<Rightarrow>
    (i64 \<Rightarrow> ResultMsg \<Rightarrow> gerror + ResultAck) \<Rightarrow> bus_msg \<Rightarrow> 'b store \<Rightarrow> (ResultMsg \<times> gerror option) list \<times> 'b store" where
  "smtp_take B R quote lower net helo rpc msg s = (case as_SmtpSend msg of
     None \<Rightarrow> ([], s)
   | Some cmd \<Rightarrow> (case smtp_handle R quote lower net helo (Incr B) cmd s of
       (res, s') \<Rightarrow> ([smtp_report rpc res], s')))"

text \<open>One message taken in \<open>Run\<close> of batch.go.\<close>

definition batch_take :: "'b bolt \<Rightarrow> ConfigureBatchCommand codec \<Rightarrow> (bytes \<Rightarrow> gerror option) \<Rightarrow> bus_msg \<Rightarrow>
    batch_worker \<Rightarrow> 'b store \<Rightarrow> batch_worker \<times> 'b store" where
  "batch_take B CC cronErr msg w s = (case as_ConfigureBatch msg of
     Some cmd \<Rightarrow> configure B CC cronErr cmd True w s
   | None \<Rightarrow> (w, s))"

subsection \<open>Lemmas\<close>

context bolt_healthy
begin

lemma AppendEvent_total: "AppendEvent B ts kd dt s = (e, s') \<Longrightarrow> e = None"
proof -
  assume a: "AppendEvent B ts kd dt s = (e, s')"
  have ne: "PutUint64 i \<noteq> []" for i using length_PutUint64 [of i] by (metis list.size(3) zero_neq_numeral)
  have "\<exists>b'. bkt_Put B b (PutUint64 i) v = Inr b'" for b i v using Put_ok [OF ne] .
  then show "e = None"
    using a Commit_ok by (auto simp: AppendEvent_def db_Update_def Let_def split: prod.splits sum.splits option.splits)
      (metis Inl_Inr_False)+
qed

lemma record_event_count:
  assumes "events_ok B s" "bkt_Sequence B (bktEvents s) \<noteq> - 1"
  shows "events_ok B (record_event B t kd dt s) \<and> CountEvents B (record_event B t kd dt s) = Suc (CountEvents B s)
    \<and> bkt_Sequence B (bktEvents (record_event B t kd dt s)) = bkt_Sequence B (bktEvents s) + 1"
proof -
  obtain e s' where a: "AppendEvent B t kd dt s = (e, s')" by (cases "AppendEvent B t kd dt s")
  then have "AppendEvent B t kd dt s = (None, s')" using AppendEvent_total by blast
  from AppendEvent_items [OF assms this] AppendEvent_ok [OF assms this] this show ?thesis
    by (simp add: record_event_def CountEvents_def KeyN_items)
qed

text \<open>One event of a session that keeps running.\<close>

lemma sess_step_counts:
  assumes "sess_step B c ev st = (Running, st')" "events_ok B (ag_store (s_agent st))"
    and "bkt_Sequence B (bktEvents (ag_store (s_agent st))) \<noteq> - 1"
  shows "let s = ag_store (s_agent st); s' = ag_store (s_agent st') in
     events_ok B s' \<and> CountEvents B s' = CountEvents B s + (if is_ping ev then 1 else 0)
     \<and> bkt_Sequence B (bktEvents s') = bkt_Sequence B (bktEvents s) + (if is_ping ev then 1 else 0)
     \<and> Counter B n s' = Counter B n s + (if n = ''pings_received'' \<and> is_ping ev then 1 else 0)
          + (if n = ''heartbeats'' \<and> is_tick ev then 1 else 0)"
proof -
  let ?s = "ag_store (s_agent st)"
  note st = sess_step_store [OF assms(1), unfolded Let_def]
  have incr: "events_ok B (snd (snd (Incr B m ?s))) \<and> CountEvents B (snd (snd (Incr B m ?s))) = CountEvents B ?s" for m
    using assms(2) by (simp add: events_ok_def CountEvents_def Incr_events)
  show ?thesis
  proof (cases "is_ping ev")
    case True
    then obtain t cmd where ev: "ev = Recv t (Inr cmd)"
      by (auto simp: is_ping_def split: sess_event.splits sum.splits)
    have "\<not> is_tick ev" by (simp add: ev is_tick_def)
    then show ?thesis
      using True st incr [of "''pings_received''"] record_event_count [of "snd (snd (Incr B ''pings_received'' ?s))"] assms(3)
      by (simp add: ev Incr_events Incr_step Let_def)
  next
    case False
    then show ?thesis
      using st incr [of "''heartbeats''"] assms(2) by (cases "is_tick ev") (simp_all add: Incr_events Incr_step Let_def)
  qed
qed

lemma sess_loop_counts:
  assumes "sess_loop B c evs st = (Running, st')" "events_ok B (ag_store (s_agent st))"
    and "unat (bkt_Sequence B (bktEvents (ag_store (s_agent st)))) + length evs < 2 ^ 64"
  shows "CountEvents B (ag_store (s_agent st')) = CountEvents B (ag_store (s_agent st)) + length (filter is_ping evs)
     \<and> Counter B n (ag_store (s_agent st')) = Counter B n (ag_store (s_agent st))
          + (if n = ''pings_received'' then of_nat (length (filter is_ping evs)) else 0)
          + (if n = ''heartbeats'' then of_nat (length (filter is_tick evs)) else 0)"
  using assms
proof (induction evs arbitrary: st)
  case (Cons ev evs)
  obtain r st1 where r: "sess_step B c ev st = (r, st1)" by (cases "sess_step B c ev st")
  then have l: "r = Running" "sess_loop B c evs st1 = (Running, st')"
    using Cons.prems(1) by (auto split: sess_end.splits)
  have ne: "bkt_Sequence B (bktEvents (ag_store (s_agent st))) \<noteq> - 1"
    using Cons.prems(3) max_word_64 by auto
  note one = sess_step_counts [OF r [unfolded l(1)] Cons.prems(2) ne, unfolded Let_def]
  have "unat (bkt_Sequence B (bktEvents (ag_store (s_agent st1)))) + length evs < 2 ^ 64"
    using one [THEN conjunct2, THEN conjunct2, THEN conjunct1] word_succ_unat [OF ne] Cons.prems(3) by (auto split: if_splits)
  from Cons.IH [OF l(2) _ this] one [of n] show ?case by (auto simp: algebra_simps)
qed simp

text \<open>The session is started on the store that counted and recorded it.\<close>

lemma tunnel_Run_snapshot:
  assumes "events_ok B (ag_store a)"
    and "unat (bkt_Sequence B (bktEvents (ag_store a))) + length evs + 1 < 2 ^ 64"
    and "tunnel_Run B c hbMs now procstat evs a = (Running, st)"
  shows "snapshot B slug (ag_store (s_agent st)) = \<lparr>sn_slug = slug,
    sn_connects = Counter B ''tunnel_connects'' (ag_store a),
    sn_heartbeats = Counter B ''heartbeats'' (ag_store a) + of_nat (length (filter is_tick evs)),
    sn_pings = Counter B ''pings_received'' (ag_store a) + of_nat (length (filter is_ping evs)),
    sn_events = CountEvents B (ag_store a) + 1 + length (filter is_ping evs)\<rparr>"
proof -
  obtain n e s1 where i: "Incr B ''tunnel_sessions'' (ag_store a) = (n, e, s1)"
    by (cases "Incr B ''tunnel_sessions'' (ag_store a)") auto
  define s2 where "s2 = record_event B now ''tunnel_session_start'' (''session #'' @ dec_nat (unat n)) s1"
  have s1: "s1 = snd (snd (Incr B ''tunnel_sessions'' (ag_store a)))" using i by simp
  have seq1: "bktEvents s1 = bktEvents (ag_store a)" by (simp add: s1 Incr_events)
  have ne: "bkt_Sequence B (bktEvents s1) \<noteq> - 1" using assms(2) max_word_64 by (auto simp: seq1)
  have ok1: "events_ok B s1" using assms(1) by (simp add: events_ok_def seq1)
  note rec = record_event_count [OF ok1 ne, of now "''tunnel_session_start''" "''session #'' @ dec_nat (unat n)", folded s2_def]
  have c2: "Counter B m s2 = Counter B m (ag_store a)" if "m \<noteq> ''tunnel_sessions''" for m
    using that Incr_step [of "''tunnel_sessions''" m "ag_store a"] by (simp add: s2_def s1)
  have len: "unat (bkt_Sequence B (bktEvents s2)) + length evs < 2 ^ 64"
    using rec word_succ_unat [OF ne] assms(2) by (simp add: seq1)
  obtain st0 where st0: "sess_loop B c evs st0 = (Running, st)" "ag_store (s_agent st0) = s2"
  proof -
    have "session B c hbMs procstat evs (a\<lparr>ag_store := s2\<rparr>) = (Running, st)"
      using assms(3) i by (simp add: tunnel_Run_def s2_def)
    then show ?thesis using that
      by (auto simp: session_def Let_def split: prod.splits if_splits)
  qed
  note cnt = sess_loop_counts [OF st0(1), unfolded st0(2), OF conjunct1 [OF rec] len]
  have "CountEvents B s2 = Suc (CountEvents B (ag_store a))"
    using rec by (simp add: CountEvents_def seq1)
  then show ?thesis
    using cnt [of "''tunnel_connects''"] cnt [of "''heartbeats''"] cnt [of "''pings_received''"] c2 by (simp add: snapshot_def)
qed

end


lemma mx_loop_result:
  "mx_loop dlv hosts res e = (ok, res', e') \<Longrightarrow> RequestID res' = RequestID res
     \<and> (if ok then srd_Accepted res' \<and> srd_Status res' = ''SENT''
         else srd_Accepted res' = srd_Accepted res \<and> srd_Status res' = srd_Status res)"
  by (induction hosts arbitrary: res e) (fastforce simp: Let_def split: prod.splits option.splits)+

lemma smtp_handle_result:
  "smtp_handle R quote lower net helo incr cmd s = (res, s') \<Longrightarrow> RequestID res = RequestId cmd
     \<and> srd_Status res \<in> {''SENT'', ''DEFERRED'', ''FAILED''} \<and> (srd_Accepted res \<longleftrightarrow> srd_Status res = ''SENT'')"
  by (auto simp: smtp_handle_def Let_def empty_result_def split: sum.splits if_splits prod.splits bool.splits
      dest!: mx_loop_result)

subsection \<open>Properties\<close>

text \<open>Every mail command taken from the bus is answered by exactly one result to the parent,
  under the request id of the command. Its status is \<open>SENT\<close>, \<open>DEFERRED\<close> or \<open>FAILED\<close>, and it is
  accepted exactly when the status is \<open>SENT\<close>. A push that fails is not repeated.\<close>

theorem smtp_one_result:
  assumes "as_SmtpSend msg = Some cmd"
  shows "\<exists>m e r. fst (smtp_take B R quote lower net helo rpc msg s) = [(m, e)]
    \<and> res_RequestId m = RequestId cmd \<and> GetSmtpResult (Some m) = Some r
    \<and> sr_Status r \<in> {''SENT'', ''DEFERRED'', ''FAILED''} \<and> (Accepted r \<longleftrightarrow> sr_Status r = ''SENT'')
    \<and> (e = None \<longleftrightarrow> \<not> isl (rpc (seconds 15) m))"
proof -
  obtain res s' where h: "smtp_handle R quote lower net helo (Incr B) cmd s = (res, s')"
    by (cases "smtp_handle R quote lower net helo (Incr B) cmd s")
  then have t: "fst (smtp_take B R quote lower net helo rpc msg s) = [(smtp_result_msg res, PushSmtpResult rpc res)]"
    using assms by (simp add: smtp_take_def smtp_report_def)
  have "PushSmtpResult rpc res = None \<longleftrightarrow> \<not> isl (rpc (seconds 15) (smtp_result_msg res))"
    by (auto simp: PushSmtpResult_def split: sum.split)
  with smtp_handle_result [OF h] t show ?thesis
    by (auto simp: smtp_result_msg_def GetSmtpResult_def)
qed

theorem smtp_one_result_witness:
  "\<exists>m. fst (smtp_take ref_bolt demo_resolver id id demo_net ''vm'' (\<lambda>_ _. Inr \<lparr>ack_Accepted = True\<rparr>)
      (MsgSmtpSend demo_mail) empty_store) = [(m, None)] \<and> res_RequestId m = RequestId demo_mail"
  using smtp_one_result [of "MsgSmtpSend demo_mail" demo_mail ref_bolt demo_resolver id id demo_net "''vm''"
      "\<lambda>_ _. Inr \<lparr>ack_Accepted = True\<rparr>" empty_store]
  by auto

text \<open>C29: The state snapshot is exact. On a store without write faults, while a session runs, the
  snapshot shows as many more heartbeats, pings and events as the session acknowledged, received and
  recorded (one event for the session itself). The number of tunnel connects it shows never
  changes: no part of the tunnel increments that counter.\<close>

theorem snapshot_counts:
  assumes "bolt_healthy B" "events_ok B (ag_store a)"
    and "unat (bkt_Sequence B (bktEvents (ag_store a))) + length evs + 1 < 2 ^ 64"
    and "tunnel_Run B c hbMs now procstat evs a = (Running, st)"
  shows "snapshot B slug (ag_store (s_agent st)) = \<lparr>sn_slug = slug,
    sn_connects = Counter B ''tunnel_connects'' (ag_store a),
    sn_heartbeats = Counter B ''heartbeats'' (ag_store a) + of_nat (length (filter is_tick evs)),
    sn_pings = Counter B ''pings_received'' (ag_store a) + of_nat (length (filter is_ping evs)),
    sn_events = CountEvents B (ag_store a) + 1 + length (filter is_ping evs)\<rparr>"
  by (rule bolt_healthy.tunnel_Run_snapshot [OF assms])

theorem snapshot_counts_witness:
  "sn_heartbeats (snapshot ref_bolt ''vm1'' (ag_store (s_agent (snd
     (tunnel_Run ref_bolt demo_client 30000 7 None [Tick demo_input, Tick demo_input] demo_agent))))) = 2"
proof -
  have e: "events_ok ref_bolt (ag_store demo_agent)"
    by (simp add: events_ok_def demo_agent_def empty_store_def log_bolt_def)
  have n: "unat (bkt_Sequence ref_bolt (bktEvents (ag_store demo_agent))) + length [Tick demo_input, Tick demo_input] + 1 < 2 ^ 64"
    by (simp add: demo_agent_def empty_store_def log_bolt_def)
  have z: "Counter ref_bolt ''heartbeats'' (ag_store demo_agent) = 0" unfolding demo_agent_def agent.simps by code_simp
  have "fst (tunnel_Run ref_bolt demo_client 30000 7 None [Tick demo_input, Tick demo_input] demo_agent) = Running"
    by (simp add: tunnel_Run_def session_def readCPUSample_def Let_def ms_duration_def
        sess_step_def hb_send_def hb_load_def demo_input_def Heartbeat_def split: prod.split)
  then have r: "tunnel_Run ref_bolt demo_client 30000 7 None [Tick demo_input, Tick demo_input] demo_agent =
      (Running, snd (tunnel_Run ref_bolt demo_client 30000 7 None [Tick demo_input, Tick demo_input] demo_agent))"
    by (metis prod.collapse)
  show ?thesis using snapshot_counts [OF logh.bolt_healthy_axioms e n r, of "''vm1''"] z by (simp add: is_tick_def)
qed

end
