(* ===== verification/Relay.thy ===== *)
theory Relay
  imports Proto "HOL-Library.Sublist"
begin

section \<open>Relaying a connection over a stream of frames\<close>

text \<open>
  \<open>ProxyWorker.handle\<close> (proxy.go) and the \<open>EgressStream\<close> handler of the parent stub (main.go) relay
  a connection with the same two loops: a goroutine reads the connection and sends frames, the
  handler receives frames and writes the connection. Each loop is one iteration here; a direction
  is the sending loop of one side, the frames on the wire, and the receiving loop of the other.
\<close>

subsection \<open>The loops\<close>

definition data_frame :: "bytes \<Rightarrow> EgressFrame" where
  "data_frame d = \<lparr>fr_ConnId = [], fr_Data = d, fr_Close = False, fr_Error = []\<rparr>"

definition close_frame :: EgressFrame where
  "close_frame = \<lparr>fr_ConnId = [], fr_Data = [], fr_Close = True, fr_Error = []\<rparr>"

text \<open>
  Connection to stream: \<open>Read\<close> gave \<open>chunk\<close> and possibly an error; \<open>ok f\<close> tells whether the frame
  \<open>f\<close> can be sent. The frames sent, and whether the loop goes on.
\<close>

definition pump_out :: "bytes \<Rightarrow> bool \<Rightarrow> (EgressFrame \<Rightarrow> bool) \<Rightarrow> EgressFrame list \<times> bool" where
  "pump_out chunk rerr ok =
     (if 0 < length chunk \<and> \<not> ok (data_frame chunk) then ([], False)
      else let fs = (if 0 < length chunk then [data_frame chunk] else []) in
        if rerr then (fs @ (if ok close_frame then [close_frame] else []), False)
        else (fs, True))"

text \<open>
  Stream to connection: \<open>Recv\<close> gave a frame or an error; \<open>wr d\<close> is what a write of \<open>d\<close> writes and
  whether it succeeds. The bytes written, and whether the loop goes on.
\<close>

definition pump_in :: "gerror + EgressFrame \<Rightarrow> (bytes \<Rightarrow> bytes \<times> bool) \<Rightarrow> bytes \<times> bool" where
  "pump_in res wr = (case res of
     Inl e \<Rightarrow> ([], False)
   | Inr f \<Rightarrow>
       (case (if 0 < length (fr_Data f) then wr (fr_Data f) else ([], True)) of
          (w, False) \<Rightarrow> (w, False)
        | (w, True) \<Rightarrow> (w, \<not> fr_Close f)))"

text \<open>The behaviour of \<open>Write\<close>: it writes everything, or a part and fails.\<close>

definition write_ok :: "(bytes \<Rightarrow> bytes \<times> bool) \<Rightarrow> bool" where
  "write_ok wr \<longleftrightarrow> (\<forall>d. prefix (fst (wr d)) d \<and> (snd (wr d) \<longrightarrow> fst (wr d) = d))"

definition buf_size :: nat where "buf_size = 32 * 1024"

subsection \<open>One direction\<close>

text \<open>
  \<open>p_unread\<close> was sent to the connection and not yet read, \<open>p_read\<close> was read, \<open>p_wire\<close> are the frames
  sent and not yet received, \<open>p_written\<close> was written to the other connection. \<open>p_eof\<close> tells whether
  the receiving loop ended with a close frame after writing everything it received.
\<close>

record pump =
  p_unread :: bytes
  p_read :: bytes
  p_wire :: "EgressFrame list"
  p_written :: bytes
  p_send_on :: bool
  p_recv_on :: bool
  p_eof :: bool

definition pump_init :: pump where
  "pump_init = \<lparr>p_unread = [], p_read = [], p_wire = [], p_written = [], p_send_on = True, p_recv_on = True, p_eof = False\<rparr>"

text \<open>\<open>live\<close>: the connection that is read has not been closed by this side.\<close>

inductive pump_step :: "bool \<Rightarrow> pump \<Rightarrow> pump \<Rightarrow> bool" for live :: bool where
  arrive: "pump_step live p (p\<lparr>p_unread := p_unread p @ bs\<rparr>)"
| read: "p_send_on p \<Longrightarrow> p_unread p = chunk @ rest \<Longrightarrow> length chunk \<le> buf_size \<Longrightarrow>
    chunk \<noteq> [] \<or> rerr \<Longrightarrow> live \<or> chunk = [] \<and> rerr \<Longrightarrow> pump_out chunk rerr ok = (fs, on) \<Longrightarrow>
    pump_step live p (p\<lparr>p_unread := rest, p_read := p_read p @ chunk, p_wire := p_wire p @ fs, p_send_on := on\<rparr>)"
| recv: "p_recv_on p \<Longrightarrow> p_wire p = f # fs \<Longrightarrow> write_ok wr \<Longrightarrow> pump_in (Inr f) wr = (w, on) \<Longrightarrow>
    pump_step live p (p\<lparr>p_wire := fs, p_written := p_written p @ w, p_recv_on := on,
      p_eof := fr_Close f \<and> (fr_Data f = [] \<or> w = fr_Data f)\<rparr>)"
| recv_err: "p_recv_on p \<Longrightarrow> pump_in (Inl e) wr = (w, on) \<Longrightarrow>
    pump_step live p (p\<lparr>p_written := p_written p @ w, p_recv_on := on\<rparr>)"

inductive_cases pump_stepE: "pump_step live p p'"

subsection \<open>Invariant\<close>

definition wire_data :: "EgressFrame list \<Rightarrow> bytes" where
  "wire_data fs = concat (map fr_Data fs)"

text \<open>
  While the receiver runs, what it wrote and what is on the wire is a prefix of what was read, and
  all of it unless a frame could not be sent; a close frame is the last one and only follows
  complete data.
\<close>

definition complete :: "pump \<Rightarrow> bool" where
  "complete p \<longleftrightarrow> p_read p = p_written p @ wire_data (p_wire p)"

definition pump_ok :: "pump \<Rightarrow> bool" where
  "pump_ok p \<longleftrightarrow> prefix (p_written p) (p_read p)
    \<and> (p_recv_on p \<longrightarrow> prefix (p_written p @ wire_data (p_wire p)) (p_read p) \<and> \<not> p_eof p)
    \<and> (p_recv_on p \<and> p_send_on p \<longrightarrow> complete p)
    \<and> (p_send_on p \<longrightarrow> \<not> list_ex fr_Close (p_wire p))
    \<and> (p_recv_on p \<and> list_ex fr_Close (p_wire p) \<longrightarrow> complete p \<and> \<not> list_ex fr_Close (butlast (p_wire p)))
    \<and> (p_eof p \<longrightarrow> p_written p = p_read p \<and> \<not> p_send_on p)"

lemma wire_data_simps [simp]:
  "wire_data [] = []" "wire_data (f # fs) = fr_Data f @ wire_data fs" "wire_data (fs @ gs) = wire_data fs @ wire_data gs"
  by (simp_all add: wire_data_def)

lemma frame_simps [simp]:
  "fr_Data (data_frame d) = d" "\<not> fr_Close (data_frame d)" "fr_Data close_frame = []" "fr_Close close_frame"
  by (simp_all add: data_frame_def close_frame_def)

text \<open>The outcomes of the sending loop.\<close>

lemma pump_out_cases:
  assumes "pump_out chunk rerr ok = (fs, on)"
  obtains (lost) "fs = []" "\<not> on" "chunk \<noteq> []"
    | (going) "wire_data fs = chunk" "on" "\<not> list_ex fr_Close fs"
    | (silent) "wire_data fs = chunk" "\<not> on" "\<not> list_ex fr_Close fs"
    | (closed) gs where "fs = gs @ [close_frame]" "wire_data gs = chunk" "\<not> on" "\<not> list_ex fr_Close gs"
  using assms by (cases "chunk = []") (auto simp: pump_out_def Let_def split: if_splits)

lemma pump_in_cases:
  assumes "pump_in (Inr f) wr = (w, on)" "write_ok wr"
  obtains (whole) "w = fr_Data f" "on = (\<not> fr_Close f)"
    | (part) "prefix w (fr_Data f)" "\<not> on" "fr_Data f \<noteq> []"
proof (cases "fr_Data f = []")
  case True
  then show thesis using assms(1) whole by (auto simp: pump_in_def)
next
  case False
  obtain w' g where w: "wr (fr_Data f) = (w', g)" by (cases "wr (fr_Data f)")
  then have "prefix w' (fr_Data f)" "g \<Longrightarrow> w' = fr_Data f" using assms(2) by (auto simp: write_ok_def dest!: spec [of _ "fr_Data f"])
  then show thesis using assms(1) w False whole part by (cases g) (auto simp: pump_in_def)
qed

lemma pump_ok_init: "pump_ok pump_init"
  by (simp add: pump_ok_def pump_init_def complete_def)

lemma pump_ok_read:
  assumes "pump_ok p" "p_send_on p" "pump_out chunk rerr ok = (fs, on)"
  shows "pump_ok (p\<lparr>p_unread := rest, p_read := p_read p @ chunk, p_wire := p_wire p @ fs, p_send_on := on\<rparr>)"
proof -
  have p: "prefix (p_written p) (p_read p)" "p_recv_on p \<Longrightarrow> complete p" "\<not> list_ex fr_Close (p_wire p)" "\<not> p_eof p"
    using assms(1,2) by (auto simp: pump_ok_def)
  have w: "prefix (p_written p) (p_read p @ chunk)" using p(1) by simp
  from assms(3) show ?thesis
  proof (cases rule: pump_out_cases)
    case lost
    then show ?thesis using p w by (auto simp: pump_ok_def complete_def)
  next
    case going
    then show ?thesis using p w by (auto simp: pump_ok_def complete_def)
  next
    case silent
    then show ?thesis using p w by (auto simp: pump_ok_def complete_def)
  next
    case (closed gs)
    then show ?thesis using p w by (auto simp: pump_ok_def complete_def butlast_append)
  qed
qed

lemma pump_ok_recv:
  assumes "pump_ok p" "p_recv_on p" "p_wire p = f # fs" "write_ok wr" "pump_in (Inr f) wr = (w, on)"
  shows "pump_ok (p\<lparr>p_wire := fs, p_written := p_written p @ w, p_recv_on := on,
      p_eof := fr_Close f \<and> (fr_Data f = [] \<or> w = fr_Data f)\<rparr>)"
proof -
  have pre: "prefix (p_written p @ fr_Data f @ wire_data fs) (p_read p)"
    using assms(1-3) by (simp add: pump_ok_def)
  have cl: "fr_Close f \<Longrightarrow> complete p \<and> fs = [] \<and> \<not> p_send_on p"
    using assms(1-3) by (auto simp: pump_ok_def split: if_splits)
  from assms(5,4) show ?thesis
  proof (cases rule: pump_in_cases)
    case whole
    have wr: "prefix (p_written p @ fr_Data f) (p_read p)" using pre by (auto simp: prefix_def)
    have c: "complete p \<longleftrightarrow> p_read p = p_written p @ fr_Data f @ wire_data fs"
      using assms(3) by (simp add: complete_def)
    have send: "p_send_on p \<Longrightarrow> complete p \<and> \<not> fr_Close f \<and> \<not> list_ex fr_Close fs"
      using assms(1-3) by (auto simp: pump_ok_def)
    have later: "list_ex fr_Close fs \<Longrightarrow> complete p \<and> \<not> list_ex fr_Close (butlast fs)"
      using assms(1-3) by (auto simp: pump_ok_def split: if_splits)
    show ?thesis
      unfolding pump_ok_def complete_def using whole wr pre c send later cl by auto
  next
    case part
    have wr: "prefix (p_written p @ w) (p_read p)"
      using part(1) pre by (auto simp: prefix_def)
    have "\<not> (fr_Close f \<and> w = fr_Data f) \<or> p_read p = p_written p @ w \<and> \<not> p_send_on p"
      using cl assms(3) by (auto simp: complete_def)
    moreover have "p_send_on p \<Longrightarrow> \<not> list_ex fr_Close fs" using assms(1,3) by (auto simp: pump_ok_def)
    ultimately show ?thesis
      unfolding pump_ok_def complete_def using part wr by auto
  qed
qed

lemma pump_ok_step: "pump_step live p p' \<Longrightarrow> pump_ok p \<Longrightarrow> pump_ok p'"
proof (induction rule: pump_step.induct)
  case (arrive p bs)
  then show ?case by (simp add: pump_ok_def complete_def)
next
  case (recv_err p e wr w on)
  then have e: "w = []" "on = False" by (simp_all add: pump_in_def)
  from recv_err.prems show ?case unfolding e pump_ok_def complete_def by simp
next
  case (read p chunk rest rerr ok fs on)
  then show ?case by (intro pump_ok_read)
next
  case (recv p f fs wr w on)
  then show ?case by (intro pump_ok_recv)
qed

end
