(* ===== verification/Proxy.thy ===== *)
theory Proxy
  imports Relay Workers
begin

section \<open>internal/worker/proxy.go: the exit node\<close>

text \<open>
  The proxy worker: for every egress command it opens a stream to the parent, announces the
  connection, dials the target (directly or through tor) and relays. The dialers and the stream are
  arguments; the two relaying loops are those of Relay.thy.
\<close>

subsection \<open>Opening\<close>

text \<open>\<open>pe_send fs\<close> is the error of sending the last frame of \<open>fs\<close> after the others.\<close>

record egress_env =
  pe_stream :: "gerror option"
  pe_send :: "EgressFrame list \<Rightarrow> gerror option"
  pe_tor_dialer :: "gerror option"
  pe_tor_Dial :: "bytes \<Rightarrow> gerror option"
  pe_DialTimeout :: "bytes \<Rightarrow> i64 \<Rightarrow> gerror option"

datatype open_end = NoStream gerror | NotAnnounced gerror | DialFailed gerror | Established

definition proxy_target :: "EgressOpenCommand \<Rightarrow> bytes" where
  "proxy_target cmd = JoinHostPort (Host cmd) (dec_nat (unat (Port cmd)))"

definition announce_frame :: "EgressOpenCommand \<Rightarrow> EgressFrame" where
  "announce_frame cmd = \<lparr>fr_ConnId = ConnId cmd, fr_Data = [], fr_Close = False, fr_Error = []\<rparr>"

definition error_frame :: "bytes \<Rightarrow> EgressFrame" where
  "error_frame e = \<lparr>fr_ConnId = [], fr_Data = [], fr_Close = True, fr_Error = e\<rparr>"

text \<open>A frame whose sending error is ignored.\<close>

definition send_ignoring :: "egress_env \<Rightarrow> EgressFrame list \<Rightarrow> EgressFrame \<Rightarrow> EgressFrame list" where
  "send_ignoring E sent f = (case pe_send E (sent @ [f]) of None \<Rightarrow> sent @ [f] | Some _ \<Rightarrow> sent)"

text \<open>\<open>handle\<close> up to the established connection: how it ends, the frames sent, and whether the
  sending side of the stream was closed.\<close>

definition proxy_open :: "egress_env \<Rightarrow> EgressOpenCommand \<Rightarrow> open_end \<times> EgressFrame list \<times> bool" where
  "proxy_open E cmd =
     (let target = proxy_target cmd in
      case EgressStream (case pe_stream E of Some e \<Rightarrow> Inl e | None \<Rightarrow> Inr ()) of
        Inl err \<Rightarrow> (NoStream err, [], False)
      | Inr _ \<Rightarrow>
          (case pe_send E [announce_frame cmd] of
             Some err \<Rightarrow> (NotAnnounced err, [], False)
           | None \<Rightarrow>
               (let sent = [announce_frame cmd] in
                if ViaTor cmd then
                  (case pe_tor_dialer E of
                     Some derr \<Rightarrow> (DialFailed derr, send_ignoring E sent (error_frame (''tor dialer: '' @ err_text derr)), True)
                   | None \<Rightarrow>
                       (case pe_tor_Dial E target of
                          Some err \<Rightarrow> (DialFailed err, send_ignoring E sent (error_frame (err_text err)), True)
                        | None \<Rightarrow> (Established, sent, False)))
                else
                  (case pe_DialTimeout E target (seconds 15) of
                     Some err \<Rightarrow> (DialFailed err, send_ignoring E sent (error_frame (err_text err)), True)
                   | None \<Rightarrow> (Established, sent, False)))))"

subsection \<open>Handling one command\<close>

text \<open>The receiving loop of \<open>handle\<close> over what \<open>Recv\<close> returns: the bytes written to the target, and
  whether the loop has returned.\<close>

fun recv_loop :: "(bytes \<Rightarrow> bytes \<times> bool) \<Rightarrow> (gerror + EgressFrame) list \<Rightarrow> bytes \<times> bool" where
  "recv_loop wr [] = ([], False)"
| "recv_loop wr (r # rs) = (case pump_in r wr of
     (w, False) \<Rightarrow> (w, True)
   | (w, True) \<Rightarrow> (case recv_loop wr rs of (w', fin) \<Rightarrow> (w @ w', fin)))"

text \<open>\<open>handle\<close>: how it started, the frames it sent before relaying, the bytes written to the target,
  whether it has returned, the gauges and the store. The deferred \<open>egressEnd\<close> runs on return.\<close>

definition proxy_handle :: "egress_env \<Rightarrow> (bytes \<Rightarrow> 's \<Rightarrow> u64 \<times> gerror option \<times> 's) \<Rightarrow> EgressOpenCommand \<Rightarrow>
    (bytes \<Rightarrow> bytes \<times> bool) \<Rightarrow> (gerror + EgressFrame) list \<Rightarrow> gauges \<Rightarrow> 's \<Rightarrow>
    open_end \<times> EgressFrame list \<times> bytes \<times> bool \<times> gauges \<times> 's" where
  "proxy_handle E incr cmd wr recvs g s = (case proxy_open E cmd of
     (Established, sent, _) \<Rightarrow>
       (let g = egressBegin (ViaTor cmd) g in
        case incr ''egress_connections'' s of (_, _, s) \<Rightarrow>
          (case recv_loop wr recvs of (w, fin) \<Rightarrow>
             (Established, sent, w, fin, (if fin then egressEnd (ViaTor cmd) g else g), s)))
   | (r, sent, _) \<Rightarrow> (r, sent, [], True, g, s))"

text \<open>\<open>Run\<close>: what is started for a message of either subscription; other types are skipped.\<close>

datatype proxy_job = HandleEgress EgressOpenCommand | Rotate RotateEgressCommand | Skip

definition proxy_take :: "bus_msg \<Rightarrow> proxy_job" where
  "proxy_take msg = (case as_EgressOpen msg of Some cmd \<Rightarrow> HandleEgress cmd | None \<Rightarrow> Skip)"

definition proxy_take_rotate :: "bus_msg \<Rightarrow> proxy_job" where
  "proxy_take_rotate msg = (case as_RotateEgress msg of Some cmd \<Rightarrow> Rotate cmd | None \<Rightarrow> Skip)"

subsection \<open>Lemmas\<close>

text \<open>The outcomes of the opening phase.\<close>

lemma proxy_open_cases:
  obtains (no_stream) e where "proxy_open E cmd = (NoStream e, [], False)" "pe_stream E \<noteq> None"
  | (not_announced) e where "proxy_open E cmd = (NotAnnounced e, [], False)" "pe_stream E = None"
      "pe_send E [announce_frame cmd] = Some e"
  | (dial_failed) e t where "proxy_open E cmd = (DialFailed e, send_ignoring E [announce_frame cmd] (error_frame t), True)"
      "pe_stream E = None" "pe_send E [announce_frame cmd] = None" "t = err_text e \<or> t = ''tor dialer: '' @ err_text e"
  | (established) "proxy_open E cmd = (Established, [announce_frame cmd], False)"
      "pe_stream E = None" "pe_send E [announce_frame cmd] = None"
proof (cases "pe_stream E")
  case (Some e)
  then show thesis by (intro no_stream) (simp_all add: proxy_open_def EgressStream_def)
next
  case None
  show thesis
  proof (cases "pe_send E [announce_frame cmd]")
    case (Some e)
    then show thesis using None by (intro not_announced) (simp_all add: proxy_open_def EgressStream_def)
  next
    case s: None
    have "proxy_open E cmd = (Established, [announce_frame cmd], False)
        \<or> (\<exists>e t. proxy_open E cmd = (DialFailed e, send_ignoring E [announce_frame cmd] (error_frame t), True)
              \<and> (t = err_text e \<or> t = ''tor dialer: '' @ err_text e))"
      using None s by (auto simp: proxy_open_def EgressStream_def Let_def split: option.split)
    then show thesis using established dial_failed None s by blast
  qed
qed

text \<open>When the receiving loop stops.\<close>

definition stops :: "(bytes \<Rightarrow> bytes \<times> bool) \<Rightarrow> gerror + EgressFrame \<Rightarrow> bool" where
  "stops wr r = (case r of Inl e \<Rightarrow> True | Inr f \<Rightarrow> fr_Close f \<or> (fr_Data f \<noteq> [] \<and> \<not> snd (wr (fr_Data f))))"

lemma pump_in_stops: "snd (pump_in r wr) = (\<not> stops wr r)"
  by (auto simp: pump_in_def stops_def split: sum.split prod.split bool.split)

lemma recv_loop_returns: "snd (recv_loop wr rs) = list_ex (stops wr) rs"
proof (induction rs)
  case (Cons r rs)
  then show ?case using pump_in_stops [of r wr] by (auto split: prod.split bool.split)
qed simp

lemma gauge_restored: "egressEnd viaTor (egressBegin viaTor g) = g"
  by (simp add: egressBegin_def egressEnd_def)


subsection \<open>Properties\<close>

text \<open>The error with which the dialling of the target ends, as the parent is told it.\<close>

definition dial_error :: "egress_env \<Rightarrow> EgressOpenCommand \<Rightarrow> bytes option" where
  "dial_error E cmd = (if ViaTor cmd
     then (case pe_tor_dialer E of
         Some e \<Rightarrow> Some (''tor dialer: '' @ err_text e)
       | None \<Rightarrow> map_option err_text (pe_tor_Dial E (proxy_target cmd)))
     else map_option err_text (pe_DialTimeout E (proxy_target cmd) (seconds 15)))"

definition announced :: "egress_env \<Rightarrow> EgressOpenCommand \<Rightarrow> bool" where
  "announced E cmd \<longleftrightarrow> pe_stream E = None \<and> pe_send E [announce_frame cmd] = None"

lemma proxy_open_spec:
  "fst (proxy_open E cmd) = Established \<longleftrightarrow> announced E cmd \<and> dial_error E cmd = None"
  "snd (proxy_open E cmd) = (if \<not> announced E cmd then ([], False) else case dial_error E cmd of
       None \<Rightarrow> ([announce_frame cmd], False)
     | Some t \<Rightarrow> (send_ignoring E [announce_frame cmd] (error_frame t), True))"
  by (auto simp: proxy_open_def EgressStream_def announced_def dial_error_def Let_def split: option.split)

text \<open>C28: Opening an egress connection. The connection counts as established, and is counted in the
  store, exactly when the stream opened, the announcement was sent and the target was dialled (directly, or
  through tor). The frames sent are the announcement, with the connection id, neither a close nor an error
  frame, and, exactly when the dial failed, a close frame with the error of the dial (unless its
  sending fails); in that case, and in no other, the stream is closed for sending. A connection that is not
  established writes nothing to a target, leaves the gauges and the store alone and the handler returns.\<close>

theorem proxy_handshake:
  assumes "proxy_handle E incr cmd wr recvs g s = (r, sent, w, fin, g', s')"
  shows "(r = Established \<longleftrightarrow> pe_stream E = None \<and> pe_send E [announce_frame cmd] = None \<and> dial_error E cmd = None)
    \<and> sent = (if pe_stream E \<noteq> None \<or> pe_send E [announce_frame cmd] \<noteq> None then []
        else case dial_error E cmd of
          None \<Rightarrow> [announce_frame cmd]
        | Some t \<Rightarrow> if pe_send E [announce_frame cmd, error_frame t] = None
            then [announce_frame cmd, error_frame t] else [announce_frame cmd])
    \<and> announce_frame cmd = \<lparr>fr_ConnId = ConnId cmd, fr_Data = [], fr_Close = False, fr_Error = []\<rparr>
    \<and> (\<forall>t. fr_Close (error_frame t) \<and> fr_Error (error_frame t) = t)
    \<and> (snd (snd (proxy_open E cmd)) \<longleftrightarrow>
        pe_stream E = None \<and> pe_send E [announce_frame cmd] = None \<and> dial_error E cmd \<noteq> None)
    \<and> s' = (if r = Established then snd (snd (incr ''egress_connections'' s)) else s)
    \<and> (r \<noteq> Established \<longrightarrow> w = [] \<and> fin \<and> g' = g)"
proof -
  obtain x y z where o': "proxy_open E cmd = (x, y, z)" by (cases "proxy_open E cmd")
  then have r: "r = x" "sent = y" "s' = (if r = Established then snd (snd (incr ''egress_connections'' s)) else s)"
    "r \<noteq> Established \<Longrightarrow> w = [] \<and> fin \<and> g' = g"
    using assms by (auto simp: proxy_handle_def Let_def split: open_end.splits prod.splits)
  show ?thesis
    using proxy_open_spec [of E cmd] o' r
    by (auto simp: announced_def announce_frame_def error_frame_def send_ignoring_def split: option.splits if_splits)
qed

definition demo_egress :: egress_env where
  "demo_egress = \<lparr>pe_stream = None, pe_send = (\<lambda>_. None), pe_tor_dialer = None,
     pe_tor_Dial = (\<lambda>_. Some (ErrText ''refused'')), pe_DialTimeout = (\<lambda>_ _. None)\<rparr>"

definition demo_cmd :: "bool \<Rightarrow> EgressOpenCommand" where
  "demo_cmd tor = \<lparr>ConnId = ''c1'', Host = ''2001:db8::1'', Port = 443, ViaTor = tor\<rparr>"

theorem proxy_handshake_witness:
  "proxy_handle demo_egress (\<lambda>_ n. (0, None, n + 1)) (demo_cmd True) (\<lambda>d. (d, True)) []
        \<lparr>activeProxy = 0, activeProxyTor = 0\<rparr> (0 :: nat)
     = (DialFailed (ErrText ''refused''), [announce_frame (demo_cmd True), error_frame ''refused''], [], True,
        \<lparr>activeProxy = 0, activeProxyTor = 0\<rparr>, 0)"
proof -
  let ?h = "proxy_handle demo_egress (\<lambda>_ n. (0, None, n + 1)) (demo_cmd True) (\<lambda>d. (d, True)) []
        \<lparr>activeProxy = 0, activeProxyTor = 0\<rparr> (0 :: nat)"
  obtain r sent w fin g' s' where h: "?h = (r, sent, w, fin, g', s')" by (cases ?h)
  have d: "dial_error demo_egress (demo_cmd True) = Some ''refused''"
    by (simp add: dial_error_def demo_egress_def demo_cmd_def)
  have "r = DialFailed (ErrText ''refused'')"
    using h by (simp add: proxy_handle_def proxy_open_def EgressStream_def demo_egress_def demo_cmd_def Let_def)
  then show ?thesis using proxy_handshake [OF h] h d by (simp add: demo_egress_def)
qed

text \<open>The handler returns, and the gauges are balanced: the handler of an established
  connection returns exactly when the stream fails, a close frame arrives or a write to the target fails;
  until then its connection is counted in the gauge of its service, afterwards the gauges are as before.\<close>

theorem proxy_handle_returns:
  assumes "proxy_handle E incr cmd wr recvs g s = (Established, sent, w, fin, g', s')"
  shows "(fin \<longleftrightarrow> list_ex (stops wr) recvs) \<and> g' = (if fin then g else egressBegin (ViaTor cmd) g)"
  using assms recv_loop_returns [of wr recvs]
  by (cases rule: proxy_open_cases [of E cmd])
     (auto simp: proxy_handle_def Let_def gauge_restored split: prod.splits)

theorem proxy_handle_returns_witness:
  "\<exists>sent w s'. proxy_handle demo_egress (\<lambda>_ n. (0, None, n + 1)) (demo_cmd False) (\<lambda>d. (d, True))
     [Inr (data_frame ''hello''), Inr close_frame] \<lparr>activeProxy = 3, activeProxyTor = 0\<rparr> (0 :: nat)
     = (Established, sent, w, True, \<lparr>activeProxy = 3, activeProxyTor = 0\<rparr>, s')"
proof -
  let ?h = "proxy_handle demo_egress (\<lambda>_ n. (0, None, n + 1)) (demo_cmd False) (\<lambda>d. (d, True))
     [Inr (data_frame ''hello''), Inr close_frame] \<lparr>activeProxy = 3, activeProxyTor = 0\<rparr> (0 :: nat)"
  obtain sent w fin g' s' where h: "?h = (Established, sent, w, fin, g', s')"
  proof -
    have "proxy_open demo_egress (demo_cmd False) = (Established, [announce_frame (demo_cmd False)], False)"
      by (simp add: proxy_open_def EgressStream_def demo_egress_def demo_cmd_def Let_def)
    then show ?thesis using that
      by (cases "recv_loop (\<lambda>d. (d, True)) [Inr (data_frame ''hello''), Inr close_frame]")
         (simp add: proxy_handle_def Let_def del: recv_loop.simps)
  qed
  have "list_ex (stops (\<lambda>d. (d, True))) [Inr (data_frame ''hello''), Inr close_frame]" by (simp add: stops_def)
  with proxy_handle_returns [OF h] h show ?thesis by auto
qed

end
