(* ===== verification/Egress.thy ===== *)
theory Egress
  imports Relay Proxy
begin

section \<open>An egress connection from end to end\<close>

text \<open>
  The client's connection at the parent and the target's connection at the exit node, joined by the
  two directions of an egress stream: \<open>up\<close> carries what the parent reads from the client to the
  target (sending loop of main.go, receiving loop of proxy.go), \<open>down\<close> the other way. Each side
  closes its connection when its receiving loop returns; its own sending loop then only reads an
  error. All interleavings of the four loops and of the arrival of bytes are runs.
\<close>

record egress =
  up :: pump
  down :: pump

definition egress_init :: egress where
  "egress_init = \<lparr>up = pump_init, down = pump_init\<rparr>"

inductive egress_step :: "egress \<Rightarrow> egress \<Rightarrow> bool" where
  up: "pump_step (p_recv_on (down e)) (up e) p \<Longrightarrow> egress_step e (e\<lparr>up := p\<rparr>)"
| down: "pump_step (p_recv_on (up e)) (down e) p \<Longrightarrow> egress_step e (e\<lparr>down := p\<rparr>)"

inductive egress_run :: "egress \<Rightarrow> egress \<Rightarrow> bool" where
  refl: "egress_run e e"
| step: "egress_run e f \<Longrightarrow> egress_step f g \<Longrightarrow> egress_run e g"

definition egress_ok :: "egress \<Rightarrow> bool" where
  "egress_ok e \<longleftrightarrow> pump_ok (up e) \<and> pump_ok (down e)"

lemma egress_ok_run: "egress_run e f \<Longrightarrow> egress_ok e \<Longrightarrow> egress_ok f"
proof (induction rule: egress_run.induct)
  case (step e f g)
  from step.hyps(2) step.IH [OF step.prems] show ?case
    by cases (auto simp: egress_ok_def dest: pump_ok_step)
qed

text \<open>A loop that returned never starts again, and its side writes no more.\<close>

lemma pump_step_stopped:
  "pump_step live p p' \<Longrightarrow> (p_recv_on p' \<longrightarrow> p_recv_on p) \<and> (p_send_on p' \<longrightarrow> p_send_on p)
     \<and> (\<not> p_recv_on p \<longrightarrow> p_written p' = p_written p)
     \<and> (\<not> p_send_on p \<longrightarrow> wire_data (p_wire p) = [] \<longrightarrow> wire_data (p_wire p') = [] \<and> p_read p' = p_read p \<and> p_written p' = p_written p)"
proof (induction rule: pump_step.induct)
  case (recv p f fs wr w on)
  then show ?case by (cases rule: pump_in_cases [OF recv(4,3)]) auto
next
  case (recv_err p e wr w on)
  then show ?case by (auto simp: pump_in_def)
qed auto

lemma down_settled:
  "egress_run e f \<Longrightarrow> \<not> p_send_on (down e) \<and> wire_data (p_wire (down e)) = [] \<Longrightarrow>
   \<not> p_send_on (down f) \<and> wire_data (p_wire (down f)) = [] \<and> p_written (down f) = p_written (down e)"
proof (induction rule: egress_run.induct)
  case (step e f g)
  from step.hyps(2) step.IH [OF step.prems] show ?case
    by cases (auto dest: pump_step_stopped)
qed simp

text \<open>Steps of one direction, for building runs.\<close>

lemma run_up:
  assumes "egress_run e \<lparr>up = u, down = d\<rparr>" "pump_step (p_recv_on d) u p"
  shows "egress_run e \<lparr>up = p, down = d\<rparr>"
  using egress_run.step [OF assms(1) egress_step.up [of _ p]] assms(2) by simp

lemma run_down:
  assumes "egress_run e \<lparr>up = u, down = d\<rparr>" "pump_step (p_recv_on u) d p"
  shows "egress_run e \<lparr>up = u, down = p\<rparr>"
  using egress_run.step [OF assms(1) egress_step.down [of _ p]] assms(2) by simp

definition all_ok :: "EgressFrame \<Rightarrow> bool" where "all_ok f = True"
definition wr_all :: "bytes \<Rightarrow> bytes \<times> bool" where "wr_all d = (d, True)"

lemma wr_all_ok: "write_ok wr_all"
  by (simp add: write_ok_def wr_all_def)

lemma half_close_run:
  assumes "request \<noteq> []" "length request \<le> 32768"
  shows "\<exists>e. egress_run egress_init e \<and> p_written (up e) = request \<and> p_eof (up e) \<and> p_unread (down e) = answer
    \<and> (\<forall>f. egress_run e f \<longrightarrow> p_written (down f) = [])"
proof -
  let ?u0 = "pump_init" and ?d0 = "pump_init"
  let ?u1 = "?u0\<lparr>p_unread := request\<rparr>"
  let ?u2 = "?u1\<lparr>p_unread := [], p_read := request, p_wire := [data_frame request]\<rparr>"
  let ?u3 = "?u2\<lparr>p_wire := [data_frame request, close_frame], p_send_on := False\<rparr>"
  let ?u4 = "?u3\<lparr>p_wire := [close_frame], p_written := request\<rparr>"
  let ?u5 = "?u4\<lparr>p_wire := [], p_recv_on := False, p_eof := True\<rparr>"
  let ?d1 = "?d0\<lparr>p_unread := answer\<rparr>"
  let ?d2 = "?d1\<lparr>p_wire := [close_frame], p_send_on := False\<rparr>"
  have u1: "pump_step True ?u0 ?u1"
    using pump_step.arrive [of True ?u0 request] by (simp add: pump_init_def)
  have u2: "pump_step True ?u1 ?u2"
    using pump_step.read [of ?u1 request "[]" False True all_ok "[data_frame request]" True] assms
    by (simp add: pump_init_def pump_out_def all_ok_def buf_size_def)
  have u3: "pump_step True ?u2 ?u3"
    using pump_step.read [of ?u2 "[]" "[]" True True all_ok "[close_frame]" False]
    by (simp add: pump_init_def pump_out_def all_ok_def buf_size_def)
  have u4: "pump_step True ?u3 ?u4"
    using pump_step.recv [of ?u3 "data_frame request" "[close_frame]" wr_all request True True] assms wr_all_ok
    by (simp add: pump_init_def pump_in_def wr_all_def)
  have u5: "pump_step True ?u4 ?u5"
    using pump_step.recv [of ?u4 close_frame "[]" wr_all "[]" False True] wr_all_ok
    by (simp add: pump_init_def pump_in_def)
  have d1: "pump_step True ?d0 ?d1"
    using pump_step.arrive [of True ?d0 answer] by (simp add: pump_init_def)
  have d2: "pump_step False ?d1 ?d2"
    using pump_step.read [of ?d1 "[]" answer True False all_ok "[close_frame]" False]
    by (simp add: pump_init_def pump_out_def all_ok_def buf_size_def)
  have on: "p_recv_on ?d0 = True" "p_recv_on ?d1 = True" "p_recv_on ?u4 = True" "p_recv_on ?u5 = False"
    by (simp_all add: pump_init_def)
  have "egress_run egress_init \<lparr>up = ?u0, down = ?d0\<rparr>" using egress_run.refl [of egress_init] by (simp add: egress_init_def)
  then have "egress_run egress_init \<lparr>up = ?u1, down = ?d0\<rparr>" by (rule run_up) (unfold on(1), rule u1)
  then have "egress_run egress_init \<lparr>up = ?u2, down = ?d0\<rparr>" by (rule run_up) (unfold on(1), rule u2)
  then have "egress_run egress_init \<lparr>up = ?u3, down = ?d0\<rparr>" by (rule run_up) (unfold on(1), rule u3)
  then have "egress_run egress_init \<lparr>up = ?u4, down = ?d0\<rparr>" by (rule run_up) (unfold on(1), rule u4)
  then have "egress_run egress_init \<lparr>up = ?u4, down = ?d1\<rparr>" by (rule run_down) (unfold on(3), rule d1)
  then have "egress_run egress_init \<lparr>up = ?u5, down = ?d1\<rparr>" by (rule run_up) (unfold on(2), rule u5)
  then have r: "egress_run egress_init \<lparr>up = ?u5, down = ?d2\<rparr>" by (rule run_down) (unfold on(4), rule d2)
  show ?thesis
  proof (intro exI [of _ "\<lparr>up = ?u5, down = ?d2\<rparr>"] conjI allI impI)
    show "p_written (down f) = []" if "egress_run \<lparr>up = ?u5, down = ?d2\<rparr> f" for f
      using down_settled [OF that] by (simp add: pump_init_def)
  qed (use r in simp_all)
qed

subsection \<open>Properties\<close>

text \<open>C4: Relayed data is in order and complete. In every run, what was written to the target is a
  prefix of what the parent read from the client, and what was written to the client is a prefix of
  what the exit node read from the target: no byte is reordered, repeated or invented. A receiving loop that
  ended with a close frame has written everything the other side had read.\<close>

theorem relay_in_order:
  assumes "egress_run egress_init e"
  shows "prefix (p_written (up e)) (p_read (up e)) \<and> prefix (p_written (down e)) (p_read (down e))
    \<and> (p_eof (up e) \<longrightarrow> p_written (up e) = p_read (up e))
    \<and> (p_eof (down e) \<longrightarrow> p_written (down e) = p_read (down e))"
proof -
  have "egress_ok egress_init" by (simp add: egress_ok_def egress_init_def pump_ok_init)
  from egress_ok_run [OF assms this] show ?thesis unfolding egress_ok_def pump_ok_def by blast
qed

text \<open>C36: A half-closed connection is cut. A client that sends its request and shuts down its sending
  side is served by a run in which the target receives the whole request and its answer arrives at the exit
  node, but the exit node closes the connection at the client's end of file and the answer is never read:
  no continuation delivers a byte of it.\<close>

theorem half_close_truncates:
  assumes "request \<noteq> []" "length request \<le> 32768"
  shows "\<exists>e. egress_run egress_init e \<and> p_written (up e) = request \<and> p_eof (up e) \<and> p_unread (down e) = answer
    \<and> (\<forall>f. egress_run e f \<longrightarrow> p_written (down f) = [])"
  by (rule half_close_run [OF assms])

theorem half_close_truncates_witness:
  "\<exists>e. egress_run egress_init e \<and> p_written (up e) = ''GET'' \<and> p_unread (down e) = ''200 OK'' \<and> p_written (down e) = []"
  using half_close_truncates [of "''GET''" "''200 OK''"] egress_run.refl by auto

theorem relay_in_order_witness:
  "\<exists>e. egress_run egress_init e \<and> p_eof (up e) \<and> p_written (up e) = ''GET'' \<and> p_written (up e) = p_read (up e)"
proof -
  obtain e where e: "egress_run egress_init e" "p_written (up e) = ''GET''" "p_eof (up e)"
    using half_close_run [of "''GET''" "[]"] by auto
  with relay_in_order [OF e(1)] show ?thesis by blast
qed

end
