(* ===== verification/StubParse.thy ===== *)
theory StubParse
  imports GoBufio
begin

unbundle bit_operations_syntax

section \<open>cmd/parent-stub: what a proxy client asks for\<close>

text \<open>
  The parsing part of \<open>handleSocks\<close> and \<open>handleConnect\<close>. A client connection delivers chunks of bytes
  and then its end; the buffered reader of the handler takes whole chunks into its buffer, and what
  it took beyond the request is not seen by anybody who reads the connection later.
\<close>

subsection \<open>Buffered reading\<close>

type_synonym reader = "bytes \<times> bytes list"

text \<open>\<open>io.ReadFull\<close> into a fresh slice of \<open>n\<close> bytes: the slice (zeros where nothing was read),
  whether it was filled, and the reader.\<close>

fun ReadFull :: "nat \<Rightarrow> bytes \<Rightarrow> bytes list \<Rightarrow> bytes \<times> bool \<times> reader" where
  "ReadFull n buf [] = (if n \<le> length buf then (take n buf, True, drop n buf, [])
     else (buf @ replicate (n - length buf) (CHR 0x00), False, [], []))"
| "ReadFull n buf (c # cs) = (if n \<le> length buf then (take n buf, True, drop n buf, c # cs)
     else ReadFull n (buf @ c) cs)"

text \<open>\<open>ReadString\<close> of the line feed.\<close>

fun ReadLine :: "bytes \<Rightarrow> bytes list \<Rightarrow> bytes \<times> bool \<times> reader" where
  "ReadLine buf [] = (case ReadString (ErrText ''EOF'') buf of (l, e, r) \<Rightarrow> (l, e = None, r, []))"
| "ReadLine buf (c # cs) = (case ReadString (ErrText ''EOF'') buf of
     (l, None, r) \<Rightarrow> (l, True, r, c # cs) | (l, Some e, r) \<Rightarrow> ReadLine (buf @ c) cs)"

lemma ReadFull_exact:
  assumes "buf @ concat cs = s @ rest" "length s = n"
  shows "\<exists>buf' cs'. ReadFull n buf cs = (s, True, buf', cs') \<and> buf' @ concat cs' = rest"
  using assms
proof (induction n buf cs rule: ReadFull.induct)
  case (2 n buf c cs)
  show ?case
  proof (cases "n \<le> length buf")
    case True
    have "take n (buf @ concat (c # cs)) = take n (s @ rest)" "drop n (buf @ concat (c # cs)) = drop n (s @ rest)"
      using "2.prems"(1) by simp_all
    then show ?thesis using True "2.prems"(2) by simp
  next
    case False
    then show ?thesis using 2 by simp
  qed
qed auto

text \<open>
  \<open>reads_to zs n r\<close>: reader \<open>r\<close> still has \<open>n\<close> bytes of a request to read, and \<open>zs\<close> are the chunks behind
  the one in which they end.
\<close>

definition reads_to :: "bytes list \<Rightarrow> nat \<Rightarrow> reader \<Rightarrow> bool" where
  "reads_to zs n r \<longleftrightarrow> (\<exists>xs. snd r = xs @ zs \<and> n \<le> length (fst r @ concat xs)
     \<and> (xs \<noteq> [] \<longrightarrow> length (fst r @ concat (butlast xs)) < n))"

lemma reads_to_end: "reads_to zs 0 r \<Longrightarrow> snd r = zs"
  by (auto simp: reads_to_def)

lemma ReadFull_reads:
  "reads_to zs k (buf, cs) \<Longrightarrow> n \<le> k \<Longrightarrow> ReadFull n buf cs = (b, ok, r) \<Longrightarrow> reads_to zs (k - n) r"
proof (induction n buf cs rule: ReadFull.induct)
  case (1 n buf)
  then show ?case by (auto simp: reads_to_def split: if_splits)
next
  case (2 n buf c cs)
  obtain xs where x: "c # cs = xs @ zs" "k \<le> length (buf @ concat xs)"
    "xs \<noteq> [] \<Longrightarrow> length (buf @ concat (butlast xs)) < k" using "2.prems"(1) by (auto simp: reads_to_def)
  show ?case
  proof (cases "n \<le> length buf")
    case True
    then have "r = (drop n buf, c # cs)" using "2.prems"(3) by simp
    then show ?thesis using True x "2.prems"(2) by (auto simp: reads_to_def intro!: exI [of _ xs])
  next
    case False
    then have "xs \<noteq> []" using x(2) "2.prems"(2) by auto
    then obtain ys where y: "xs = c # ys" "cs = ys @ zs" using x(1) by (cases xs) auto
    then have "reads_to zs k (buf @ c, cs)"
      using x(2,3) by (cases "ys = []") (auto simp: reads_to_def intro!: exI [of _ ys])
    then show ?thesis using "2.IH" False "2.prems"(2,3) by simp
  qed
qed

lemma ReadFull_short:
  "length (buf @ concat cs) < n \<Longrightarrow> ReadFull n buf cs =
     (buf @ concat cs @ replicate (n - length (buf @ concat cs)) (CHR 0x00), False, [], [])"
  by (induction n buf cs rule: ReadFull.induct) auto

lemma ReadLine_exact:
  assumes "buf @ concat cs = l @ CHR 0x0A # rest" "CHR 0x0A \<notin> set l"
  shows "\<exists>buf' cs'. ReadLine buf cs = (l @ [CHR 0x0A], True, buf', cs') \<and> buf' @ concat cs' = rest"
  using assms
proof (induction buf cs rule: ReadLine.induct)
  case (1 buf)
  then show ?case by (simp add: ReadString_append)
next
  case (2 buf c cs)
  obtain m e q where R: "ReadString (ErrText ''EOF'') buf = (m, e, q)" by (cases "ReadString (ErrText ''EOF'') buf")
  show ?case
  proof (cases e)
    case None
    then obtain u where u: "m = u @ [CHR 0x0A]" "CHR 0x0A \<notin> set u" "buf = m @ q" using R ReadString_ok by blast
    have "Cut (u @ CHR 0x0A # q @ concat (c # cs)) (CHR 0x0A) = (u, q @ concat (c # cs), True)"
      by (rule Cut_append [OF u(2)])
    moreover have "Cut (l @ CHR 0x0A # rest) (CHR 0x0A) = (l, rest, True)" by (rule Cut_append [OF "2.prems"(2)])
    moreover have "l @ CHR 0x0A # rest = u @ CHR 0x0A # q @ concat (c # cs)" using u "2.prems"(1) by simp
    ultimately show ?thesis using None R u(1) by simp
  next
    case (Some x)
    then show ?thesis using 2 R by simp
  qed
qed

lemma ReadLine_length:
  "ReadLine buf cs = (l, True, buf', cs') \<Longrightarrow> length (buf' @ concat cs') < length (buf @ concat cs)"
proof (induction buf cs rule: ReadLine.induct)
  case (1 buf)
  then have "ReadString (ErrText ''EOF'') buf = (l, None, buf')" "cs' = []" by (auto split: prod.splits)
  then show ?case by (auto simp: ReadString_ok)
next
  case (2 buf c cs)
  then show ?case by (fastforce simp: ReadString_ok split: prod.splits option.splits)
qed

subsection \<open>Package net\<close>

text \<open>\<open>IP.String\<close> of 4 and of 16 bytes.\<close>

fun hex_nat :: "nat \<Rightarrow> bytes" where
  "hex_nat n = (if n < 16 then [hex_char n] else hex_nat (n div 16) @ [hex_char (n mod 16)])"

declare hex_nat.simps [simp del]

fun joined :: "bytes \<Rightarrow> bytes list \<Rightarrow> bytes" where
  "joined sep [] = []"
| "joined sep [x] = x"
| "joined sep (x # y # ys) = x @ sep @ joined sep (y # ys)"

definition ipv4_String :: "bytes \<Rightarrow> bytes" where
  "ipv4_String b = joined ''.'' (map (\<lambda>c. dec_nat (of_char c)) b)"

fun groups :: "bytes \<Rightarrow> nat list" where
  "groups (a # b # r) = (256 * of_char a + of_char b) # groups r"
| "groups _ = []"

text \<open>The longest run of at least two zero groups, the first of several.\<close>

definition zero_run :: "nat list \<Rightarrow> nat \<times> nat" where
  "zero_run gs = fold (\<lambda>i (s, e). let l = length (takeWhile (\<lambda>g. g = 0) (drop i gs)) in
     if 2 \<le> l \<and> e - s < l then (i, i + l) else (s, e)) [0 ..< 8] (255, 255)"

definition ipv6_String :: "bytes \<Rightarrow> bytes" where
  "ipv6_String b = (let gs = groups b in case zero_run gs of (s, e) \<Rightarrow>
     if s < 8 then joined '':'' (map hex_nat (take s gs)) @ ''::'' @ joined '':'' (map hex_nat (drop e gs))
     else joined '':'' (map hex_nat gs))"

definition IP_String :: "bytes \<Rightarrow> bytes" where
  "IP_String b = (if length b = 4 then ipv4_String b
     else if take 12 b = replicate 10 (CHR 0x00) @ [CHR 0xFF, CHR 0xFF] then ipv4_String (drop 12 b)
     else ipv6_String b)"

text \<open>\<open>net.SplitHostPort\<close>; \<open>None\<close> is its error.\<close>

definition Index :: "bytes \<Rightarrow> char \<Rightarrow> nat option" where
  "Index s c = (case Cut s c of (a, _, True) \<Rightarrow> Some (length a) | (_, _, False) \<Rightarrow> None)"

definition SplitHostPort :: "bytes \<Rightarrow> (bytes \<times> bytes) option" where
  "SplitHostPort hp = (case LastIndex hp (CHR '':'') of
     None \<Rightarrow> None
   | Some i \<Rightarrow>
       if take 1 hp = ''['' then
         (case Index hp (CHR '']'') of
            None \<Rightarrow> None
          | Some e \<Rightarrow>
              if e + 1 \<noteq> i then None
              else if CHR ''['' \<in> set (drop 1 hp) \<or> CHR '']'' \<in> set (drop (e + 1) hp) then None
              else Some (drop 1 (take e hp), drop (i + 1) hp))
       else if CHR '':'' \<in> set (take i hp) then None
       else if CHR ''['' \<in> set hp \<or> CHR '']'' \<in> set hp then None
       else Some (take i hp, drop (i + 1) hp))"

text \<open>What \<open>JoinHostPort\<close> joined is split again.\<close>

lemma SplitHostPort_Join:
  assumes "CHR ''['' \<notin> set h" "CHR '']'' \<notin> set h" "\<And>c. c \<in> set p \<Longrightarrow> is_digit c"
  shows "SplitHostPort (JoinHostPort h p) = Some (h, p)"
proof -
  have d: "CHR '':'' \<notin> set p" "CHR ''['' \<notin> set p" "CHR '']'' \<notin> set p"
    using assms(3) [of "CHR '':''"] assms(3) [of "CHR ''[''"] assms(3) [of "CHR '']''"]
    by (auto simp: is_digit_def less_eq_char_def)
  show ?thesis
  proof (cases "CHR '':'' \<in> set h")
    case True
    have "LastIndex (''['' @ h @ '']:'' @ p) (CHR '':'') = Some (length h + 2)"
      unfolding LastIndex_Some using d(1) by (intro exI [of _ "''['' @ h @ '']''"] exI [of _ p]) simp
    moreover have "Index (''['' @ h @ '']:'' @ p) (CHR '']'') = Some (length h + 1)"
    proof -
      have "Cut ((''['' @ h) @ CHR '']'' # CHR '':'' # p) (CHR '']'') = (''['' @ h, CHR '':'' # p, True)"
        by (rule Cut_append) (use assms(2) in simp)
      then show ?thesis by (simp add: Index_def)
    qed
    ultimately show ?thesis using True d assms(1) by (simp add: JoinHostPort_def SplitHostPort_def)
  next
    case False
    then have "LastIndex (h @ '':'' @ p) (CHR '':'') = Some (length h)"
      unfolding LastIndex_Some using d(1) by (intro exI [of _ h] exI [of _ p]) simp
    moreover have "take 1 (h @ '':'' @ p) \<noteq> ''[''" using assms(1) by (cases h) auto
    ultimately show ?thesis using False d assms(1,2) by (simp add: JoinHostPort_def SplitHostPort_def)
  qed
qed


subsection \<open>SOCKS5\<close>

definition byte :: "nat \<Rightarrow> char" where
  "byte n = char_of n"

definition socks_no_auth :: bytes where "socks_no_auth = [byte 5, byte 0]"
definition socks_refused :: bytes where "socks_refused = map byte [5, 7, 0, 1, 0, 0, 0, 0, 0, 0]"
definition socks_failed :: bytes where "socks_failed = map byte [5, 1, 0, 1, 0, 0, 0, 0, 0, 0]"
definition socks_success :: bytes where "socks_success = map byte [5, 0, 0, 1, 0, 0, 0, 0, 0, 0]"

definition uint16 :: "bytes \<Rightarrow> u16" where
  "uint16 b = (push_bit 8 (of_nat (of_char (b ! 0))) OR of_nat (of_char (b ! 1)))"

text \<open>What \<open>handleSocks\<close> asks to open, the bytes its reader holds beyond the request, and the chunks
  the connection has not delivered yet.\<close>

type_synonym open_request = "bytes \<times> u16 \<times> reader"

text \<open>The port, after the host; its reading error is ignored.\<close>

definition socks_port :: "bytes \<Rightarrow> reader \<Rightarrow> open_request" where
  "socks_port host r = (case ReadFull 2 (fst r) (snd r) of (b, _, r) \<Rightarrow> (host, uint16 b, r))"

text \<open>\<open>handleSocks\<close> up to \<open>openEgress\<close>: the replies written, and the request (\<open>None\<close> when the
  connection was closed).\<close>

definition socks_request :: "bytes list \<Rightarrow> bytes list \<times> open_request option" where
  "socks_request cs = (case ReadFull 2 [] cs of (hdr, ok, buf, cs) \<Rightarrow>
     if \<not> ok \<or> hdr ! 0 \<noteq> byte 5 then ([], None)
     else case ReadFull (of_char (hdr ! 1)) buf cs of (_, ok, buf, cs) \<Rightarrow>
       if \<not> ok then ([], None)
       else case ReadFull 4 buf cs of (req, ok, buf, cs) \<Rightarrow>
         if \<not> ok \<or> req ! 1 \<noteq> byte 1 then ([socks_no_auth, socks_refused], None)
         else if req ! 3 = byte 1 then
           (case ReadFull 4 buf cs of (b, _, r) \<Rightarrow> ([socks_no_auth], Some (socks_port (IP_String b) r)))
         else if req ! 3 = byte 3 then
           (case ReadFull 1 buf cs of (l, _, buf, cs) \<Rightarrow>
              case ReadFull (of_char (l ! 0)) buf cs of (b, _, r) \<Rightarrow> ([socks_no_auth], Some (socks_port b r)))
         else if req ! 3 = byte 4 then
           (case ReadFull 16 buf cs of (b, _, r) \<Rightarrow> ([socks_no_auth], Some (socks_port (IP_String b) r)))
         else ([socks_no_auth], None))"

text \<open>\<open>handleSocks\<close>: all replies, the request passed to \<open>openEgress\<close> (which answers \<open>opened\<close>), and
  whether the connection was closed.\<close>

definition handleSocks :: "(bytes \<Rightarrow> u16 \<Rightarrow> bool) \<Rightarrow> bytes list \<Rightarrow> bytes list \<times> open_request option \<times> bool" where
  "handleSocks opened cs = (case socks_request cs of
     (out, None) \<Rightarrow> (out, None, True)
   | (out, Some (host, port, r)) \<Rightarrow>
       if \<not> opened host port then (out @ [socks_failed], Some (host, port, r), True)
       else (out @ [socks_success], Some (host, port, r), False))"

subsection \<open>HTTP CONNECT\<close>

definition http_405 :: bytes where "http_405 = ''HTTP/1.1 405 Method Not Allowed'' @ map byte [13, 10, 13, 10]"
definition http_502 :: bytes where "http_502 = ''HTTP/1.1 502 Bad Gateway'' @ map byte [13, 10, 13, 10]"
definition http_200 :: bytes where "http_200 = ''HTTP/1.1 200 Connection established'' @ map byte [13, 10, 13, 10]"

text \<open>Header lines are skipped up to the empty line.\<close>

function skip_headers :: "bytes \<Rightarrow> bytes list \<Rightarrow> reader" where
  "skip_headers buf cs = (case ReadLine buf cs of (l, ok, buf', cs') \<Rightarrow>
     if \<not> ok \<or> l = map byte [13, 10] \<or> l = map byte [10] then (buf', cs') else skip_headers buf' cs')"
  by pat_completeness auto
termination
  by (relation "measure (\<lambda>(buf, cs). length (buf @ concat cs))") (auto dest: ReadLine_length [OF sym] simp del: length_append)

declare skip_headers.simps [simp del]

text \<open>\<open>handleConnect\<close>; \<open>upper\<close> is \<open>strings.ToUpper\<close>.\<close>

definition handleConnect :: "(bytes \<Rightarrow> bytes) \<Rightarrow> (bytes \<Rightarrow> u16 \<Rightarrow> bool) \<Rightarrow> bytes list \<Rightarrow>
    bytes list \<times> open_request option \<times> bool" where
  "handleConnect upper opened cs = (case ReadLine [] cs of (line, ok, buf, cs) \<Rightarrow>
     if \<not> ok then ([], None, True)
     else let parts = Fields line in
       if length parts < 2 \<or> upper (parts ! 0) \<noteq> ''CONNECT'' then ([http_405], None, True)
       else case SplitHostPort (parts ! 1) of
         None \<Rightarrow> ([], None, True)
       | Some (host, portStr) \<Rightarrow>
           (let port = ucast (fst (ParseInt portStr)); r = skip_headers buf cs in
            if \<not> opened host port then ([http_502], Some (host, port, r), True)
            else ([http_200], Some (host, port, r), False)))"


subsection \<open>Lemmas\<close>

lemma of_char_byte [simp]: "n < 256 \<Longrightarrow> of_char (byte n) = (n :: nat)"
  by (simp add: byte_def)

text \<open>What a client sends: the greeting with its methods, and a CONNECT request for a domain.\<close>

definition socks_greeting :: "bytes \<Rightarrow> bytes" where
  "socks_greeting ms = byte 5 # byte (length ms) # ms"

definition socks_connect :: "bytes \<Rightarrow> bytes" where
  "socks_connect domain = [byte 5, byte 1, byte 0, byte 3, byte (length domain)] @ domain"

definition port_bytes :: "u16 \<Rightarrow> bytes" where
  "port_bytes p = [byte (unat p div 256), byte (unat p mod 256)]"

lemma uint16_port_bytes: "uint16 (port_bytes p) = p"
proof -
  have p: "unat p div 256 < 256" "unat p mod 256 < 256"
    using unsigned_less [of p, where ?'a = nat] by (simp_all add: less_mult_imp_div_less)
  have d: "(of_nat (unat p div 256) :: u16) = drop_bit 8 p"
    by (simp add: drop_bit_eq_div word_arith_nat_div)
  have m: "(of_nat (unat p mod 256) :: u16) = take_bit 8 p"
    by (simp add: take_bit_eq_mod word_arith_nat_mod)
  have "push_bit 8 (drop_bit 8 p) OR take_bit 8 p = p"
    by (rule bit_word_eqI) (auto simp: bit_simps)
  then show ?thesis using p by (simp add: uint16_def port_bytes_def d m del: of_nat_div of_nat_mod)
qed

text \<open>The request up to the address type, then the domain; the port is still to be read.\<close>

lemma socks_request_domain:
  assumes "concat cs = socks_greeting ms @ socks_connect domain @ rest" "length ms < 256" "length domain < 256"
  shows "\<exists>r. socks_request cs = ([socks_no_auth], Some (socks_port domain r)) \<and> fst r @ concat (snd r) = rest
    \<and> (\<forall>zs. reads_to zs (length (socks_greeting ms @ socks_connect domain) + 2) ([], cs) \<longrightarrow> reads_to zs 2 r)"
proof -
  have e0: "[] @ concat cs = [byte 5, byte (length ms)] @ ms @ socks_connect domain @ rest"
    using assms(1) by (simp add: socks_greeting_def)
  obtain b0 c0 where r0: "ReadFull 2 [] cs = ([byte 5, byte (length ms)], True, b0, c0)"
    "b0 @ concat c0 = ms @ socks_connect domain @ rest"
    using ReadFull_exact [OF e0, of 2] by auto
  obtain b1 c1 where r1: "ReadFull (length ms) b0 c0 = (ms, True, b1, c1)" "b1 @ concat c1 = socks_connect domain @ rest"
    using ReadFull_exact [OF r0(2) refl] by auto
  have e1: "b1 @ concat c1 = [byte 5, byte 1, byte 0, byte 3] @ byte (length domain) # domain @ rest"
    using r1(2) by (simp add: socks_connect_def)
  obtain b2 c2 where r2: "ReadFull 4 b1 c1 = ([byte 5, byte 1, byte 0, byte 3], True, b2, c2)"
    "b2 @ concat c2 = [byte (length domain)] @ domain @ rest"
    using ReadFull_exact [OF e1, of 4] by auto
  obtain b3 c3 where r3: "ReadFull 1 b2 c2 = ([byte (length domain)], True, b3, c3)" "b3 @ concat c3 = domain @ rest"
    using ReadFull_exact [OF r2(2), of 1] by auto
  obtain b4 c4 where r4: "ReadFull (length domain) b3 c3 = (domain, True, b4, c4)" "b4 @ concat c4 = rest"
    using ReadFull_exact [OF r3(2) refl] by auto
  have ne: "byte 3 \<noteq> byte 1" by (simp add: byte_def)
  have "socks_request cs = ([socks_no_auth], Some (socks_port domain (b4, c4)))"
    using r0(1) r1(1) r2(1) r3(1) r4 assms(2,3) ne by (simp add: socks_request_def)
  moreover have "reads_to zs 2 (b4, c4)"
    if "reads_to zs (length (socks_greeting ms @ socks_connect domain) + 2) ([], cs)" for zs
  proof -
    have "length (socks_greeting ms @ socks_connect domain) + 2 = length ms + (length domain + 9)"
      by (simp add: socks_greeting_def socks_connect_def)
    with that have "reads_to zs (length ms + (length domain + 9)) ([], cs)" by metis
    note n0 = ReadFull_reads [OF this _ r0(1)]
    have n1: "reads_to zs (length domain + 7) (b1, c1)" using ReadFull_reads [OF n0 _ r1(1)] by (simp add: add.commute)
    have n2: "reads_to zs (length domain + 3) (b2, c2)" using ReadFull_reads [OF n1 _ r2(1)] by (simp add: add.commute)
    have n3: "reads_to zs (length domain + 2) (b3, c3)" using ReadFull_reads [OF n2 _ r3(1)] by (simp add: numeral_3_eq_3 numeral_2_eq_2)
    show ?thesis using ReadFull_reads [OF n3 _ r4(1)] by simp
  qed
  ultimately show ?thesis using r4(2) by (intro exI [of _ "(b4, c4)"]) simp
qed

lemma CRLF_bytes: "map byte [13, 10] = [CHR 0x0D, CHR 0x0A]" "map byte [10] = [CHR 0x0A]"
  by code_simp+

lemma skip_headers_exact:
  assumes "buf @ concat cs = concat (map (\<lambda>h. h @ map byte [13, 10]) hs) @ map byte [13, 10] @ rest"
    and "list_all (\<lambda>h. h \<noteq> [] \<and> CHR 0x0A \<notin> set h) hs"
  shows "\<exists>buf' cs'. skip_headers buf cs = (buf', cs') \<and> buf' @ concat cs' = rest"
  using assms
proof (induction hs arbitrary: buf cs)
  case Nil
  then have "buf @ concat cs = [CHR 0x0D] @ CHR 0x0A # rest" by (simp only: CRLF_bytes) simp
  from ReadLine_exact [OF this] obtain b c where
    "ReadLine buf cs = ([CHR 0x0D] @ [CHR 0x0A], True, b, c)" "b @ concat c = rest" by auto
  then show ?case by (subst skip_headers.simps) (simp only: CRLF_bytes, simp)
next
  case (Cons h hs)
  let ?rest = "concat (map (\<lambda>h. h @ map byte [13, 10]) hs) @ map byte [13, 10] @ rest"
  have "buf @ concat cs = (h @ [CHR 0x0D]) @ CHR 0x0A # ?rest"
    using Cons.prems(1) by (simp only: CRLF_bytes) simp
  moreover have "CHR 0x0A \<notin> set (h @ [CHR 0x0D])" using Cons.prems(2) by auto
  ultimately obtain b c where
    l: "ReadLine buf cs = ((h @ [CHR 0x0D]) @ [CHR 0x0A], True, b, c)" "b @ concat c = ?rest"
    using ReadLine_exact by blast
  have "h \<noteq> []" using Cons.prems(2) by simp
  then have "skip_headers buf cs = skip_headers b c"
    using l(1) by (subst skip_headers.simps) (simp only: CRLF_bytes, auto simp: Cons_eq_append_conv)
  then show ?case using Cons.IH [OF l(2)] Cons.prems(2) by simp
qed


lemma word_no_newline: "is_word w \<Longrightarrow> CHR 0x0A \<notin> set w"
  by (auto simp: is_word_def list_all_iff word_char_def IsSpace_def)

lemma socks_port_exact:
  assumes "fst r @ concat (snd r) = port_bytes p @ rest"
  shows "\<exists>r'. socks_port h r = (h, p, r') \<and> fst r' @ concat (snd r') = rest \<and> (\<forall>zs. reads_to zs 2 r \<longrightarrow> snd r' = zs)"
proof -
  have "length (port_bytes p) = 2" by (simp add: port_bytes_def)
  from ReadFull_exact [OF assms this] obtain r' where
    r': "ReadFull 2 (fst r) (snd r) = (port_bytes p, True, r')" "fst r' @ concat (snd r') = rest" by auto
  have "snd r' = zs" if "reads_to zs 2 r" for zs
    using ReadFull_reads [of zs 2 "fst r" "snd r" 2, OF _ _ r'(1)] that reads_to_end by simp
  then show ?thesis using r' by (auto simp: socks_port_def uint16_port_bytes)
qed

text \<open>The whole request, ending in chunk \<open>y\<close>.\<close>

lemma handleSocks_chunks:
  assumes "concat (xs @ [y]) = socks_greeting ms @ socks_connect domain @ port_bytes p @ early"
    and "length (concat xs) < length (socks_greeting ms @ socks_connect domain @ port_bytes p)"
    and "length ms < 256" "length domain < 256"
  shows "handleSocks opened (xs @ y # zs) = ([socks_no_auth, if opened domain p then socks_success else socks_failed],
    Some (domain, p, early, zs), \<not> opened domain p)"
proof -
  have c: "concat (xs @ y # zs) = socks_greeting ms @ socks_connect domain @ port_bytes p @ early @ concat zs"
    using assms(1) by simp
  have pl: "length (port_bytes p) = 2" by (simp add: port_bytes_def)
  have "length (concat (xs @ [y])) = length (socks_greeting ms @ socks_connect domain) + 2 + length early"
    unfolding assms(1) by (simp add: pl)
  then have "reads_to zs (length (socks_greeting ms @ socks_connect domain) + 2) ([], xs @ y # zs)"
    using assms(2) pl unfolding reads_to_def by (intro exI [of _ "xs @ [y]"]) simp
  then obtain r where q: "socks_request (xs @ y # zs) = ([socks_no_auth], Some (socks_port domain r))"
    "fst r @ concat (snd r) = port_bytes p @ early @ concat zs" "reads_to zs 2 r"
    using socks_request_domain [OF c assms(3,4)] by blast
  obtain r' where "socks_port domain r = (domain, p, r')" "fst r' @ concat (snd r') = early @ concat zs" "snd r' = zs"
    using socks_port_exact [OF q(2), of domain] q(3) by blast
  then show ?thesis using q(1) by (cases r') (auto simp: handleSocks_def)
qed

subsection \<open>Properties\<close>

text \<open>C26: SOCKS5. However the bytes of a client arrive in chunks, a greeting with any methods
  and a CONNECT request for a domain and a port make the stub open exactly that domain and port, and
  are answered with success or failure as the opening goes. Of the connection it has read exactly the chunks
  up to the one (\<open>y\<close>) in which the request ends: what the reader holds are the bytes of this chunk behind
  the request, and all later chunks (\<open>zs\<close>) are unread.\<close>

theorem socks_request_exact:
  assumes "concat (xs @ [y]) = socks_greeting ms @ socks_connect domain @ port_bytes p @ early"
    and "length (concat xs) < length (socks_greeting ms @ socks_connect domain @ port_bytes p)"
    and "length ms < 256" "length domain < 256"
  shows "handleSocks opened (xs @ y # zs) = ([socks_no_auth, if opened domain p then socks_success else socks_failed],
      Some (domain, p, early, zs), \<not> opened domain p)"
  by (rule handleSocks_chunks [OF assms])

theorem socks_request_exact_witness:
  "handleSocks (\<lambda>_ _. True) [socks_greeting [byte 0] @ [byte 5], byte 1 # drop 2 (socks_connect ''a.org''),
       port_bytes 443 @ ''GE'', ''T'']
     = ([socks_no_auth, socks_success], Some (''a.org'', 443, ''GE'', [''T'']), False)"
proof -
  let ?xs = "[socks_greeting [byte 0] @ [byte 5], byte 1 # drop 2 (socks_connect ''a.org'')]"
  have "concat (?xs @ [port_bytes 443 @ ''GE'']) = socks_greeting [byte 0] @ socks_connect ''a.org'' @ port_bytes 443 @ ''GE''"
    by (simp add: socks_connect_def)
  moreover have "length (concat ?xs) < length (socks_greeting [byte 0] @ socks_connect ''a.org'' @ port_bytes 443)"
    by (simp add: socks_connect_def port_bytes_def)
  ultimately show ?thesis
    using socks_request_exact [of ?xs "port_bytes 443 @ ''GE''" "[byte 0]" "''a.org''" 443 "''GE''" "\<lambda>_ _. True" "[''T'']"]
    by simp
qed

text \<open>Truncated requests. The reads after the address type ignore their errors: a client that
  closes in the middle of its domain still makes the stub open a connection, to the part it sent
  padded with zero bytes and to port 0, and is answered with success if that opens.\<close>

theorem socks_truncated_accepted:
  assumes "concat cs = socks_greeting ms @ [byte 5, byte 1, byte 0, byte 3, byte n] @ part"
    and "length ms < 256" "n < 256" "length part < n"
  shows "handleSocks opened cs =
    (let host = part @ replicate (n - length part) (CHR 0x00) in
     ([socks_no_auth, if opened host 0 then socks_success else socks_failed], Some (host, 0, [], []), \<not> opened host 0))"
proof -
  have e0: "[] @ concat cs = [byte 5, byte (length ms)] @ ms @ [byte 5, byte 1, byte 0, byte 3, byte n] @ part"
    using assms(1) by (simp add: socks_greeting_def)
  obtain b0 c0 where r0: "ReadFull 2 [] cs = ([byte 5, byte (length ms)], True, b0, c0)"
    "b0 @ concat c0 = ms @ [byte 5, byte 1, byte 0, byte 3, byte n] @ part"
    using ReadFull_exact [OF e0, of 2] by auto
  obtain b1 c1 where r1: "ReadFull (length ms) b0 c0 = (ms, True, b1, c1)"
    "b1 @ concat c1 = [byte 5, byte 1, byte 0, byte 3] @ [byte n] @ part"
    using ReadFull_exact [OF r0(2) refl] by auto
  obtain b2 c2 where r2: "ReadFull 4 b1 c1 = ([byte 5, byte 1, byte 0, byte 3], True, b2, c2)"
    "b2 @ concat c2 = [byte n] @ part"
    using ReadFull_exact [OF r1(2), of 4] by auto
  obtain b3 c3 where r3: "ReadFull 1 b2 c2 = ([byte n], True, b3, c3)" "b3 @ concat c3 = part"
    using ReadFull_exact [OF r2(2), of 1] by auto
  have r4: "ReadFull n b3 c3 = (part @ replicate (n - length part) (CHR 0x00), False, [], [])"
    using ReadFull_short [of b3 c3 n] r3(2) assms(4) by (metis append_assoc)
  have ne: "byte 3 \<noteq> byte 1" by (simp add: byte_def)
  have "uint16 [CHR 0x00, CHR 0x00] = 0" by code_simp
  then have "socks_port h ([], []) = (h, 0, [], [])" for h by (simp add: socks_port_def numeral_2_eq_2)
  then show ?thesis
    using r0(1) r1(1) r2(1) r3(1) r4 assms(2,3) ne by (simp add: handleSocks_def socks_request_def Let_def)
qed

theorem socks_truncated_accepted_witness:
  "handleSocks (\<lambda>_ _. True) [socks_greeting [byte 0], [byte 5, byte 1, byte 0, byte 3, byte 5] @ ''a.o'']
     = ([socks_no_auth, socks_success], Some (''a.o'' @ [CHR 0x00, CHR 0x00], 0, [], []), False)"
proof -
  have "concat [socks_greeting [byte 0], [byte 5, byte 1, byte 0, byte 3, byte 5] @ ''a.o'']
      = socks_greeting [byte 0] @ [byte 5, byte 1, byte 0, byte 3, byte 5] @ ''a.o''" by simp
  from socks_truncated_accepted [OF this, of "\<lambda>_ _. True"] show ?thesis by (simp add: numeral_2_eq_2)
qed

text \<open>Pipelined bytes are lost. A client that sends data right behind its request, in the same
  segment, gets the success reply, but that data stays in the buffer of the handler's reader: the
  connection that is relayed does not deliver it any more.\<close>

theorem pipelined_bytes_lost:
  assumes "length ms < 256" "length domain < 256" "opened domain p"
  shows "handleSocks opened [socks_greeting ms @ socks_connect domain @ port_bytes p @ early]
    = ([socks_no_auth, socks_success], Some (domain, p, early, []), False)"
  using handleSocks_chunks [of "[]" "socks_greeting ms @ socks_connect domain @ port_bytes p @ early" ms domain p early opened "[]"]
    assms by (simp add: socks_greeting_def)

theorem pipelined_bytes_lost_witness:
  "handleSocks (\<lambda>_ _. True) [socks_greeting [byte 0] @ socks_connect ''a.org'' @ port_bytes 80 @ ''GET /'']
    = ([socks_no_auth, socks_success], Some (''a.org'', 80, ''GET /'', []), False)"
  by (rule pipelined_bytes_lost) simp_all

text \<open>HTTP CONNECT. However the bytes arrive in chunks, a request line for a host and a port
  (joined as \<open>net.JoinHostPort\<close> does) with any header lines makes the stub open that host; the port
  is taken modulo \<open>2^16\<close>, without a range check.\<close>

theorem connect_request_exact:
  assumes "concat cs = ''CONNECT '' @ JoinHostPort h (dec_nat p) @ '' '' @ version @ map byte [13, 10]
      @ concat (map (\<lambda>l. l @ map byte [13, 10]) headers) @ map byte [13, 10] @ rest"
    and "is_word h" "CHR ''['' \<notin> set h" "CHR '']'' \<notin> set h" "is_word version" "p < 2 ^ 63"
    and "list_all (\<lambda>l. l \<noteq> [] \<and> CHR 0x0A \<notin> set l) headers"
  shows "\<exists>r. handleConnect (ToUpper tab) opened cs = ([if opened h (of_nat p) then http_200 else http_502],
      Some (h, of_nat p, r), \<not> opened h (of_nat p)) \<and> fst r @ concat (snd r) = rest"
proof -
  let ?hp = "JoinHostPort h (dec_nat p)"
  let ?line = "''CONNECT '' @ ?hp @ '' '' @ version @ [CHR 0x0D]"
  have w: "is_word ?hp"
  proof -
    have b: "word_char (CHR ''['')" "word_char (CHR '']'')" "word_char (CHR '':'')"
      by (simp_all add: word_char_def ascii_def IsSpace_def)
    then show ?thesis using assms(2) is_word_dec_nat [of p] by (auto simp: JoinHostPort_def is_word_def)
  qed
  have nl: "CHR 0x0A \<notin> set ?line"
    using word_no_newline [OF w] word_no_newline [OF assms(5)] by simp
  have "[] @ concat cs = ?line @ CHR 0x0A #
      (concat (map (\<lambda>l. l @ map byte [13, 10]) headers) @ map byte [13, 10] @ rest)"
    using assms(1) by (simp only: CRLF_bytes) simp
  from ReadLine_exact [OF this nl] obtain b c where
    l: "ReadLine [] cs = (?line @ [CHR 0x0A], True, b, c)"
      "b @ concat c = concat (map (\<lambda>l. l @ map byte [13, 10]) headers) @ map byte [13, 10] @ rest" by blast
  obtain r where r: "skip_headers b c = r" "fst r @ concat (snd r) = rest"
    using skip_headers_exact [OF l(2) assms(7)] by auto
  have "Fields (''CONNECT'' @ spaced [('' '', ?hp), ('' '', version)] @ [CHR 0x0D, CHR 0x0A]) =
      ''CONNECT'' # map snd [('' '', ?hp), ('' '', version)]"
    using w assms(5)
    by (intro Fields_spaced) (simp_all add: is_word_def word_char_def ascii_def IsSpace_def blank_def)
  then have F: "Fields (?line @ [CHR 0x0A]) = [''CONNECT'', ?hp, version]" by simp
  have u: "ToUpper tab ''CONNECT'' = ''CONNECT''" by (simp add: ToUpper_def ascii_def upper_ascii_def less_eq_char_def)
  have S: "SplitHostPort ?hp = Some (h, dec_nat p)"
    using assms(3,4) dec_nat_digits by (rule SplitHostPort_Join)
  have P: "ucast (fst (ParseInt (dec_nat p))) = (of_nat p :: u16)"
  proof -
    have "sint (of_nat p :: i64) = int p"
      using assms(6) by (simp add: signed_of_nat signed_take_bit_int_eq_self)
    then have "ParseInt (dec_nat p) = (of_nat p, None)"
      using ParseInt_dec [of "of_nat p"] by (simp add: dec_int_def)
    then show ?thesis by (simp, intro bit_word_eqI) (simp add: bit_simps)
  qed
  show ?thesis
    using l(1) r F u S P by (cases r) (simp add: handleConnect_def Let_def)
qed

theorem connect_request_exact_witness:
  "\<exists>r. handleConnect (ToUpper id) (\<lambda>_ _. True) [''CONNECT [2001:db8::1]:65979 HTTP'' @ [CHR 0x2F], ''1.1'' @ map byte [13, 10],
      ''Host: x'' @ map byte [13, 10] @ map byte [13, 10]] = ([http_200], Some (''2001:db8::1'', 443, r), False)"
proof -
  let ?cs = "[''CONNECT [2001:db8::1]:65979 HTTP'' @ [CHR 0x2F], ''1.1'' @ map byte [13, 10],
      ''Host: x'' @ map byte [13, 10] @ map byte [13, 10]]"
  let ?v = "''HTTP'' @ [CHR 0x2F] @ ''1.1''"
  have d: "dec_nat 65979 = ''65979''" by code_simp
  have "concat ?cs = ''CONNECT '' @ JoinHostPort ''2001:db8::1'' (dec_nat 65979) @ '' '' @ ?v @ map byte [13, 10]
      @ concat (map (\<lambda>l. l @ map byte [13, 10]) [''Host: x'']) @ map byte [13, 10] @ []"
    by (simp add: d JoinHostPort_def)
  moreover have "is_word ''2001:db8::1''" "is_word ?v" by (simp_all add: is_word_def word_char_def ascii_def IsSpace_def)
  ultimately show ?thesis
    using connect_request_exact [of ?cs "''2001:db8::1''" 65979 ?v "[''Host: x'']" "[]" id "\<lambda>_ _. True"] by auto
qed

end
