(* ===== verification/ParentStub.thy ===== *)
theory ParentStub
  imports StubParse Relay TunnelClient
begin

section \<open>cmd/parent-stub: the parent of the walking skeleton\<close>

text \<open>
  The server side of main.go: the child's command stream, the clients that wait for an egress
  stream, and the handlers that connect them. Handlers run concurrently; each operation of the
  server that takes the lock once (or is atomic) is a function here, and a handler is a sequence of
  them. The step relation at the end runs any number of handlers, command streams and egress
  streams in any interleaving. Client connections and command streams are numbered.
\<close>

subsection \<open>The server and its operations\<close>

record server =
  hbCount :: u64
  connSeq :: u64
  child :: "nat option"
  pending :: "bytes \<rightharpoonup> nat"

definition server_init :: server where
  "server_init = \<lparr>hbCount = 0, connSeq = 0, child = None, pending = Map.empty\<rparr>"

definition stub_Heartbeat :: "i64 \<Rightarrow> server \<Rightarrow> HeartbeatResponse \<times> server" where
  "stub_Heartbeat nowMs s = (\<lparr>hr_Accepted = True, ServerTsMs = nowMs, NextIntervalMs = 30000, TraceId = ''stub-trace''\<rparr>,
     s\<lparr>hbCount := hbCount s + 1\<rparr>)"

text \<open>\<open>PollCommand\<close>: a command stream takes the child's place, and gives it up at its end if it
  still has it; between the two it sends pings.\<close>

definition poll_begin :: "nat \<Rightarrow> server \<Rightarrow> server" where
  "poll_begin cc s = s\<lparr>child := Some cc\<rparr>"

definition poll_end :: "nat \<Rightarrow> server \<Rightarrow> server" where
  "poll_end cc s = (if child s = Some cc then s\<lparr>child := None\<rparr> else s)"

definition ping_command :: "i64 \<Rightarrow> Command" where
  "ping_command nowMs = \<lparr>CommandId = ''ping'', IssuedAtMs = nowMs,
     cmd_Payload = Some (Command_Ping \<lparr>Note = ''keepalive''\<rparr>)\<rparr>"

definition registerPending :: "bytes \<Rightarrow> nat \<Rightarrow> server \<Rightarrow> server" where
  "registerPending i c s = s\<lparr>pending := (pending s)(i \<mapsto> c)\<rparr>"

definition takePending :: "bytes \<Rightarrow> server \<Rightarrow> nat option \<times> server" where
  "takePending i s = (pending s i, s\<lparr>pending := (pending s)(i := None)\<rparr>)"

text \<open>\<open>openEgress\<close> in its atomic parts: the child; a fresh connection id; the registration; the
  command; its withdrawal when it cannot be sent.\<close>

definition conn_id :: "u64 \<Rightarrow> bytes" where
  "conn_id n = ''c'' @ dec_nat (unat n)"

definition next_conn :: "server \<Rightarrow> bytes \<times> server" where
  "next_conn s = (let n = connSeq s + 1 in (conn_id n, s\<lparr>connSeq := n\<rparr>))"

definition open_alloc :: "server \<Rightarrow> (nat \<times> bytes) option \<times> server" where
  "open_alloc s = (case child s of
     None \<Rightarrow> (None, s)
   | Some cc \<Rightarrow> (case next_conn s of (cid, s) \<Rightarrow> (Some (cc, cid), s)))"

definition egress_command :: "bytes \<Rightarrow> bytes \<Rightarrow> u16 \<Rightarrow> i64 \<Rightarrow> Command" where
  "egress_command cid host port nowMs = \<lparr>CommandId = ''egress-'' @ cid, IssuedAtMs = nowMs,
     cmd_Payload = Some (Command_EgressOpen \<lparr>ConnId = cid, Host = host, Port = ucast port, ViaTor = False\<rparr>)\<rparr>"

definition openEgress :: "(nat \<Rightarrow> Command \<Rightarrow> gerror option) \<Rightarrow> i64 \<Rightarrow> nat \<Rightarrow> bytes \<Rightarrow> u16 \<Rightarrow> server \<Rightarrow>
    bool \<times> Command option \<times> server" where
  "openEgress send nowMs client host port s = (case open_alloc s of
     (None, s) \<Rightarrow> (False, None, s)
   | (Some (cc, cid), s) \<Rightarrow>
       (let s = registerPending cid client s; cmd = egress_command cid host port nowMs in
        case send cc cmd of
          Some err \<Rightarrow> (False, None, snd (takePending cid s))
        | None \<Rightarrow> (True, Some cmd, s)))"

text \<open>\<open>EgressStream\<close> up to the relaying: the first frame names the connection.\<close>

datatype stream_start = NoPendingClient gerror | UpstreamFailed nat | Relaying nat

definition stream_open :: "EgressFrame \<Rightarrow> server \<Rightarrow> stream_start \<times> server" where
  "stream_open f s = (case takePending (fr_ConnId f) s of
     (None, s) \<Rightarrow> (NoPendingClient (ErrText (''no pending client for '' @ fr_ConnId f)), s)
   | (Some c, s) \<Rightarrow> if fr_Close f then (UpstreamFailed c, s) else (Relaying c, s))"

text \<open>Its two relaying loops, one iteration each, as in Relay.thy; they are the loops of proxy.go.\<close>

definition stub_out :: "bytes \<Rightarrow> bool \<Rightarrow> (EgressFrame \<Rightarrow> bool) \<Rightarrow> EgressFrame list \<times> bool" where
  "stub_out chunk rerr ok =
     (if 0 < length chunk \<and> \<not> ok (data_frame chunk) then ([], False)
      else let fs = (if 0 < length chunk then [data_frame chunk] else []) in
        if rerr then (fs @ (if ok close_frame then [close_frame] else []), False)
        else (fs, True))"

definition stub_in :: "gerror + EgressFrame \<Rightarrow> (bytes \<Rightarrow> bytes \<times> bool) \<Rightarrow> bytes \<times> bool" where
  "stub_in res wr = (case res of
     Inl e \<Rightarrow> ([], False)
   | Inr f \<Rightarrow>
       (case (if 0 < length (fr_Data f) then wr (fr_Data f) else ([], True)) of
          (w, False) \<Rightarrow> (w, False)
        | (w, True) \<Rightarrow> (w, \<not> fr_Close f)))"

lemma stub_loops: "stub_out = pump_out" "stub_in = pump_in"
  by (simp_all add: fun_eq_iff stub_out_def pump_out_def stub_in_def pump_in_def)

subsection \<open>Setting up\<close>

text \<open>\<open>mtlsCreds\<close>: the result of parsing the CA file is not looked at; \<open>pool_of\<close> is the pool it gives.\<close>

record 'c server_tls =
  st_cert :: 'c
  st_clientCAs :: "bytes list"
  st_require_client :: bool
  st_min_version :: nat

definition mtlsCreds :: "'c tls_env \<Rightarrow> (bytes \<Rightarrow> bytes list) \<Rightarrow> bytes \<Rightarrow> bytes \<Rightarrow> bytes \<Rightarrow> gerror + 'c server_tls" where
  "mtlsCreds T pool_of certPath keyPath caPath = (case LoadX509KeyPair T certPath keyPath of
     Inl err \<Rightarrow> Inl err
   | Inr crt \<Rightarrow> (case tls_ReadFile T caPath of
       Inl err \<Rightarrow> Inl err
     | Inr caPEM \<Rightarrow> Inr \<lparr>st_cert = crt, st_clientCAs = pool_of caPEM, st_require_client = True,
                       st_min_version = VersionTLS12\<rparr>))"

definition stub_envOr :: "(bytes \<Rightarrow> bytes) \<Rightarrow> bytes \<Rightarrow> bytes \<Rightarrow> bytes" where
  "stub_envOr Getenv k d = (let v = Getenv k in if v \<noteq> [] then v else d)"

text \<open>The set-up in \<open>main\<close>: the listeners that are opened, in order, and whether the server starts (\<open>None\<close>:
  it exits with status 1). A proxy listener that cannot be opened is only logged. \<open>Listen ls a\<close> is the
  answer to listening at \<open>a\<close> while the listeners \<open>ls\<close> are open.\<close>

definition stub_main :: "(bytes \<Rightarrow> bytes) \<Rightarrow> (bytes list \<Rightarrow> bytes \<Rightarrow> gerror option) \<Rightarrow> 'c tls_env \<Rightarrow> (bytes \<Rightarrow> bytes list) \<Rightarrow>
    (bytes list \<times> 'c server_tls option) option" where
  "stub_main Getenv Listen T pool_of =
     (let addr = stub_envOr Getenv ''STUB_ADDR'' '':7443'' in
      if Listen [] addr \<noteq> None then None
      else
        let rest = (\<lambda>creds.
          let a = stub_envOr Getenv ''SOCKS_ADDR'' '':1080'';
              ls = [addr] @ (if a \<noteq> [] \<and> Listen [addr] a = None then [a] else []);
              h = stub_envOr Getenv ''HTTP_ADDR'' '':8080'';
              ls = ls @ (if h \<noteq> [] \<and> Listen ls h = None then [h] else [])
          in Some (ls, creds))
        in if Getenv ''TLS_CERT'' \<noteq> [] then
             (case mtlsCreds T pool_of (Getenv ''TLS_CERT'') (Getenv ''TLS_KEY'') (Getenv ''TLS_CA'') of
                Inl err \<Rightarrow> None | Inr creds \<Rightarrow> rest (Some creds))
           else rest None)"

text \<open>The exit status of the program: \<open>Serve\<close> is the answer of gRPC's \<open>Serve\<close>, which returns without an error
  after the \<open>GracefulStop\<close> that the end of the context causes.\<close>

definition stub_exit :: "(bytes \<Rightarrow> bytes) \<Rightarrow> (bytes list \<Rightarrow> bytes \<Rightarrow> gerror option) \<Rightarrow> 'c tls_env \<Rightarrow> (bytes \<Rightarrow> bytes list) \<Rightarrow>
    (bytes list \<Rightarrow> 'c server_tls option \<Rightarrow> gerror option) \<Rightarrow> nat" where
  "stub_exit Getenv Listen T pool_of Serve = (case stub_main Getenv Listen T pool_of of
     None \<Rightarrow> 1
   | Some (ls, creds) \<Rightarrow> (case Serve ls creds of Some err \<Rightarrow> 1 | None \<Rightarrow> 0))"

text \<open>With a certificate configured, a server that starts demands one of every client.\<close>

lemma stub_demands_certificate:
  "stub_main Getenv Listen T pool_of = Some (ls, creds) \<Longrightarrow> Getenv ''TLS_CERT'' \<noteq> [] \<Longrightarrow>
   \<exists>c. creds = Some c \<and> st_require_client c \<and> st_min_version c = VersionTLS12"
  by (auto simp: stub_main_def mtlsCreds_def Let_def split: if_splits sum.splits)

text \<open>An empty address does not disable a proxy listener: the default takes its place.\<close>

lemma empty_address_listens:
  "Getenv ''SOCKS_ADDR'' = [] \<Longrightarrow> Listen [stub_envOr Getenv ''STUB_ADDR'' '':7443''] '':1080'' = None \<Longrightarrow>
   stub_main Getenv Listen T pool_of = Some (ls, creds) \<Longrightarrow> '':1080'' \<in> set ls"
  by (auto simp: stub_main_def stub_envOr_def Let_def split: if_splits sum.splits)

subsection \<open>The running server\<close>

text \<open>
  Where the handler of a client connection is: before \<open>openEgress\<close>, with a child, with a connection id,
  registered, the command sent (\<open>openEgress\<close> returned true), success replied, or closed.
\<close>

datatype stage = Fresh | Chosen nat | Allocated nat bytes | Registered nat bytes | Requested bytes | Replied bytes | Closed "bytes option"

fun id_of :: "stage \<Rightarrow> bytes option" where
  "id_of Fresh = None" | "id_of (Chosen k) = None" | "id_of (Allocated k i) = Some i" | "id_of (Registered k i) = Some i"
| "id_of (Requested i) = Some i" | "id_of (Replied i) = Some i" | "id_of (Closed i) = i"

datatype client_out = Success | Failure | RelayData bytes

record system =
  srv :: server
  stage_of :: "nat \<Rightarrow> stage"
  relays :: "(bytes \<times> nat) list"
  outs :: "nat \<Rightarrow> client_out list"

definition system_init :: system where
  "system_init = \<lparr>srv = server_init, stage_of = (\<lambda>_. Fresh), relays = [], outs = (\<lambda>_. [])\<rparr>"

abbreviation set_stage :: "nat \<Rightarrow> stage \<Rightarrow> system \<Rightarrow> system" where
  "set_stage c st y \<equiv> y\<lparr>stage_of := (stage_of y)(c := st)\<rparr>"

abbreviation emit :: "nat \<Rightarrow> client_out \<Rightarrow> system \<Rightarrow> system" where
  "emit c o' y \<equiv> y\<lparr>outs := (outs y)(c := outs y c @ [o'])\<rparr>"

text \<open>Connection numbers are assumed not to wrap: \<open>alloc\<close> needs room in the 64-bit counter.\<close>

inductive sys_step :: "system \<Rightarrow> system \<Rightarrow> bool" where
  poll: "sys_step y (y\<lparr>srv := poll_begin k (srv y)\<rparr>)"
| poll_done: "sys_step y (y\<lparr>srv := poll_end k (srv y)\<rparr>)"
| no_child: "stage_of y c = Fresh \<Longrightarrow> child (srv y) = None \<Longrightarrow>
    sys_step y (emit c Failure (set_stage c (Closed None) y))"
| choose: "stage_of y c = Fresh \<Longrightarrow> child (srv y) = Some k \<Longrightarrow> sys_step y (set_stage c (Chosen k) y)"
| alloc: "stage_of y c = Chosen k \<Longrightarrow> next_conn (srv y) = (i, s) \<Longrightarrow> connSeq (srv y) \<noteq> - 1 \<Longrightarrow>
    sys_step y (set_stage c (Allocated k i) (y\<lparr>srv := s\<rparr>))"
| register: "stage_of y c = Allocated k i \<Longrightarrow>
    sys_step y (set_stage c (Registered k i) (y\<lparr>srv := registerPending i c (srv y)\<rparr>))"
| send_ok: "stage_of y c = Registered k i \<Longrightarrow> sys_step y (set_stage c (Requested i) y)"
| send_fail: "stage_of y c = Registered k i \<Longrightarrow> takePending i (srv y) = (r, s) \<Longrightarrow>
    sys_step y (emit c Failure (set_stage c (Closed (Some i)) (y\<lparr>srv := s\<rparr>)))"
| reply: "stage_of y c = Requested i \<Longrightarrow> sys_step y (emit c Success (set_stage c (Replied i) y))"
| stream: "stream_open f (srv y) = (Relaying c, s) \<Longrightarrow>
    sys_step y (y\<lparr>srv := s, relays := relays y @ [(fr_ConnId f, c)]\<rparr>)"
| stream_failed: "stream_open f (srv y) = (UpstreamFailed c, s) \<Longrightarrow> sys_step y (y\<lparr>srv := s\<rparr>)"
| stream_unknown: "stream_open f (srv y) = (NoPendingClient e, s) \<Longrightarrow> sys_step y (y\<lparr>srv := s\<rparr>)"
| relay_data: "(i, c) \<in> set (relays y) \<Longrightarrow> sys_step y (emit c (RelayData d) y)"

inductive reachable :: "system \<Rightarrow> bool" where
  init: "reachable system_init"
| step: "reachable y \<Longrightarrow> sys_step y z \<Longrightarrow> reachable z"

subsection \<open>Invariant\<close>

text \<open>
  Every connection id belongs to one handler; a pending entry points to the handler with that id,
  which has registered; a relayed id is not pending and its handler has registered.
\<close>

definition past_alloc :: "stage \<Rightarrow> bool" where
  "past_alloc st \<longleftrightarrow> (case st of Fresh \<Rightarrow> False | Chosen k \<Rightarrow> False | Allocated k i \<Rightarrow> False | _ \<Rightarrow> True)"

definition sys_inv :: "system \<Rightarrow> bool" where
  "sys_inv y \<longleftrightarrow>
     (\<forall>c i. id_of (stage_of y c) = Some i \<longrightarrow> (\<exists>n. i = conn_id n \<and> n \<le> connSeq (srv y)))
   \<and> (\<forall>c d i. id_of (stage_of y c) = Some i \<and> id_of (stage_of y d) = Some i \<longrightarrow> c = d)
   \<and> (\<forall>i c. pending (srv y) i = Some c \<longrightarrow> id_of (stage_of y c) = Some i \<and> past_alloc (stage_of y c))
   \<and> (\<forall>i c. (i, c) \<in> set (relays y) \<longrightarrow> id_of (stage_of y c) = Some i \<and> past_alloc (stage_of y c)
        \<and> pending (srv y) i = None)
   \<and> distinct (map fst (relays y))"

lemma conn_id_inject: "conn_id m = conn_id n \<longleftrightarrow> m = n"
  unfolding conn_id_def by (metis ParseUint_dec prod.inject same_append_eq)

lemma past_alloc_simps [simp]:
  "\<not> past_alloc Fresh" "\<not> past_alloc (Chosen k)" "\<not> past_alloc (Allocated k i)" "past_alloc (Registered k i)" "past_alloc (Requested i)"
  "past_alloc (Replied i)" "past_alloc (Closed j)"
  by (simp_all add: past_alloc_def)

lemma next_conn_iff: "next_conn s = (i, s') \<longleftrightarrow> i = conn_id (connSeq s + 1) \<and> s' = s\<lparr>connSeq := connSeq s + 1\<rparr>"
  by (auto simp: next_conn_def Let_def)

lemma stream_open_cases:
  "stream_open f s = (r, s') \<Longrightarrow> s' = s\<lparr>pending := (pending s)(fr_ConnId f := None)\<rparr> \<and>
     (case r of Relaying c \<Rightarrow> pending s (fr_ConnId f) = Some c \<and> \<not> fr_Close f
      | UpstreamFailed c \<Rightarrow> pending s (fr_ConnId f) = Some c \<and> fr_Close f
      | NoPendingClient e \<Rightarrow> pending s (fr_ConnId f) = None)"
  by (auto simp: stream_open_def takePending_def split: option.splits if_splits)

lemma sys_inv_init: "sys_inv system_init"
  by (simp add: sys_inv_def system_init_def server_init_def)


text \<open>Changing a handler's stage without changing its connection id.\<close>

lemma sys_inv_stage:
  assumes "sys_inv y" "id_of st = id_of (stage_of y c)" "past_alloc (stage_of y c) \<longrightarrow> past_alloc st"
  shows "sys_inv (set_stage c st y)"
  using assms unfolding sys_inv_def by (auto simp del: id_of.simps)

lemma sys_inv_outs: "sys_inv (y\<lparr>outs := os\<rparr>) = sys_inv y"
  by (simp add: sys_inv_def)

lemma sys_inv_forget: "sys_inv y \<Longrightarrow> sys_inv (y\<lparr>srv := (srv y)\<lparr>pending := (pending (srv y))(i := None)\<rparr>\<rparr>)"
  unfolding sys_inv_def by auto

lemma sys_inv_child: "sys_inv (y\<lparr>srv := (srv y)\<lparr>child := k\<rparr>\<rparr>) = sys_inv y"
  by (simp add: sys_inv_def)

lemma sys_inv_alloc:
  assumes "sys_inv y" "stage_of y c = Chosen k" "connSeq (srv y) \<noteq> - 1"
  shows "sys_inv (set_stage c (Allocated k (conn_id (connSeq (srv y) + 1))) (y\<lparr>srv := (srv y)\<lparr>connSeq := connSeq (srv y) + 1\<rparr>\<rparr>))"
proof -
  let ?n = "connSeq (srv y) + 1"
  have lt: "connSeq (srv y) < ?n" by (rule word_less_succ [OF assms(3)])
  have old: "id_of (stage_of y d) = Some i \<Longrightarrow> i \<noteq> conn_id ?n" for d i
  proof
    assume h: "id_of (stage_of y d) = Some i" "i = conn_id ?n"
    then obtain m where "conn_id ?n = conn_id m" "m \<le> connSeq (srv y)" using assms(1) unfolding sys_inv_def by blast
    then show False using lt by (simp add: conn_id_inject)
  qed
  have c: "pending (srv y) i \<noteq> Some c" "(i, c) \<notin> set (relays y)" for i
    using assms(1,2) by (force simp: sys_inv_def)+
  have le: "n \<le> connSeq (srv y) \<Longrightarrow> n \<le> ?n" for n using lt by simp
  show ?thesis
    using assms(1) old c le unfolding sys_inv_def by (auto split: if_splits) metis+
qed

lemma sys_inv_pending:
  assumes "sys_inv y" "id_of (stage_of y c) = Some i" "past_alloc (stage_of y c)" "\<forall>d. (i, d) \<notin> set (relays y)"
  shows "sys_inv (y\<lparr>srv := (srv y)\<lparr>pending := (pending (srv y))(i \<mapsto> c)\<rparr>\<rparr>)"
  using assms unfolding sys_inv_def by auto

lemma sys_inv_register:
  assumes "sys_inv y" "stage_of y c = Allocated k i"
  shows "sys_inv (set_stage c (Registered k i) (y\<lparr>srv := (srv y)\<lparr>pending := (pending (srv y))(i \<mapsto> c)\<rparr>\<rparr>))"
proof -
  have "(i, d) \<notin> set (relays y)" for d
  proof
    assume r: "(i, d) \<in> set (relays y)"
    have d: "id_of (stage_of y d) = Some i" "past_alloc (stage_of y d)"
      using assms(1) r unfolding sys_inv_def by blast+
    have "id_of (stage_of y c) = Some i" using assms(2) by simp
    then have "d = c" using assms(1) d(1) unfolding sys_inv_def by blast
    then show False using assms(2) d(2) by simp
  qed
  moreover have "sys_inv (set_stage c (Registered k i) y)" using sys_inv_stage [OF assms(1)] assms(2) by simp
  ultimately show ?thesis using sys_inv_pending [of "set_stage c (Registered k i) y" c i] by (cases y) simp
qed

lemma sys_inv_relay:
  assumes "sys_inv y" "pending (srv y) i = Some c"
  shows "sys_inv (y\<lparr>srv := (srv y)\<lparr>pending := (pending (srv y))(i := None)\<rparr>, relays := relays y @ [(i, c)]\<rparr>)"
proof -
  have "i \<notin> fst ` set (relays y)" using assms by (auto simp: sys_inv_def)
  then show ?thesis using assms unfolding sys_inv_def by auto
qed

lemma sys_inv_step: "sys_step y z \<Longrightarrow> sys_inv y \<Longrightarrow> sys_inv z"
proof (induction rule: sys_step.induct)
  case (poll y k)
  then show ?case by (simp add: poll_begin_def sys_inv_child)
next
  case (poll_done y k)
  then show ?case by (simp add: poll_end_def sys_inv_child)
next
  case (no_child y c)
  then show ?case using sys_inv_stage [of y "Closed None" c] by (simp add: sys_inv_outs)
next
  case (choose y c k)
  then show ?case using sys_inv_stage [of y "Chosen k" c] by simp
next
  case (alloc y c k i s)
  then show ?case using sys_inv_alloc [of y c k] by (simp add: next_conn_iff)
next
  case (register y c k i)
  then show ?case using sys_inv_register [of y c k i] by (simp add: registerPending_def)
next
  case (send_ok y c k i)
  then show ?case using sys_inv_stage [of y "Requested i" c] by simp
next
  case (send_fail y c k i r s)
  then show ?case
    using sys_inv_stage [OF sys_inv_forget, of y "Closed (Some i)" i c] by (simp add: takePending_def sys_inv_outs)
next
  case (reply y c i)
  then show ?case using sys_inv_stage [of y "Replied i" c] by (simp add: sys_inv_outs)
next
  case (stream f y c s)
  then show ?case using sys_inv_relay [of y "fr_ConnId f" c] stream_open_cases [OF stream(1)] by simp
next
  case (stream_failed f y c s)
  then show ?case using sys_inv_forget [of y "fr_ConnId f"] stream_open_cases [OF stream_failed(1)] by simp
next
  case (stream_unknown f y e s)
  then show ?case using sys_inv_forget [of y "fr_ConnId f"] stream_open_cases [OF stream_unknown(1)] by simp
qed (simp add: sys_inv_outs)

lemma reachable_inv: "reachable y \<Longrightarrow> sys_inv y"
  by (induction rule: reachable.induct) (simp_all add: sys_inv_init sys_inv_step)


lemma distinct_snd:
  assumes "distinct (map fst xs)" "\<And>i j c. (i, c) \<in> set xs \<Longrightarrow> (j, c) \<in> set xs \<Longrightarrow> i = j"
  shows "distinct (map snd xs)"
proof -
  have "inj_on snd (set xs)" using assms(2) by (intro inj_onI) (metis prod.collapse)
  then show ?thesis using assms(1) by (simp add: distinct_map)
qed

text \<open>A run: one command stream, one client whose target speaks before the success reply is written.\<close>

lemma reach_step: "reachable y \<Longrightarrow> sys_step y z \<Longrightarrow> reachable z"
  by (rule reachable.step)

definition demo_server :: server where
  "demo_server = \<lparr>hbCount = 0, connSeq = 1, child = Some 7, pending = [conn_id 1 \<mapsto> 0]\<rparr>"

lemma demo_requested:
  "reachable (system_init\<lparr>srv := demo_server, stage_of := (\<lambda>_. Fresh)(0 := Requested (conn_id 1))\<rparr>)"
proof -
  have f: "((\<lambda>_. Fresh)(0 := a))(0 := b) = (\<lambda>_. Fresh)(0 := b)" for a b :: stage by simp
  let ?s1 = "server_init\<lparr>child := Some 7\<rparr>"
  have "reachable (system_init\<lparr>srv := ?s1\<rparr>)"
    using reach_step [OF reachable.init sys_step.poll [of system_init 7]] by (simp add: poll_begin_def system_init_def)
  from reach_step [OF this sys_step.choose [of _ 0 7]]
  have "reachable (system_init\<lparr>srv := ?s1, stage_of := (\<lambda>_. Fresh)(0 := Chosen 7)\<rparr>)"
    by (simp add: system_init_def server_init_def)
  from reach_step [OF this sys_step.alloc [of _ 0 7 "conn_id 1" "?s1\<lparr>connSeq := 1\<rparr>"]]
  have "reachable (system_init\<lparr>srv := ?s1\<lparr>connSeq := 1\<rparr>, stage_of := (\<lambda>_. Fresh)(0 := Allocated 7 (conn_id 1))\<rparr>)"
    by (simp add: system_init_def next_conn_def server_init_def f)
  from reach_step [OF this sys_step.register [of _ 0 7 "conn_id 1"]]
  have "reachable (system_init\<lparr>srv := demo_server, stage_of := (\<lambda>_. Fresh)(0 := Registered 7 (conn_id 1))\<rparr>)"
    by (simp add: registerPending_def server_init_def demo_server_def f)
  from reach_step [OF this sys_step.send_ok [of _ 0 7 "conn_id 1"]] show ?thesis by (simp add: f)
qed

lemma demo_relayed:
  "reachable (system_init\<lparr>srv := demo_server\<lparr>pending := Map.empty\<rparr>, stage_of := (\<lambda>_. Fresh)(0 := Requested (conn_id 1)),
     relays := [(conn_id 1, 0)]\<rparr>)"
proof -
  let ?f = "\<lparr>fr_ConnId = conn_id 1, fr_Data = [], fr_Close = False, fr_Error = []\<rparr>"
  have "stream_open ?f demo_server = (Relaying 0, demo_server\<lparr>pending := Map.empty\<rparr>)"
    by (simp add: stream_open_def takePending_def demo_server_def)
  then show ?thesis
    using reach_step [OF demo_requested sys_step.stream [of ?f _ 0 "demo_server\<lparr>pending := Map.empty\<rparr>"]]
    by (simp add: system_init_def)
qed

subsection \<open>Properties\<close>

text \<open>C8: One relay per client. In every run of any number of handlers, command streams and egress
  streams (with any first frames), a connection id is relayed at most once and a client connection by at most
  one stream, namely the one that named its own id, which is then no longer pending.\<close>

theorem one_relay_per_client:
  assumes "reachable y"
  shows "distinct (map fst (relays y)) \<and> distinct (map snd (relays y))
    \<and> list_all (\<lambda>(i, c). id_of (stage_of y c) = Some i \<and> pending (srv y) i = None) (relays y)"
proof -
  have inv: "sys_inv y" using reachable_inv [OF assms] .
  have d: "distinct (map fst (relays y))"
    and r: "\<And>i c. (i, c) \<in> set (relays y) \<Longrightarrow> id_of (stage_of y c) = Some i \<and> pending (srv y) i = None"
    using inv unfolding sys_inv_def by blast+
  have "distinct (map snd (relays y))"
    by (rule distinct_snd [OF d]) (metis option.inject r)
  then show ?thesis using d r by (auto simp: list_all_iff)
qed

theorem one_relay_per_client_witness:
  "\<exists>y. reachable y \<and> relays y = [(conn_id 1, 0)] \<and> pending (srv y) (conn_id 1) = None"
  using one_relay_per_client [OF demo_relayed] demo_relayed by force

text \<open>C38: The success reply can come too late. \<open>openEgress\<close> returns once the command is sent, and
  the relay may start before the handler writes its reply: for any data there is a run in which the client receives
  the data of its target first and the success reply of SOCKS or CONNECT after it.\<close>

theorem reply_after_data: "\<exists>y. reachable y \<and> outs y 0 = [RelayData d, Success]"
proof -
  let ?y = "system_init\<lparr>srv := demo_server\<lparr>pending := Map.empty\<rparr>, stage_of := (\<lambda>_. Fresh)(0 := Requested (conn_id 1)),
     relays := [(conn_id 1, 0)]\<rparr>"
  have a: "reachable (emit 0 (RelayData d) ?y)"
    by (rule reach_step [OF demo_relayed sys_step.relay_data [of "conn_id 1"]]) simp
  have "sys_step (emit 0 (RelayData d) ?y) (emit 0 Success (set_stage 0 (Replied (conn_id 1)) (emit 0 (RelayData d) ?y)))"
    by (rule sys_step.reply) simp
  from reach_step [OF a this] show ?thesis by (intro exI conjI) (assumption, simp add: system_init_def)
qed

text \<open>Opening an egress. \<open>openEgress\<close> succeeds exactly when a child is connected and the command
  could be sent to it; the command carries a fresh connection id, the host and the port; the client
  is pending under that id afterwards exactly when it succeeded, and nothing else changes in the
  table.\<close>

theorem open_egress_effect:
  assumes "openEgress send nowMs c host port s = (ok, cmd, s')" "pending s (conn_id (connSeq s + 1)) = None"
  shows "(ok \<longleftrightarrow> (\<exists>k. child s = Some k \<and> send k (egress_command (conn_id (connSeq s + 1)) host port nowMs) = None))
    \<and> cmd = (if ok then Some (egress_command (conn_id (connSeq s + 1)) host port nowMs) else None)
    \<and> pending s' = (if ok then (pending s)(conn_id (connSeq s + 1) \<mapsto> c) else pending s)
    \<and> child s' = child s"
  using assms
  by (auto simp: openEgress_def open_alloc_def next_conn_def registerPending_def takePending_def Let_def fun_upd_idem
      split: option.splits)

theorem open_egress_effect_witness:
  "fst (openEgress (\<lambda>_ _. None) 0 5 ''a.org'' 443 (server_init\<lparr>child := Some 7\<rparr>))
   \<and> pending (snd (snd (openEgress (\<lambda>_ _. None) 0 5 ''a.org'' 443 (server_init\<lparr>child := Some 7\<rparr>)))) (conn_id 1) = Some 5"
proof -
  obtain ok cmd s' where o: "openEgress (\<lambda>_ _. None) 0 5 ''a.org'' 443 (server_init\<lparr>child := Some 7\<rparr>) = (ok, cmd, s')"
    by (cases "openEgress (\<lambda>_ _. None) 0 5 ''a.org'' 443 (server_init\<lparr>child := Some 7\<rparr>)") auto
  from open_egress_effect [OF o] show ?thesis unfolding o by (auto simp: server_init_def)
qed

end
