(* ===== verification/Program.thy ===== *)
theory Program
  imports Proxy Supervisor
begin

section \<open>cmd/miniminihub: the program\<close>

text \<open>
  main.go: the start of the agent. The workers are those of the configured roles; their \<open>Init\<close>
  acts on what they share, of which the bus and the name for HELO are kept here. The loop of every
  worker is supervised (Supervisor.thy) in the environment \<open>env\<close>. The fields the workers copy from
  what they share (store, channel, configuration) are arguments of their operations; the deferred
  \<open>Close\<close> of the store and of the channel at the end of the process have their own definitions.
\<close>

subsection \<open>The workers\<close>

text \<open>The channels of the subscriptions, by topic, in the order they were made.\<close>

record shared =
  sh_bus :: "bus_msg Bus"
  sh_subs :: "(bytes \<times> nat) list"
  sh_helo :: bytes

definition subscribe_to :: "bytes \<Rightarrow> shared \<Rightarrow> shared" where
  "subscribe_to topic d = (case Subscribe topic (sh_bus d) of
     (ch, b) \<Rightarrow> d\<lparr>sh_bus := b, sh_subs := sh_subs d @ [(topic, ch)]\<rparr>)"

definition tunnel_worker :: "shared Worker" where
  "tunnel_worker = \<lparr>w_Name = ''tunnel'', StartPriority = 100, w_Init = (\<lambda>d. (None, d))\<rparr>"

definition state_worker :: "shared Worker" where
  "state_worker = \<lparr>w_Name = ''state'', StartPriority = 200, w_Init = (\<lambda>d. (None, d))\<rparr>"

definition proxy_worker :: "shared Worker" where
  "proxy_worker = \<lparr>w_Name = ''proxy'', StartPriority = 300,
     w_Init = (\<lambda>d. (None, subscribe_to TopicRotate (subscribe_to TopicEgress d)))\<rparr>"

definition smtp_worker :: "gerror + bytes \<Rightarrow> shared Worker" where
  "smtp_worker hostname = \<lparr>w_Name = ''smtp'', StartPriority = 320,
     w_Init = (\<lambda>d. (None, (subscribe_to TopicSmtp d)\<lparr>sh_helo := smtp_Init hostname\<rparr>))\<rparr>"

definition batch_worker_entry :: "shared Worker" where
  "batch_worker_entry = \<lparr>w_Name = ''batch'', StartPriority = 340, w_Init = (\<lambda>d. (None, subscribe_to TopicBatch d))\<rparr>"

definition app_workers :: "gerror + bytes \<Rightarrow> Config \<Rightarrow> shared Worker list" where
  "app_workers hostname cfg =
     (let workers = [tunnel_worker, state_worker];
          workers = (if HasRole cfg ''proxy'' then workers @ [proxy_worker] else workers);
          workers = (if HasRole cfg ''smtp'' then workers @ [smtp_worker hostname] else workers)
      in if HasRole cfg ''batch'' then workers @ [batch_worker_entry] else workers)"

subsection \<open>run and main\<close>

definition shared_init :: shared where
  "shared_init = \<lparr>sh_bus = New, sh_subs = [], sh_helo = []\<rparr>"

record ('b, 'c) app_env =
  ae_Getenv :: "bytes \<Rightarrow> bytes"
  ae_ReadFile :: "bytes \<Rightarrow> gerror + bytes"
  ae_jerr :: "bytes \<Rightarrow> gerror"
  ae_bolt :: "'b bolt"
  ae_mkdir :: "bytes \<Rightarrow> gerror option"
  ae_opn :: "bytes \<Rightarrow> gerror + 'b dbfile"
  ae_tls :: "'c tls_env"
  ae_NewClient :: "bytes \<Rightarrow> 'c creds \<Rightarrow> gerror option"
  ae_hostname :: "gerror + bytes"

text \<open>\<open>run\<close>: the error, the workers initialised, the traces of the supervised workers, and what
  they share; \<open>None\<close> if the supervisor was not started.\<close>

definition app_run :: "('b, 'c) app_env \<Rightarrow> (bytes \<Rightarrow> round list) \<Rightarrow> bool \<Rightarrow>
    gerror option \<times> (bytes list \<times> (bytes \<times> sup_event list) list \<times> shared) option" where
  "app_run E env drained =
     (let p = ae_Getenv E ''MMH_BOOTSTRAP''; path = (if p = [] then ''bootstrap.json'' else p) in
      case Load (ae_ReadFile E) (ae_jerr E) path of
        Inl err \<Rightarrow> (Some (Wrapped ''load config'' err), None)
      | Inr cfg \<Rightarrow>
          (case Open (ae_bolt E) (ae_mkdir E) (ae_opn E) (StorePath cfg) of
             Inl err \<Rightarrow> (Some (Wrapped ''open store'' err), None)
           | Inr st \<Rightarrow>
               (case Connect (ae_tls E) (ae_NewClient E)
                       (New_client (ParentEndpoint cfg) (MiniminihubID cfg) (Slug cfg) (TLS cfg)) of
                  (Some err, tun) \<Rightarrow> (Some (Wrapped ''connect tunnel'' err), None)
                | (None, tun) \<Rightarrow>
                    (case Supervisor_Run (app_workers (ae_hostname E) cfg) env drained shared_init of
                       (called, traces, res, d) \<Rightarrow> (res, Some (called, traces, d))))))"

text \<open>\<open>main\<close>: the exit status.\<close>

definition app_main :: "('b, 'c) app_env \<Rightarrow> (bytes \<Rightarrow> round list) \<Rightarrow> bool \<Rightarrow> nat" where
  "app_main E env drained = (case fst (app_run E env drained) of
     Some err \<Rightarrow> if \<not> errors_Is err CtxCanceled then 1 else 0 | None \<Rightarrow> 0)"

subsection \<open>Lemmas\<close>

definition role_names :: "Config \<Rightarrow> bytes list" where
  "role_names cfg = filter (\<lambda>r. r \<in> set (Roles cfg)) [''proxy'', ''smtp'', ''batch'']"

definition topics_of :: "bytes \<Rightarrow> bytes list" where
  "topics_of role = (if role = ''proxy'' then [TopicEgress, TopicRotate]
     else if role = ''smtp'' then [TopicSmtp] else if role = ''batch'' then [TopicBatch] else [])"

lemma app_workers_sorted: "by_priority (app_workers hostname cfg) = app_workers hostname cfg"
  by (auto simp: by_priority_def app_workers_def tunnel_worker_def state_worker_def proxy_worker_def smtp_worker_def
      batch_worker_entry_def Let_def)

lemma app_workers_names: "map w_Name (app_workers hostname cfg) = [''tunnel'', ''state''] @ role_names cfg"
  by (simp add: app_workers_def role_names_def HasRole_set tunnel_worker_def state_worker_def proxy_worker_def
      smtp_worker_def batch_worker_entry_def Let_def)

text \<open>What the subscriptions recorded so far mean: the channels of each topic.\<close>

definition subs_ok :: "shared \<Rightarrow> bool" where
  "subs_ok d \<longleftrightarrow> map snd (sh_subs d) = [0 ..< length (sh_subs d)] \<and> next_chan (sh_bus d) = length (sh_subs d)
     \<and> (\<forall>t. subs (sh_bus d) t = map snd (filter (\<lambda>s. fst s = t) (sh_subs d)))"

lemma subs_ok_subscribe:
  "subs_ok d \<Longrightarrow> subs_ok (subscribe_to t d) \<and> map fst (sh_subs (subscribe_to t d)) = map fst (sh_subs d) @ [t]"
  by (auto simp: subs_ok_def subscribe_to_def Subscribe_def)

lemma subs_ok_helo: "subs_ok (d\<lparr>sh_helo := h\<rparr>) = subs_ok d"
  by (simp add: subs_ok_def)

text \<open>One \<open>Init\<close>: it succeeds and subscribes to the topics of its worker.\<close>

definition init_ok :: "shared Worker \<Rightarrow> bool" where
  "init_ok w \<longleftrightarrow> (\<forall>d. subs_ok d \<longrightarrow> (\<exists>d'. w_Init w d = (None, d') \<and> subs_ok d'
     \<and> map fst (sh_subs d') = map fst (sh_subs d) @ topics_of (w_Name w)))"

lemma init_ok_workers: "w \<in> set (app_workers hostname cfg) \<Longrightarrow> init_ok w"
proof -
  have "init_ok tunnel_worker" "init_ok state_worker" "init_ok batch_worker_entry" "init_ok (smtp_worker hostname)"
    by (simp_all add: init_ok_def topics_of_def tunnel_worker_def state_worker_def batch_worker_entry_def smtp_worker_def
        subs_ok_subscribe subs_ok_helo)
  moreover have "init_ok proxy_worker"
    by (simp add: init_ok_def topics_of_def proxy_worker_def subs_ok_subscribe)
  ultimately show "w \<in> set (app_workers hostname cfg) \<Longrightarrow> init_ok w"
    by (auto simp: app_workers_def Let_def split: if_splits)
qed

lemma init_phase_ok:
  "list_all init_ok ws \<Longrightarrow> subs_ok d \<Longrightarrow> \<exists>d'. init_phase ws d = (map w_Name ws, None, d') \<and> subs_ok d'
     \<and> map fst (sh_subs d') = map fst (sh_subs d) @ concat (map (\<lambda>w. topics_of (w_Name w)) ws)"
proof (induction ws arbitrary: d)
  case (Cons w ws)
  then obtain d1 where d1: "w_Init w d = (None, d1)" "subs_ok d1"
    "map fst (sh_subs d1) = map fst (sh_subs d) @ topics_of (w_Name w)" by (auto simp: init_ok_def)
  then show ?case using Cons.IH [of d1] Cons.prems by auto
qed simp

lemma app_workers_init:
  "\<exists>d. init_phase (app_workers hostname cfg) shared_init = ([''tunnel'', ''state''] @ role_names cfg, None, d)
     \<and> subs_ok d \<and> map fst (sh_subs d) = concat (map topics_of (role_names cfg))"
proof -
  have "list_all init_ok (app_workers hostname cfg)" using init_ok_workers by (simp add: list_all_iff)
  moreover have "subs_ok shared_init" by (simp add: subs_ok_def shared_init_def New_def)
  moreover have "map (\<lambda>w. topics_of (w_Name w)) (app_workers hostname cfg) = map topics_of ([''tunnel'', ''state''] @ role_names cfg)"
    using arg_cong [OF app_workers_names [of hostname cfg], of "map topics_of"] by (simp add: comp_def)
  moreover have "topics_of ''tunnel'' = []" "topics_of ''state'' = []" by (simp_all add: topics_of_def)
  ultimately show ?thesis using init_phase_ok [of "app_workers hostname cfg" shared_init]
    by (simp add: app_workers_names shared_init_def)
qed

subsection \<open>Properties\<close>

text \<open>C25: Start of the agent. With a configuration that loads, a store that opens and a tunnel that
  connects, the workers started are the tunnel, the state and those of the configured roles, in this
  order however the roles are listed. When the first of them runs, every topic of a configured
  role has exactly one subscriber, so no command of it is lost, and a topic of any other role has none.\<close>

theorem agent_start:
  assumes "Load (ae_ReadFile E) (ae_jerr E) ''bootstrap.json'' = Inr cfg" "ae_Getenv E ''MMH_BOOTSTRAP'' = []"
    and "Open (ae_bolt E) (ae_mkdir E) (ae_opn E) (StorePath cfg) = Inr st"
    and "Connect (ae_tls E) (ae_NewClient E)
      (New_client (ParentEndpoint cfg) (MiniminihubID cfg) (Slug cfg) (TLS cfg)) = (None, tun)"
  shows "\<exists>res traces d. app_run E env drained = (res, Some ([''tunnel'', ''state''] @ role_names cfg, traces, d))
    \<and> map fst traces = [''tunnel'', ''state''] @ role_names cfg \<and> (res = None \<longleftrightarrow> drained)
    \<and> (\<forall>t. length (subs (sh_bus d) t) = count_list (concat (map topics_of (role_names cfg))) t)"
proof -
  obtain d where d: "init_phase (app_workers (ae_hostname E) cfg) shared_init = ([''tunnel'', ''state''] @ role_names cfg, None, d)"
    "subs_ok d" "map fst (sh_subs d) = concat (map topics_of (role_names cfg))"
    using app_workers_init by blast
  have "count_list (map fst xs) t = length (filter (\<lambda>s. fst s = t) xs)" for xs :: "(bytes \<times> nat) list" and t
    by (induction xs) auto
  then have "length (subs (sh_bus d) t) = count_list (concat (map topics_of (role_names cfg))) t" for t
    using d(2,3) by (metis length_map subs_ok_def)
  moreover have "map fst (map (\<lambda>w. (w_Name w, superviseRun (env (w_Name w)))) (app_workers (ae_hostname E) cfg)) =
      [''tunnel'', ''state''] @ role_names cfg"
    by (simp add: comp_def app_workers_names)
  ultimately show ?thesis
    unfolding app_run_def Supervisor_Run_def Let_def app_workers_sorted
    by (simp add: assms d(1))
qed

definition demo_roles :: bytes where
  "demo_roles = CHR 0x7B # DQ # ''parent_minihub_endpoint'' @ DQ # '':'' @ DQ # ''mh:7443'' @ DQ # '','' @
     DQ # ''roles'' @ DQ # '':['' @ DQ # ''batch'' @ DQ # '','' @ DQ # ''proxy'' @ DQ # '']}''"

definition demo_app :: "(log_bucket, nat) app_env" where
  "demo_app = \<lparr>ae_Getenv = (\<lambda>_. []), ae_ReadFile = (\<lambda>_. Inr demo_roles), ae_jerr = ErrText, ae_bolt = ref_bolt,
     ae_mkdir = (\<lambda>_. None),
     ae_opn = (\<lambda>_. Inr \<lparr>f_events = None, f_counters = None, f_blobs = None, f_queues = None, f_txid = 0\<rparr>),
     ae_tls = demo_tls True, ae_NewClient = (\<lambda>_ _. None), ae_hostname = Inr ''vm''\<rparr>"

theorem agent_start_witness:
  "\<exists>traces d. app_run demo_app (\<lambda>_. []) True = (None, Some ([''tunnel'', ''state'', ''proxy'', ''batch''], traces, d))
     \<and> length (subs (sh_bus d) TopicEgress) = 1 \<and> length (subs (sh_bus d) TopicSmtp) = 0"
proof -
  let ?c = "with_defaults (zero_Config\<lparr>ParentEndpoint := ''mh:7443'', Roles := [''batch'', ''proxy'']\<rparr>)"
  have "config_Unmarshal demo_roles = Some (zero_Config\<lparr>ParentEndpoint := ''mh:7443'', Roles := [''batch'', ''proxy'']\<rparr>)"
    by code_simp
  then have l: "Load (ae_ReadFile demo_app) (ae_jerr demo_app) ''bootstrap.json'' = Inr ?c"
    by (simp add: Load_cases demo_app_def tls_complete_def zero_Config_def zero_TLS_def)
  have g: "ae_Getenv demo_app ''MMH_BOOTSTRAP'' = []" by (simp add: demo_app_def)
  have o': "Open (ae_bolt demo_app) (ae_mkdir demo_app) (ae_opn demo_app) (StorePath ?c) = Inr empty_store"
    unfolding demo_app_def app_env.simps by (rule Open_empty_file)
  obtain tun where t: "Connect (ae_tls demo_app) (ae_NewClient demo_app)
      (New_client (ParentEndpoint ?c) (MiniminihubID ?c) (Slug ?c) (TLS ?c)) = (None, tun)"
    by (simp add: Connect_def transportCreds_def New_client_def demo_app_def with_defaults_def zero_Config_def zero_TLS_def)
  have r: "role_names ?c = [''proxy'', ''batch'']" by (simp add: role_names_def)
  from agent_start [OF l g o' t, of "\<lambda>_. []" True, unfolded r] obtain res traces d where
    d: "app_run demo_app (\<lambda>_. []) True = (res, Some ([''tunnel'', ''state''] @ [''proxy'', ''batch''], traces, d))"
      "res = None \<longleftrightarrow> True" "\<And>t. length (subs (sh_bus d) t) = count_list (concat (map topics_of [''proxy'', ''batch''])) t"
    by blast
  have c: "concat (map topics_of [''proxy'', ''batch'']) = [TopicEgress, TopicRotate, TopicBatch]" by (simp add: topics_of_def)
  have "count_list [TopicEgress, TopicRotate, TopicBatch] TopicEgress = 1"
    "count_list [TopicEgress, TopicRotate, TopicBatch] TopicSmtp = 0"
    using topics_distinct by auto
  then show ?thesis using d(1,2) d(3) [of TopicEgress] d(3) [of TopicSmtp] unfolding c by auto
qed

end
