(* ===== verification/RunnerContract.thy ===== *)
theory RunnerContract
  imports Workers
begin

section \<open>The contract of the agent runners, and their reports on the channel\<close>

text \<open>
  What the batch worker relies on from runner.go, whichever runner a job names; and the upload of
  reports through the client of the tunnel, which joins batch.go with client.go.
\<close>

subsection \<open>Runners\<close>

text \<open>A result as the batch worker expects it: one of three statuses, and an error text exactly
  when the run was no success.\<close>

definition result_ok :: "RunResult \<Rightarrow> bool" where
  "result_ok r \<longleftrightarrow> Status r \<in> {''success'', ''failed'', ''timeout''} \<and> (Status r = ''success'' \<longleftrightarrow> Error r = [])"

locale runner =
  fixes run :: "bytes \<Rightarrow> (bytes \<rightharpoonup> bytes) \<Rightarrow> i64 \<Rightarrow> RunResult" and started :: i64 and ended :: i64
  assumes outcome: "result_ok (run prompt ps timeout)"
    and clock: "StartedMs (run prompt ps timeout) = started" "EndedMs (run prompt ps timeout) = ended"
begin

lemma not_skipped: "Status (run prompt ps timeout) \<noteq> ''skipped''"
  using outcome [of prompt ps timeout] by (auto simp: result_ok_def)

text \<open>The report of a run says what the run said, for the job it was run for.\<close>

lemma report:
  "rep_Status (report_of j i (run prompt ps timeout)) \<in> {''success'', ''failed'', ''timeout''}
   \<and> StartedAtMs (report_of j i (run prompt ps timeout)) = started
   \<and> (rep_Error (report_of j i (run prompt ps timeout)) = [] \<longleftrightarrow> rep_Status (report_of j i (run prompt ps timeout)) = ''success'')"
  using outcome [of prompt ps timeout] by (auto simp: result_ok_def report_of_def clock)

end

lemma result_ok_simps [simp]:
  "m \<noteq> [] \<Longrightarrow> result_ok (fail s e m)" "m \<noteq> [] \<Longrightarrow> result_ok (timed_out s e m)"
  "result_ok \<lparr>Status = ''success'', ReportMD = md, Metrics = mt, Error = [], StartedMs = s, EndedMs = e\<rparr>"
  "m \<noteq> [] \<Longrightarrow> result_ok \<lparr>Status = ''failed'', ReportMD = md, Metrics = mt, Error = m, StartedMs = s, EndedMs = e\<rparr>"
  by (simp_all add: result_ok_def fail_def timed_out_def)

lemma fail_clock [simp]:
  "StartedMs (fail s e m) = s" "EndedMs (fail s e m) = e" "StartedMs (timed_out s e m) = s" "EndedMs (timed_out s e m) = e"
  by (simp_all add: fail_def timed_out_def)

interpretation claude: runner "ClaudeCode_Run E" "t_start E" "t_end E" for E :: "'f run_env"
  by unfold_locales (simp_all add: ClaudeCode_Run_def Let_def split: option.split)

interpretation custom_exec: runner "CustomExec_Run E" "t_start E" "t_end E" for E :: "'f run_env"
  by unfold_locales (simp_all add: CustomExec_Run_def Let_def split: option.split)

interpretation http: runner "\<lambda>prompt ps timeout. httpRun H prompt ps timeout kind" "h_start H" "h_end H" for H kind
  by unfold_locales (simp_all add: httpRun_def Let_def split: option.split http_answer.split)

lemma DefaultRunners_cases:
  assumes "DefaultRunners E H kind = Some run"
  shows "runner run (t_start E) (t_end E) \<or> runner run (h_start H) (h_end H)"
  using assms claude.runner_axioms [of E] custom_exec.runner_axioms [of E] http.runner_axioms [of H]
  by (auto simp: DefaultRunners_def runner_types CustomHttp_Run_def AgentIA_Run_def split: if_splits)

subsection \<open>Uploading through the tunnel\<close>

text \<open>What \<open>drain\<close> gets for an item when it pushes its report over the channel of the client.\<close>

definition push_answer :: "(i64 \<Rightarrow> ResultMsg \<Rightarrow> gerror + ResultAck) \<Rightarrow> BatchReport codec \<Rightarrow> i64 \<Rightarrow> QueueItem \<Rightarrow>
    gerror option \<times> i64" where
  "push_answer rpc RC now it = (case Unmarshal RC (payload_bytes (Payload it)) of
     None \<Rightarrow> (None, now) | Some rep \<Rightarrow> (PushBatchReport rpc rep, now))"

lemma PushBatchReport_None: "PushBatchReport rpc rep = None \<longleftrightarrow> \<not> isl (rpc (seconds 30) (batch_report_msg rep))"
  by (auto simp: PushBatchReport_def split: sum.split)

lemma push_answer_None: "(\<And>m. \<not> isl (rpc (seconds 30) m)) \<Longrightarrow> fst (push_answer rpc RC now it) = None"
  by (auto simp: push_answer_def PushBatchReport_None split: option.split)

subsection \<open>Properties\<close>

text \<open>Every registered runner returns a well-formed result for any prompt, parameters and timeout
  and whatever the process or server answers: a status among success, failed and timeout, an error
  text exactly when it is not a success, and the times of its start and end.\<close>

theorem runners_well_formed:
  assumes "DefaultRunners E H kind = Some run"
  shows "Status (run prompt ps timeout) \<in> {''success'', ''failed'', ''timeout''}
    \<and> (Status (run prompt ps timeout) = ''success'' \<longleftrightarrow> Error (run prompt ps timeout) = [])
    \<and> (StartedMs (run prompt ps timeout), EndedMs (run prompt ps timeout)) \<in> {(t_start E, t_end E), (h_start H, h_end H)}"
  using DefaultRunners_cases [OF assms]
  by (auto simp: runner_def result_ok_def)

definition demo_proc :: "nat run_env" where
  "demo_proc = \<lparr>exec = (\<lambda>_ _. \<lparr>x_err = Some (ErrText ''exit status 1''), x_stdout = ''partial'', x_stderr = ''boom'', x_deadline = False\<rparr>),
     t_start = 10, t_end = 20, f_zero = 0, f_parse = (\<lambda>_. None), f_format4 = (\<lambda>_. [])\<rparr>"

definition demo_http :: http_env where
  "demo_http = \<lparr>http_NewRequest = (\<lambda>_. None), http_Do = (\<lambda>_ _. HttpResponse 200 ''ok''), h_start = 30, h_end = 40\<rparr>"

theorem runners_well_formed_witness:
  "\<exists>run. DefaultRunners demo_proc demo_http ''custom_exec'' = Some run
     \<and> Status (run ''p'' [''command'' \<mapsto> ''false''] 1000) = ''failed'' \<and> Error (run ''p'' [''command'' \<mapsto> ''false''] 1000) \<noteq> []"
proof -
  have r: "DefaultRunners demo_proc demo_http ''custom_exec'' = Some (CustomExec_Run demo_proc)"
    by (simp add: DefaultRunners_def runner_types)
  have st: "Status (CustomExec_Run demo_proc ''p'' [''command'' \<mapsto> ''false''] 1000) = ''failed''"
    by (simp add: CustomExec_Run_def demo_proc_def param_def Let_def)
  then have "Status (CustomExec_Run demo_proc ''p'' [''command'' \<mapsto> ''false''] 1000) \<noteq> ''success''" by simp
  then show ?thesis
    using runners_well_formed [OF r, of "''p''" "[''command'' \<mapsto> ''false'']" 1000] r st by blast
qed

text \<open>The parent's refusal is not seen. \<open>PushBatchReport\<close> looks only at the error of the rpc and not at
  the \<open>accepted\<close> field of the acknowledgement: also with a parent that answers every push with
  \<open>accepted = false\<close>, ticks of the upload log the reports that are due as sent and remove them from the
  queue (on a store whose writes do not fail).\<close>

theorem negative_ack_drops_reports:
  assumes "bolt_healthy B" and "queues_ok B s"
    and "\<And>m. rpc (seconds 30) m = Inr \<lparr>ack_Accepted = False\<rparr>"
    and "drain_ticks B RC (push_answer rpc RC now) nows s = (entries, t)"
    and "upload_order nows (aq_items (queue_view B s batchQueue)) = (sent, rest)"
  shows "aq_items (queue_view B t batchQueue) = rest \<and> entries = map (\<lambda>it. (ID it, accepted_outcome RC it)) sent"
  by (rule bolt_healthy.drain_ticks_sent [OF assms(1,2,4) _ assms(5)], rule push_answer_None) (simp add: assms(3))

theorem negative_ack_drops_reports_witness:
  "aq_items (queue_view ref_bolt (snd (drain_ticks ref_bolt (job_codec echo_job echo_result)
     (push_answer (\<lambda>_ _. Inr \<lparr>ack_Accepted = False\<rparr>) (job_codec echo_job echo_result) 20) [20]
     (snd (q_run (store_queue ref_bolt) batchQueue [QEnq (Some ''a'') 5] empty_store)))) batchQueue) = []"
proof -
  let ?s = "snd (q_run (store_queue ref_bolt) batchQueue [QEnq (Some ''a'') 5] empty_store)"
  let ?a = "zero_item\<lparr>ID := 1, Payload := Some ''a'', EnqueuedMs := 5, NotBeforeMs := 5\<rparr>"
  have v: "queues_ok ref_bolt ?s" "queue_view ref_bolt ?s batchQueue = \<lparr>aq_seq = 1, aq_items = [?a]\<rparr>"
    using logr.run_refines [OF _ _ _ prod.collapse [symmetric], of empty_store batchQueue "[QEnq (Some ''a'') 5]"]
    by (simp_all add: batchQueue_def aq_enqueue_def zero_item_def del: q_run.simps)
  have "upload_order [20] (aq_items (queue_view ref_bolt ?s batchQueue)) = ([?a], [])"
    unfolding v(2) by (simp add: due_def zero_item_def)
  from negative_ack_drops_reports [OF logh.bolt_healthy_axioms v(1) refl prod.collapse [symmetric] this]
  show ?thesis by simp
qed

end
