(* ===== verification/BatchDelivery.thy ===== *)
theory BatchDelivery
  imports BatchSystem BatchReports TunnelClient
begin

section \<open>The upload of reports, with the parent and the clock\<close>

text \<open>
  A finer view of the batch role at work. The upload of a report is two steps here: the push to the
  parent and the settlement in the queue; the process may crash in between. The parent may answer with
  an error or with any acknowledgement, and may have stored the report or not, whatever it answers (a
  lost answer, a deadline, a refusal). The reports the parent stored are part of the
  state, as is the clock that leases and refusals read (\<open>time.Now\<close>, in milliseconds), which only
  goes forward. Every other step is one of BatchSystem.thy, and a run of this system is a run of that one.
\<close>

record 'b dsys =
  d_sys :: "'b bsys"
  d_answer :: "gerror option option"
  d_received :: "BatchReport list"
  d_now :: i64

datatype dlabel = DClock | DPush BatchReport "gerror + ResultAck" bool | DBatch blabel

text \<open>The steps of the other goroutines: configurations and firings.\<close>

fun is_work :: "blabel \<Rightarrow> bool" where
  "is_work (LItem j ans oc) = False"
| "is_work LLease = False"
| "is_work LCrash = False"
| "is_work l = True"

text \<open>\<open>res\<close> is the answer of the rpc to a push, an error or an acknowledgement; \<open>got\<close> tells whether the
  parent stored the report. What the loop sees of the answer is the result of \<open>PushBatchReport\<close>.\<close>

inductive dstep :: "'b bolt \<Rightarrow> ConfigureBatchCommand codec \<Rightarrow> BatchReport codec \<Rightarrow>
    (bytes \<Rightarrow> gerror option) \<Rightarrow> 'b dsys \<Rightarrow> dlabel \<Rightarrow> 'b dsys \<Rightarrow> bool"
  for B CC RC cronErr where
  Clock: "sint (d_now s) \<le> sint now' \<Longrightarrow> dstep B CC RC cronErr s DClock (s\<lparr>d_now := now'\<rparr>)"
| Work: "batch_step B CC RC cronErr (d_sys s) l t \<Longrightarrow> is_work l \<Longrightarrow>
    dstep B CC RC cronErr s (DBatch l) (s\<lparr>d_sys := t\<rparr>)"
| Lease: "sys_pending (d_sys s) = [] \<Longrightarrow>
    QueueLease B batchQueue 5 batchLeaseMs (d_now s) (sys_store (d_sys s)) = (items, err, st') \<Longrightarrow>
    dstep B CC RC cronErr s (DBatch LLease) (s\<lparr>d_sys := (d_sys s)
      \<lparr>sys_pending := (if err \<noteq> None then [] else items), sys_store := st'\<rparr>\<rparr>)"
| Push: "sys_pending (d_sys s) = it # its \<Longrightarrow> d_answer s = None \<Longrightarrow>
    Unmarshal RC (payload_bytes (Payload it)) = Some rep \<Longrightarrow>
    dstep B CC RC cronErr s (DPush rep res got)
      (s\<lparr>d_answer := Some (PushBatchReport (\<lambda>_ _. res) rep), d_received := d_received s @ (if got then [rep] else [])\<rparr>)"
| Settle: "sys_pending (d_sys s) = it # its \<Longrightarrow>
    (if Unmarshal RC (payload_bytes (Payload it)) = None then ans = None else d_answer s = Some ans) \<Longrightarrow>
    drain_one B RC (\<lambda>_. (ans, d_now s)) it (sys_store (d_sys s)) = (oc, st') \<Longrightarrow>
    dstep B CC RC cronErr s (DBatch (LItem (ID it) (\<lambda>_. (ans, d_now s)) oc))
      (s\<lparr>d_sys := (d_sys s)\<lparr>sys_pending := its, sys_store := st'\<rparr>, d_answer := None\<rparr>)"
| Crash: "batch_reload B CC cronErr batch_Init (sys_store (d_sys s)) = (w', st') \<Longrightarrow>
    dstep B CC RC cronErr s (DBatch LCrash) (s\<lparr>d_sys := (d_sys s)
      \<lparr>sys_w := w', sys_active := [], sys_pending := [], sys_store := st'\<rparr>, d_answer := None\<rparr>)"

abbreviation drun :: "'b bolt \<Rightarrow> ConfigureBatchCommand codec \<Rightarrow> BatchReport codec \<Rightarrow>
    (bytes \<Rightarrow> gerror option) \<Rightarrow> 'b dsys \<Rightarrow> dlabel list \<Rightarrow> 'b dsys \<Rightarrow> bool" where
  "drun B CC RC cronErr \<equiv> steps (dstep B CC RC cronErr)"

subsection \<open>Every run is a run of the batch system\<close>

fun batch_labels :: "dlabel list \<Rightarrow> blabel list" where
  "batch_labels [] = []"
| "batch_labels (DBatch l # ls) = l # batch_labels ls"
| "batch_labels (l # ls) = batch_labels ls"

lemma dstep_simulated:
  "dstep B CC RC cronErr s l t \<Longrightarrow> (case l of DBatch b \<Rightarrow> batch_step B CC RC cronErr (d_sys s) b (d_sys t)
     | _ \<Rightarrow> d_sys t = d_sys s)"
proof (induction rule: dstep.induct)
  case (Lease s items err st')
  from batch_step.Lease [OF Lease] show ?case by simp
qed (auto intro: batch_step.intros)

lemma drun_simulated:
  "drun B CC RC cronErr s ls t \<Longrightarrow> batch_run B CC RC cronErr (d_sys s) (batch_labels ls) (d_sys t)"
proof (induction rule: steps.induct)
  case (Step s l s1 ls t)
  then show ?case using dstep_simulated [OF Step.hyps(1)] by (cases l) (auto intro: steps.intros)
qed (simp add: steps.Nil)

lemma length_batch_labels: "length (batch_labels ls) \<le> length ls"
  by (induction ls rule: batch_labels.induct) auto

subsection \<open>What a step does to the queue of reports\<close>

text \<open>Another goroutine leaves the queue alone or enqueues one report.\<close>

definition enqueues :: "'b bolt \<Rightarrow> 'b store \<Rightarrow> 'b store \<Rightarrow> bool" where
  "enqueues B s s' \<longleftrightarrow> queue_view B s' = queue_view B s \<and> queues_ok B s' = queues_ok B s
     \<or> (\<exists>s0 pl now n e. queue_view B s0 = queue_view B s \<and> queues_ok B s0 = queues_ok B s
          \<and> QueueEnqueue B batchQueue pl now s0 = (n, e, s'))"

lemma enqueues_cong_left:
  "queue_view B s1 = queue_view B s \<and> queues_ok B s1 = queues_ok B s \<Longrightarrow> enqueues B s1 s' = enqueues B s s'"
  by (simp add: enqueues_def)

context bolt_bucket
begin

lemma enqueues_WithID: "enqueues B s (enqueueReportWithID B RC now j rid res s)"
proof (cases "Marshal RC (report_of j rid res)")
  case (Inl e)
  then show ?thesis by (simp add: enqueueReportWithID_def enqueues_def)
next
  case (Inr raw)
  obtain n e s' where q: "QueueEnqueue B batchQueue (Some raw) now s = (n, e, s')"
    by (cases "QueueEnqueue B batchQueue (Some raw) now s") auto
  then have "enqueueReportWithID B RC now j rid res s = s'" using Inr by (simp add: enqueueReportWithID_def)
  then show ?thesis using q unfolding enqueues_def by blast
qed

lemma enqueues_report: "enqueues B s (enqueueReport B RC stamp now j res s)"
proof -
  obtain rid s1 where n: "newRunID B stamp s = (rid, s1)" by (cases "newRunID B stamp s")
  show ?thesis using enqueues_WithID [of s1] enqueues_cong_left [OF newRunID_queues [OF n]]
    by (simp add: enqueueReport_def n)
qed

lemma enqueues_fire_finish: "enqueues B s (fire_finish B RC F j rid s)"
  by (simp add: fire_finish_def enqueues_WithID enqueues_report split: option.split sum.split)

lemma enqueues_fire_skip: "enqueues B s (fire_skip B RC F j s)"
proof -
  obtain v e s1 where n: "Incr B (''batch_'' @ Id j @ ''_skipped'') s = (v, e, s1)"
    by (cases "Incr B (''batch_'' @ Id j @ ''_skipped'') s") auto
  show ?thesis using enqueues_report [of s1] enqueues_cong_left [OF Incr_queues [OF n]]
    by (simp add: fire_skip_def n [simplified])
qed

lemma work_enqueues:
  assumes "batch_step B CC RC cronErr s l t" and "is_work l"
  shows "enqueues B (sys_store s) (sys_store t) \<and> sys_pending t = sys_pending s"
  using assms
proof cases
  case (Configure cmd w' st')
  then show ?thesis using configure_queues [OF Configure(3)] by (simp add: enqueues_def)
next
  case (Begin j a w' stamp rid st')
  then show ?thesis using newRunID_queues [OF Begin(4)] by (simp add: enqueues_def)
qed (simp_all add: enqueues_fire_skip enqueues_fire_finish)

lemma enqueues_view:
  assumes "queues_ok B s" and "enqueues B s s'" and "aq_seq (reports B s) \<noteq> - 1"
  shows "reports B s' = reports B s \<or> (\<exists>pl now. reports B s' = snd (aq_enqueue pl now (reports B s)))"
  using assms(2) unfolding enqueues_def
proof (elim disjE exE conjE)
  fix s0 pl now n e
  assume s0: "queue_view B s0 = queue_view B s" "queues_ok B s0 = queues_ok B s"
    and q: "QueueEnqueue B batchQueue pl now s0 = (n, e, s')"
  show ?thesis
  proof (cases e)
    case None
    then show ?thesis using QueueEnqueue_refines [of s0 batchQueue pl now n s'] q s0 assms(1,3) by auto
  next
    case (Some x)
    then show ?thesis using QueueEnqueue_fail [of s0 batchQueue pl now n x s'] q s0 assms(1) by simp
  qed
qed simp

text \<open>The settlement of a report: nothing (a failed write), an acknowledgement or a refusal.\<close>

lemma drain_one_view:
  assumes "queues_ok B s" and "drain_one B RC ans it s = (oc, s')"
  shows "reports B s' = reports B s
    \<or> reports B s' = aq_ack (ID it) (reports B s) \<and> (Unmarshal RC (payload_bytes (Payload it)) = None \<or> fst (ans it) = None)
    \<or> reports B s' = snd (aq_nack (ID it) 15000 (snd (ans it)) 20 (reports B s)) \<and> fst (ans it) \<noteq> None"
proof -
  obtain e s1 where a: "QueueAck B batchQueue (ID it) s = (e, s1)" by (cases "QueueAck B batchQueue (ID it) s")
  then have ack: "reports B s1 = reports B s \<or> reports B s1 = aq_ack (ID it) (reports B s)"
    using QueueAck_refines [OF assms(1), of batchQueue "ID it" s1] QueueAck_fail [OF assms(1), of batchQueue "ID it" _ s1]
    by (cases e) auto
  obtain r e' s2 where n: "QueueNack B batchQueue (ID it) 15000 (snd (ans it)) 20 s = (r, e', s2)"
    by (cases "QueueNack B batchQueue (ID it) 15000 (snd (ans it)) 20 s") auto
  then have nack: "reports B s2 = reports B s \<or> reports B s2 = snd (aq_nack (ID it) 15000 (snd (ans it)) 20 (reports B s))"
    using QueueNack_refines [OF assms(1), of batchQueue "ID it" 15000 "snd (ans it)" 20 r s2]
      QueueNack_fail [OF assms(1), of batchQueue "ID it" 15000 "snd (ans it)" 20 r _ s2]
    by (cases e') auto
  show ?thesis
    using ack nack a n assms(2) by (auto simp: drain_one_def dest!: Incr_queues split: option.splits prod.splits)
qed

end

subsection \<open>The pace of refusals\<close>

text \<open>
  Element \<open>i\<close>, enqueued at \<open>e\<close>, was refused \<open>Attempts\<close> times, and every refusal put its next
  attempt off by 15 seconds; \<open>ready\<close>: its next attempt is not in the future.
\<close>

lemma sint_add_bounded:
  "- (2 ^ 63) \<le> sint x + sint y \<Longrightarrow> sint x + sint y < 2 ^ 63 \<Longrightarrow> sint (x + y) = sint x + sint (y :: i64)"
  by (simp add: sint_word_ariths signed_take_bit_int_eq_self)

definition paced :: "u64 \<Rightarrow> int \<Rightarrow> aqueue \<Rightarrow> bool" where
  "paced i e a \<longleftrightarrow> i \<le> aq_seq a \<and> (\<forall>x\<in>set (aq_items a). ID x = i \<longrightarrow>
     0 \<le> sint (Attempts x) \<and> sint (Attempts x) < 20 \<and> e + 15000 * sint (Attempts x) \<le> sint (NotBeforeMs x))"

definition ready :: "u64 \<Rightarrow> i64 \<Rightarrow> aqueue \<Rightarrow> bool" where
  "ready i now a \<longleftrightarrow> i \<le> aq_seq a \<and> (\<forall>x\<in>set (aq_items a). ID x = i \<longrightarrow> sint (NotBeforeMs x) \<le> sint now)"

lemma ready_mono: "ready i now a \<Longrightarrow> sint now \<le> sint now' \<Longrightarrow> ready i now' a"
  by (force simp: ready_def)

lemma enqueue_paced:
  assumes "aq_seq a \<noteq> - 1"
  shows "paced i e a \<Longrightarrow> paced i e (snd (aq_enqueue p t a))"
    and "ready i now a \<Longrightarrow> ready i now (snd (aq_enqueue p t a))"
  using word_less_succ [OF assms] by (auto simp: paced_def ready_def aq_enqueue_def intro: less_imp_le)

lemma lease_paced:
  "paced i e a \<Longrightarrow> paced i e (snd (aq_lease mx l t a))"
  by (auto simp: paced_def aq_lease_def)

lemma lease_ready:
  assumes "aq_ok a" and "it \<in> set (fst (aq_lease mx l now a))"
  shows "ready (ID it) now (snd (aq_lease mx l now a))"
proof -
  obtain y where y: "y \<in> set (aq_select mx now (aq_items a))" "ID it = ID y"
    using assms(2) by (auto simp: aq_lease_def)
  have d: "y \<in> set (aq_items a)" "due now y" using y(1) aq_select_due by blast+
  have "z = y" if "z \<in> set (aq_items a)" "ID z = ID y" for z
    using distinct_map_unique [OF aq_ok_distinct [OF assms(1)]] that d(1) by blast
  moreover have "ID y \<le> aq_seq a" using d(1) assms(1) by (simp add: aq_ok_def)
  ultimately show ?thesis using d(2) y(2) unfolding ready_def aq_lease_def due_def by fastforce
qed

lemma ack_paced:
  "paced i e a \<Longrightarrow> paced i e (aq_ack j a)" "ready i now a \<Longrightarrow> ready i now (aq_ack j a)"
  by (auto simp: paced_def ready_def aq_ack_def)

text \<open>A refusal of another element.\<close>

lemma nack_other:
  "j \<noteq> i \<Longrightarrow> ID x = i \<Longrightarrow> x \<in> set (aq_items (snd (aq_nack j b t m a))) \<longleftrightarrow> x \<in> set (aq_items a)"
  "aq_seq (snd (aq_nack j b t m a)) = aq_seq a"
  by (auto simp: aq_nack_def aq_ack_def split: option.split)

lemma nack_ready:
  "ready i now a \<Longrightarrow> j \<noteq> i \<Longrightarrow> ready i now (snd (aq_nack j b t m a))"
  by (simp add: ready_def nack_other cong: imp_cong) (metis nack_other(1))

text \<open>A refusal at the twentieth attempt comes at least \<open>19 * 15000\<close> milliseconds after the enqueue.\<close>

lemma retry_paced:
  assumes "paced i e a" and "ready i now a" and "sint now < 2 ^ 62" and "aq_ok a"
    and x: "x \<in> set (aq_items a)" "ID x = i" "sint (Attempts x) < 19"
  shows "paced i e (a\<lparr>aq_items := map (\<lambda>x. if ID x = i then retried 15000 now x else x) (aq_items a)\<rparr>)"
proof -
  have b: "0 \<le> sint (Attempts x)" "e + 15000 * sint (Attempts x) \<le> sint now"
    using assms(1,2) x by (force simp: paced_def ready_def)+
  have n: "sint (Attempts x + 1) = sint (Attempts x) + 1" "sint (now + 15000) = sint now + 15000"
    using b(1) x(3) sint_ge [of now] assms(3) sint_add_bounded [of "Attempts x" 1] sint_add_bounded [of now 15000]
    by simp_all
  define P where "P y \<longleftrightarrow> 0 \<le> sint (Attempts y) \<and> sint (Attempts y) < 20
    \<and> e + 15000 * sint (Attempts y) \<le> sint (NotBeforeMs y)" for y :: QueueItem
  have r: "P (retried 15000 now y)" if "y \<in> set (aq_items a)" "ID y = i" for y
  proof -
    have "y = x" using distinct_map_unique [OF aq_ok_distinct [OF assms(4)]] that x by blast
    then show ?thesis using b x(3) n by (simp add: P_def)
  qed
  have "i \<le> aq_seq a" using assms(1) by (simp add: paced_def)
  then show ?thesis using r unfolding paced_def P_def [symmetric] by auto
qed

lemma nack_paced:
  assumes "paced i e a" and "j = i \<Longrightarrow> ready i now a" and "sint now < 2 ^ 62" and "aq_ok a"
  shows "paced i e (snd (aq_nack j 15000 now 20 a))
    \<and> (holds_item i p a \<longrightarrow> holds_item i p (snd (aq_nack j 15000 now 20 a)) \<or> e + 285000 \<le> sint now)"
proof (cases rule: aq_nack_cases [of a j 15000 now 20])
  case absent
  then show ?thesis using assms(1) by simp
next
  case (drop x)
  then have "e + 285000 \<le> sint now" if "j = i"
    using that assms(1) assms(2) [OF that] sint_add_bounded [of "Attempts x" 1] by (force simp: paced_def ready_def)
  then show ?thesis using drop(5) ack_paced(1) [OF assms(1)] holds_item_ack by (cases "j = i") auto
next
  case (retry x)
  have "paced i e (snd (aq_nack j 15000 now 20 a))"
  proof (cases "j = i")
    case True
    then have "sint (Attempts x) < 19"
      using retry(1-3) assms(1) sint_add_bounded [of "Attempts x" 1] by (force simp: paced_def)
    then show ?thesis using retry_paced [OF assms(1) assms(2) [OF True] assms(3,4)] retry True by simp
  next
    case False
    then show ?thesis using assms(1) unfolding retry(4) by (auto simp: paced_def)
  qed
  then show ?thesis unfolding retry(4) snd_conv using holds_item_map [of i p a] by simp
qed

subsection \<open>The invariant of the upload\<close>

text \<open>
  Of the report with number \<open>i\<close>, enqueued at \<open>e\<close> with payload \<open>p\<close>: while its element is in the batch
  that is being settled, no refusal has put it off; an answer that awaits its settlement without an error
  means that the parent answered a push of the report without an error (\<open>A\<close>: the reports so answered).
\<close>

fun acked_by :: "dlabel \<Rightarrow> BatchReport set" where
  "acked_by (DPush rep (Inr ack) got) = {rep}"
| "acked_by l = {}"

definition answer_ok :: "BatchReport codec \<Rightarrow> BatchReport set \<Rightarrow> 'b dsys \<Rightarrow> bool" where
  "answer_ok RC A s \<longleftrightarrow> d_answer s = Some None \<longrightarrow> (\<exists>it its rep. sys_pending (d_sys s) = it # its
     \<and> Unmarshal RC (payload_bytes (Payload it)) = Some rep \<and> rep \<in> A)"

definition dinv :: "'b bolt \<Rightarrow> BatchReport codec \<Rightarrow> BatchReport set \<Rightarrow> u64 \<Rightarrow> int \<Rightarrow> 'b dsys \<Rightarrow> bool" where
  "dinv B RC A i e s \<longleftrightarrow> sys_ok B (d_sys s) \<and> answer_ok RC A s
     \<and> distinct (map ID (sys_pending (d_sys s))) \<and> paced i e (reports B (sys_store (d_sys s)))
     \<and> (i \<in> ID ` set (sys_pending (d_sys s)) \<longrightarrow> ready i (d_now s) (reports B (sys_store (d_sys s))))"

text \<open>Where the report can be: in the queue, answered by the parent, nowhere because it does not decode,
  or given up after \<open>19 * 15\<close> seconds of refusals.\<close>

definition accounted :: "'b bolt \<Rightarrow> BatchReport codec \<Rightarrow> BatchReport set \<Rightarrow> u64 \<Rightarrow> bytes option \<Rightarrow> int \<Rightarrow> 'b dsys \<Rightarrow> bool" where
  "accounted B RC A i p e s \<longleftrightarrow> holds_item i p (reports B (sys_store (d_sys s)))
     \<or> Unmarshal RC (payload_bytes p) = None
     \<or> (\<exists>rep. Unmarshal RC (payload_bytes p) = Some rep \<and> rep \<in> A)
     \<or> e + 285000 \<le> sint (d_now s)"

context bolt_bucket
begin

lemma lease_dinv:
  assumes "queues_ok B s" and "QueueLease B batchQueue mx l now s = (items, err, s')" and "paced i e (reports B s)"
  shows "paced i e (reports B s') \<and> (err = None \<longrightarrow> distinct (map ID items)
    \<and> (i \<in> ID ` set items \<longrightarrow> ready i now (reports B s')))"
proof (cases err)
  case None
  let ?a = "reports B s"
  have ok: "aq_ok ?a" using queue_view_ok [OF assms(1)] .
  have r: "items = fst (aq_lease mx l now ?a)" "reports B s' = snd (aq_lease mx l now ?a)"
    using QueueLease_refines [OF assms(1)] assms(2) None by auto
  have "map ID items = map ID (aq_select mx now (aq_items ?a))" unfolding r(1) by (simp add: aq_lease_def)
  then have "distinct (map ID items)"
    using aq_ok_distinct [OF ok] by (auto simp: aq_select_def distinct_map_filter take_map [symmetric])
  then show ?thesis using lease_paced [OF assms(3)] lease_ready [OF ok] r by auto
next
  case (Some x)
  then show ?thesis using QueueLease_fail [OF assms(1)] assms(2,3) by auto
qed

lemma settle_dinv:
  assumes ok: "queues_ok B s" and d: "drain_one B RC (\<lambda>_. (ans, now)) it s = (oc, s')"
    and p: "paced i e (reports B s)" and rd: "ID it = i \<Longrightarrow> ready i now (reports B s)" and now: "sint now < 2 ^ 62"
  shows "paced i e (reports B s') \<and> (ready i t (reports B s) \<longrightarrow> ID it \<noteq> i \<longrightarrow> ready i t (reports B s'))
    \<and> (holds_item i q (reports B s) \<longrightarrow> holds_item i q (reports B s')
        \<or> ID it = i \<and> (Unmarshal RC (payload_bytes (Payload it)) = None \<or> ans = None) \<or> e + 285000 \<le> sint now)"
proof -
  let ?a = "reports B s"
  have okq: "aq_ok ?a" using queue_view_ok [OF ok] .
  note n = nack_paced [OF p rd now okq, where p = q]
  from drain_one_view [OF ok d] consider "reports B s' = ?a"
    | "reports B s' = aq_ack (ID it) ?a" "Unmarshal RC (payload_bytes (Payload it)) = None \<or> ans = None"
    | "reports B s' = snd (aq_nack (ID it) 15000 now 20 ?a)" by auto
  then show ?thesis
  proof cases
    case 1
    then show ?thesis using p by simp
  next
    case 2
    then show ?thesis using ack_paced [of i] p by (auto simp: aq_ack_def holds_item_def)
  next
    case 3
    then show ?thesis using n nack_ready by auto
  qed
qed

text \<open>The settlement keeps both, and so does every other step.\<close>

lemma settle_accounted:
  assumes inv: "dinv B RC A i e s" and acc: "accounted B RC A i p e s" and now: "sint (d_now s) < 2 ^ 62"
    and pd: "sys_pending (d_sys s) = it # its"
    and ans: "if Unmarshal RC (payload_bytes (Payload it)) = None then ans = None else d_answer s = Some ans"
    and d: "drain_one B RC (\<lambda>_. (ans, d_now s)) it (sys_store (d_sys s)) = (oc, st')"
    and t: "t = s\<lparr>d_sys := (d_sys s)\<lparr>sys_pending := its, sys_store := st'\<rparr>, d_answer := None\<rparr>" and sok: "sys_ok B (d_sys t)"
  shows "dinv B RC A i e t \<and> accounted B RC A i p e t"
proof -
  have q: "queues_ok B (sys_store (d_sys s))" and p: "paced i e (reports B (sys_store (d_sys s)))"
    and ids: "ID it \<notin> ID ` set its" "distinct (map ID its)"
    using inv pd by (simp_all add: dinv_def sys_ok_def)
  have rd: "ready j (d_now s) (reports B (sys_store (d_sys s)))" if "j = i" "j \<in> ID ` set (it # its)" for j
    using inv pd that by (auto simp: dinv_def)
  have pay: "Payload it = p" if "holds_item i p (reports B (sys_store (d_sys s)))" "ID it = i"
    using inv pd that by (auto simp: dinv_def sys_ok_def pending_ok_def holds_item_def)
  have got: "\<exists>rep. Unmarshal RC (payload_bytes (Payload it)) = Some rep \<and> rep \<in> A"
    if "Unmarshal RC (payload_bytes (Payload it)) \<noteq> None" "ans = None"
    using that inv pd ans by (auto simp: dinv_def answer_ok_def)
  note sd = settle_dinv [OF q d p rd now]
  have "ready i (d_now s) (reports B st')" if "i \<in> ID ` set its"
  proof -
    have "ID it \<noteq> i" using that ids(1) by auto
    then show ?thesis using sd rd that by auto
  qed
  then have "dinv B RC A i e t" using sd sok ids(2) t by (simp add: dinv_def answer_ok_def)
  moreover have "accounted B RC A i p e t" using sd [where q = p] acc pay got t by (auto simp: accounted_def)
  ultimately show ?thesis ..
qed

lemma dstep_accounted:
  assumes st: "dstep B CC RC cronErr s l t" and inv: "dinv B RC A i e s" and acc: "accounted B RC A i p e s"
    and ne: "aq_seq (reports B (sys_store (d_sys s))) \<noteq> - 1" and now: "sint (d_now t) < 2 ^ 62"
  shows "dinv B RC (A \<union> acked_by l) i e t \<and> accounted B RC (A \<union> acked_by l) i p e t"
proof -
  have sok: "sys_ok B (d_sys t)"
    using dstep_simulated [OF st] sys_step [of CC RC cronErr "d_sys s" _ "d_sys t"] inv ne
    by (cases l) (auto simp: dinv_def)
  have q: "queues_ok B (sys_store (d_sys s))" using inv by (simp add: dinv_def sys_ok_def)
  from st show ?thesis
  proof cases
    case (Clock now')
    then show ?thesis using inv acc sok ready_mono [of i "d_now s" _ now']
      by (auto simp: dinv_def answer_ok_def accounted_def)
  next
    case (Work b u)
    note w = work_enqueues [OF Work(3,4)]
    have h: "holds_item i p (snd (aq_enqueue pl now a))" if "holds_item i p a" for pl now and a :: aqueue
      using that by (auto simp: holds_item_def aq_enqueue_def)
    from enqueues_view [OF q conjunct1 [OF w] ne] enqueue_paced [OF ne] h inv acc sok w Work(2) show ?thesis
      by (auto simp: dinv_def answer_ok_def accounted_def)
  next
    case (Lease items err st')
    have sys: "holds_item i p (reports B (sys_store (d_sys s))) \<Longrightarrow> holds_item i p (reports B st')"
      using lease_evolves [OF q Lease(4) ne] by blast
    show ?thesis using lease_dinv [OF q Lease(4), of i e] sys inv acc sok Lease
      by (auto simp: dinv_def answer_ok_def accounted_def split: if_splits)
  next
    case (Push it its rep res got)
    then show ?thesis using inv acc sok
      by (cases res) (auto simp: dinv_def answer_ok_def accounted_def PushBatchReport_def)
  next
    case (Settle it its ans oc st')
    then show ?thesis using settle_accounted [OF inv acc _ Settle(3-5) Settle(2) sok] now by simp
  next
    case (Crash w' st')
    then show ?thesis using reload_queues [OF Crash(3)] inv acc sok
      by (auto simp: dinv_def answer_ok_def accounted_def)
  qed
qed

lemma dstep_seq:
  assumes "dstep B CC RC cronErr s l t" and "sys_ok B (d_sys s)" and "aq_seq (reports B (sys_store (d_sys s))) \<noteq> - 1"
  shows "unat (aq_seq (reports B (sys_store (d_sys t)))) \<le> Suc (unat (aq_seq (reports B (sys_store (d_sys s)))))"
  using dstep_simulated [OF assms(1)] sys_step [of CC RC cronErr "d_sys s" _ "d_sys t", OF _ assms(2,3)]
  by (cases l) auto

lemma dstep_clock: "dstep B CC RC cronErr s l t \<Longrightarrow> sint (d_now s) \<le> sint (d_now t)"
  by (induction rule: dstep.induct) simp_all

lemma drun_clock: "drun B CC RC cronErr s ls t \<Longrightarrow> sint (d_now s) \<le> sint (d_now t)"
  by (induction rule: steps.induct) (auto dest: dstep_clock)

lemma drun_accounted:
  assumes "drun B CC RC cronErr s ls t" and "dinv B RC A i e s" and "accounted B RC A i p e s"
    and "unat (aq_seq (reports B (sys_store (d_sys s)))) + length ls < 2 ^ 64" and "sint (d_now t) < 2 ^ 62"
  shows "accounted B RC (A \<union> \<Union> (acked_by ` set ls)) i p e t"
  using assms
proof (induction arbitrary: A rule: steps.induct)
  case (Step s l s1 ls t)
  have ne: "aq_seq (reports B (sys_store (d_sys s))) \<noteq> - 1" using Step.prems(3) max_word_64 by auto
  have now: "sint (d_now s1) < 2 ^ 62" using drun_clock [OF Step.hyps(2)] Step.prems(4) by simp
  have "sys_ok B (d_sys s)" using Step.prems(1) by (simp add: dinv_def)
  from dstep_seq [OF Step.hyps(1) this ne] dstep_accounted [OF Step.hyps(1) Step.prems(1,2) ne now]
  show ?case using Step.IH [of "A \<union> acked_by l"] Step.prems(3,4) by (simp add: Un_assoc)
qed simp

end

lemma acked_by_push: "rep \<in> acked_by l \<Longrightarrow> \<exists>ack got. l = DPush rep (Inr ack) got"
  by (cases l rule: acked_by.cases) auto

text \<open>What the parent stores stays stored.\<close>

lemma dstep_received:
  "dstep B CC RC cronErr s l t \<Longrightarrow> set (d_received s) \<subseteq> set (d_received t)
     \<and> (\<forall>rep res. l = DPush rep res True \<longrightarrow> rep \<in> set (d_received t))"
  by (induction rule: dstep.induct) auto

lemma drun_received:
  "drun B CC RC cronErr s ls t \<Longrightarrow> set (d_received s) \<subseteq> set (d_received t)
     \<and> (\<forall>rep res. DPush rep res True \<in> set ls \<longrightarrow> rep \<in> set (d_received t))"
proof (induction rule: steps.induct)
  case (Step s l s1 ls t)
  then show ?case using dstep_received [OF Step.hyps(1)] by auto
qed simp

subsection \<open>An outage of the parent\<close>

abbreviation positive_ack :: ResultAck where
  "positive_ack \<equiv> \<lparr>ack_Accepted = True\<rparr>"

context bolt_healthy
begin

text \<open>One round of a lone report: leased, pushed in vain, refused.\<close>

lemma refusal_round:
  assumes ok: "queues_ok B (sys_store (d_sys s))" and its: "aq_items (reports B (sys_store (d_sys s))) = [x]"
    and idle: "sys_pending (d_sys s) = []" "d_answer s = None" and now: "sint (d_now s) \<le> sint now"
    and due: "due now x" and rep: "Unmarshal RC (payload_bytes (Payload x)) = Some rep"
  shows "\<exists>ls t. drun B CC RC cronErr s ls t \<and> d_now t = now \<and> queues_ok B (sys_store (d_sys t))
    \<and> sys_pending (d_sys t) = [] \<and> d_answer t = None \<and> d_received t = d_received s
    \<and> aq_items (reports B (sys_store (d_sys t))) =
        (if 20 \<le> sint (Attempts x + 1) then [] else [retried 15000 now x])"
proof -
  let ?a = "reports B (sys_store (d_sys s))" and ?x = "leased batchLeaseMs now x" and ?res = "Inl (ErrText ''unavailable'')"
    and ?e = "Wrapped (''push batch report run='' @ GetRunId (Some rep)) (ErrText ''unavailable'')"
  obtain items err st1 where l: "QueueLease B batchQueue 5 batchLeaseMs now (sys_store (d_sys s)) = (items, err, st1)"
    by (cases "QueueLease B batchQueue 5 batchLeaseMs now (sys_store (d_sys s))") auto
  have err: "err = None" using QueueLease_total [OF ok l] .
  have r: "queues_ok B st1" "items = [?x]" "aq_items (reports B st1) = [?x]"
    using QueueLease_refines [OF ok l [unfolded err]] its due by (simp_all add: aq_lease_def aq_select_def)
  obtain att kept e st2 where n: "QueueNack B batchQueue (ID x) 15000 now 20 st1 = ((att, kept), e, st2)"
    by (metis prod.exhaust)
  have e: "e = None" using QueueNack_total [OF n] .
  have r2: "queues_ok B st2" "aq_items (reports B st2) = (if 20 \<le> sint (Attempts x + 1) then [] else [retried 15000 now x])"
    using QueueNack_refines [OF r(1) n [unfolded e]] r(3)
    by (simp_all add: aq_nack_def aq_ack_def retried_def leased_def)
  define s1 where "s1 = s\<lparr>d_now := now\<rparr>"
  define s2 where "s2 = s1\<lparr>d_sys := (d_sys s)\<lparr>sys_pending := [?x], sys_store := st1\<rparr>\<rparr>"
  define s3 where "s3 = s2\<lparr>d_answer := Some (Some ?e)\<rparr>"
  define s4 where "s4 = s3\<lparr>d_sys := (d_sys s2)\<lparr>sys_pending := [], sys_store := st2\<rparr>, d_answer := None\<rparr>"
  have "drun B CC RC cronErr s [DClock, DBatch LLease, DPush rep ?res False, DBatch (LItem (ID x) (\<lambda>_. (Some ?e, now)) (Refused rep att kept))] s4"
  proof (intro steps.intros)
    show "dstep B CC RC cronErr s DClock s1" using dstep.Clock [of s now] now by (simp add: s1_def)
    show "dstep B CC RC cronErr s1 (DBatch LLease) s2"
      using dstep.Lease [of s1 B items err st1 CC RC cronErr] idle l err r(2) by (simp add: s1_def s2_def)
    show "dstep B CC RC cronErr s2 (DPush rep ?res False) s3"
      using dstep.Push [of s2 ?x "[]" RC rep B CC cronErr ?res False] idle(2) rep by (simp add: s1_def s2_def s3_def PushBatchReport_def)
    have "drain_one B RC (\<lambda>_. (Some ?e, now)) ?x st1 = (Refused rep att kept, st2)"
      using rep n by (simp add: drain_one_def)
    then show "dstep B CC RC cronErr s3 (DBatch (LItem (ID x) (\<lambda>_. (Some ?e, now)) (Refused rep att kept))) s4"
      using dstep.Settle [of s3 ?x "[]" RC "Some ?e" B "Refused rep att kept" st2 CC cronErr] rep
      by (simp add: s1_def s2_def s3_def s4_def)
  qed (rule steps.Nil)
  then show ?thesis
    by (intro exI [of _ s4] exI conjI, assumption) (simp_all add: s4_def s3_def s2_def s1_def r2 idle)
qed

text \<open>A lone due report is leased and pushed; the parent stores it.\<close>

lemma push_round:
  assumes ok: "queues_ok B (sys_store (d_sys s))" and its: "aq_items (reports B (sys_store (d_sys s))) = [x]"
    and idle: "sys_pending (d_sys s) = []" "d_answer s = None" and now: "sint (d_now s) \<le> sint now"
    and due: "due now x" and rep: "Unmarshal RC (payload_bytes (Payload x)) = Some rep"
  shows "\<exists>t. drun B CC RC cronErr s [DClock, DBatch LLease, DPush rep (Inr positive_ack) True] t \<and> d_now t = now
    \<and> queues_ok B (sys_store (d_sys t)) \<and> d_received t = d_received s @ [rep]
    \<and> aq_items (reports B (sys_store (d_sys t))) = [leased batchLeaseMs now x]"
proof -
  let ?x = "leased batchLeaseMs now x"
  obtain items err st1 where l: "QueueLease B batchQueue 5 batchLeaseMs now (sys_store (d_sys s)) = (items, err, st1)"
    by (cases "QueueLease B batchQueue 5 batchLeaseMs now (sys_store (d_sys s))") auto
  have err: "err = None" using QueueLease_total [OF ok l] .
  have r: "queues_ok B st1" "items = [?x]" "aq_items (reports B st1) = [?x]"
    using QueueLease_refines [OF ok l [unfolded err]] its due by (simp_all add: aq_lease_def aq_select_def)
  define s1 where "s1 = s\<lparr>d_now := now\<rparr>"
  define s2 where "s2 = s1\<lparr>d_sys := (d_sys s)\<lparr>sys_pending := [?x], sys_store := st1\<rparr>\<rparr>"
  define s3 where "s3 = s2\<lparr>d_answer := Some None, d_received := d_received s @ [rep]\<rparr>"
  have "drun B CC RC cronErr s [DClock, DBatch LLease, DPush rep (Inr positive_ack) True] s3"
  proof (intro steps.intros)
    show "dstep B CC RC cronErr s DClock s1" using dstep.Clock [of s now] now by (simp add: s1_def)
    show "dstep B CC RC cronErr s1 (DBatch LLease) s2"
      using dstep.Lease [of s1 B items err st1 CC RC cronErr] idle l err r(2) by (simp add: s1_def s2_def)
    show "dstep B CC RC cronErr s2 (DPush rep (Inr positive_ack) True) s3"
      using dstep.Push [of s2 ?x "[]" RC rep B CC cronErr "Inr positive_ack" True] idle(2) rep by (simp add: s1_def s2_def s3_def PushBatchReport_def)
  qed (rule steps.Nil)
  then show ?thesis by (intro exI [of _ s3] conjI) (simp_all add: s3_def s2_def s1_def r)
qed

text \<open>\<open>n\<close> rounds, each as early as possible.\<close>

lemma refusal_rounds:
  assumes ok: "queues_ok B (sys_store (d_sys s))" and its: "aq_items (reports B (sys_store (d_sys s))) = [x]"
    and idle: "sys_pending (d_sys s) = []" "d_answer s = None"
    and e: "0 \<le> sint (NotBeforeMs x)" "sint (NotBeforeMs x) < 2 ^ 62"
    and due: "sint (d_now s) \<le> sint (NotBeforeMs x)" "sint (LeaseUntilMs x) \<le> sint (NotBeforeMs x)" "Attempts x = 0"
    and rep: "Unmarshal RC (payload_bytes (Payload x)) = Some rep" and n: "n < 20"
  shows "\<exists>ls t y. drun B CC RC cronErr s ls t \<and> queues_ok B (sys_store (d_sys t))
    \<and> sys_pending (d_sys t) = [] \<and> d_answer t = None \<and> d_received t = d_received s
    \<and> aq_items (reports B (sys_store (d_sys t))) = [y] \<and> Payload y = Payload x \<and> sint (Attempts y) = int n
    \<and> sint (NotBeforeMs y) = sint (NotBeforeMs x) + 15000 * int n \<and> due (NotBeforeMs y) y
    \<and> sint (d_now t) \<le> sint (NotBeforeMs y)"
  using n
proof (induction n)
  case 0
  then show ?case using assms by (intro exI [of _ "[]"] exI [of _ s] exI [of _ x]) (simp add: steps.Nil due_def)
next
  case (Suc n)
  then obtain ls t y where t: "drun B CC RC cronErr s ls t" "queues_ok B (sys_store (d_sys t))"
    "sys_pending (d_sys t) = []" "d_answer t = None" "d_received t = d_received s"
    "aq_items (reports B (sys_store (d_sys t))) = [y]" "Payload y = Payload x" "sint (Attempts y) = int n"
    "sint (NotBeforeMs y) = sint (NotBeforeMs x) + 15000 * int n" "due (NotBeforeMs y) y"
    "sint (d_now t) \<le> sint (NotBeforeMs y)"
    by (metis Suc_lessD)
  have a: "sint (Attempts y + 1) = int (Suc n)" using t(8) Suc.prems sint_add_bounded [of "Attempts y" 1] by simp
  have b: "sint (NotBeforeMs y + 15000) = sint (NotBeforeMs y) + 15000"
    using t(9) e Suc.prems sint_add_bounded [of "NotBeforeMs y" 15000] by simp
  have "Unmarshal RC (payload_bytes (Payload y)) = Some rep" using rep t(7) by simp
  from refusal_round [OF t(2,6,3,4,11,10) this] obtain ls' u where u: "drun B CC RC cronErr t ls' u"
    "d_now u = NotBeforeMs y" "queues_ok B (sys_store (d_sys u))" "sys_pending (d_sys u) = []"
    "d_answer u = None" "d_received u = d_received t"
    "aq_items (reports B (sys_store (d_sys u))) = (if 20 \<le> sint (Attempts y + 1) then [] else [retried 15000 (NotBeforeMs y) y])"
    by blast
  have "due (NotBeforeMs y + 15000) (retried 15000 (NotBeforeMs y) y)"
    using b t(9) e(1) by (simp add: due_def)
  then show ?case
    using steps_append [OF t(1) u(1)] u t(5,7,9) a b Suc.prems
    by (intro exI [of _ "ls @ ls'"] exI [of _ u] exI [of _ "retried 15000 (NotBeforeMs y) y"]) simp
qed

end

subsection \<open>Properties\<close>

text \<open>C1: End-to-end delivery of reports. Whatever the goroutines of the batch role do, however often the
  process crashes, also between the push of a report and its settlement, whatever the parent answers and
  whichever writes of the store fail: a report that waits in the queue, not yet refused, is still there
  with its payload, or the parent has answered a push of it without an error, or its payload does not
  decode, or at least 285 seconds (19 refusals, 15 seconds apart) have passed since it was enqueued. An
  answer without an error is all the code asks for: it does not look at \<open>accepted\<close>, so whether
  the parent stored the report is up to the parent.\<close>

theorem report_delivered_or_kept:
  assumes "bolt_bucket B" and "drun B CC RC cronErr s ls t"
    and "sys_ok B (d_sys s)" "sys_pending (d_sys s) = []" "d_answer s = None"
    and "it \<in> set (aq_items (reports B (sys_store (d_sys s))))" "Attempts it = 0"
    and "sint (EnqueuedMs it) \<le> sint (NotBeforeMs it)"
    and "unat (aq_seq (reports B (sys_store (d_sys s)))) + length ls < 2 ^ 64" "sint (d_now t) < 2 ^ 62"
  shows "holds_item (ID it) (Payload it) (reports B (sys_store (d_sys t)))
    \<or> (\<exists>rep ack got. Unmarshal RC (payload_bytes (Payload it)) = Some rep
         \<and> DPush rep (Inr ack) got \<in> set ls \<and> (got \<longrightarrow> rep \<in> set (d_received t)))
    \<or> Unmarshal RC (payload_bytes (Payload it)) = None
    \<or> sint (EnqueuedMs it) + 285000 \<le> sint (d_now t)"
proof -
  have ok: "aq_ok (reports B (sys_store (d_sys s)))"
    using bolt_bucket.queue_view_ok [OF assms(1)] assms(3) by (simp add: sys_ok_def)
  have u: "x = it" if "x \<in> set (aq_items (reports B (sys_store (d_sys s))))" "ID x = ID it" for x
    using distinct_map_unique [OF aq_ok_distinct [OF ok]] that assms(6) by blast
  have "paced (ID it) (sint (EnqueuedMs it)) (reports B (sys_store (d_sys s)))"
    using ok assms(6-8) by (auto simp: paced_def aq_ok_def dest: u)
  then have "dinv B RC {} (ID it) (sint (EnqueuedMs it)) s"
    using assms(3-5) by (simp add: dinv_def answer_ok_def)
  moreover have "accounted B RC {} (ID it) (Payload it) (sint (EnqueuedMs it)) s"
    using assms(6) by (auto simp: accounted_def holds_item_def)
  ultimately have "accounted B RC (\<Union> (acked_by ` set ls)) (ID it) (Payload it) (sint (EnqueuedMs it)) t"
    using bolt_bucket.drun_accounted [OF assms(1,2) _ _ assms(9,10)] by fastforce
  then show ?thesis
    using acked_by_push drun_received [OF assms(2)] unfolding accounted_def by (auto; metis)
qed

text \<open>C35: An outage of 285 seconds loses a report. If the parent cannot be reached from the moment a report
  becomes due, there is a run of exactly 285 seconds after which the report has left the queue
  although the parent never received it.\<close>

theorem outage_loses_report:
  assumes "bolt_healthy B" and "queues_ok B (sys_store (d_sys s))" "aq_items (reports B (sys_store (d_sys s))) = [it]"
    and "sys_pending (d_sys s) = []" "d_answer s = None" "d_received s = []"
    and "0 \<le> sint (NotBeforeMs it)" "sint (NotBeforeMs it) < 2 ^ 62" "sint (d_now s) \<le> sint (NotBeforeMs it)"
    and "sint (LeaseUntilMs it) \<le> sint (NotBeforeMs it)" "Attempts it = 0"
    and "Unmarshal RC (payload_bytes (Payload it)) = Some rep"
  shows "\<exists>ls t. drun B CC RC cronErr s ls t \<and> sint (d_now t) = sint (NotBeforeMs it) + 285000
    \<and> aq_items (reports B (sys_store (d_sys t))) = [] \<and> d_received t = []"
proof -
  have n: "(19 :: nat) < 20" by simp
  from bolt_healthy.refusal_rounds [OF assms(1-5,7-12) n, of CC cronErr] obtain ls t y where
    t: "drun B CC RC cronErr s ls t" "queues_ok B (sys_store (d_sys t))" "sys_pending (d_sys t) = []"
      "d_answer t = None" "d_received t = d_received s" "aq_items (reports B (sys_store (d_sys t))) = [y]"
      "Payload y = Payload it" "sint (Attempts y) = 19" "sint (NotBeforeMs y) = sint (NotBeforeMs it) + 285000"
      "due (NotBeforeMs y) y" "sint (d_now t) \<le> sint (NotBeforeMs y)"
    by auto
  have "Unmarshal RC (payload_bytes (Payload y)) = Some rep" using assms(12) t(7) by simp
  from bolt_healthy.refusal_round [OF assms(1) t(2,6,3,4,11,10) this, of CC cronErr] obtain ls' u where
    u: "drun B CC RC cronErr t ls' u" "d_now u = NotBeforeMs y" "d_received u = d_received t"
      "aq_items (reports B (sys_store (d_sys u))) = (if 20 \<le> sint (Attempts y + 1) then [] else [retried 15000 (NotBeforeMs y) y])"
    by blast
  have "sint (Attempts y + 1) = 20" using t(8) sint_add_bounded [of "Attempts y" 1] by simp
  then show ?thesis using steps_append [OF t(1) u(1)] u t(5,9) assms(6) by (intro exI [of _ "ls @ ls'"] exI [of _ u]) simp
qed

text \<open>C27: A report can arrive twice. On a store whose writes do not fail and with one due report waiting,
  there is a run in which the parent stores the report, the process crashes before its element is
  acknowledged, and the restarted worker leases and sends the report again once the lease of
  60 seconds has ended.\<close>

theorem report_can_arrive_twice:
  assumes "bolt_healthy B" and "queues_ok B (sys_store (d_sys s))" "aq_items (reports B (sys_store (d_sys s))) = [it]"
    and "sys_pending (d_sys s) = []" "d_answer s = None" "d_received s = []"
    and "due (d_now s) it" "sint (d_now s) < 2 ^ 62"
    and "Unmarshal RC (payload_bytes (Payload it)) = Some rep"
  shows "\<exists>t. drun B CC RC cronErr s [DClock, DBatch LLease, DPush rep (Inr positive_ack) True, DBatch LCrash,
      DClock, DBatch LLease, DPush rep (Inr positive_ack) True] t
    \<and> sint (d_now t) = sint (d_now s) + 60000 \<and> d_received t = [rep, rep]"
proof -
  from bolt_healthy.push_round [OF assms(1-5) order_refl assms(7,9), of CC cronErr] obtain t where
    t: "drun B CC RC cronErr s [DClock, DBatch LLease, DPush rep (Inr positive_ack) True] t" "d_now t = d_now s"
      "queues_ok B (sys_store (d_sys t))" "d_received t = [rep]"
      "aq_items (reports B (sys_store (d_sys t))) = [leased batchLeaseMs (d_now s) it]"
    using assms(6) by auto
  obtain w' st' where c: "batch_reload B CC cronErr batch_Init (sys_store (d_sys t)) = (w', st')"
    by (cases "batch_reload B CC cronErr batch_Init (sys_store (d_sys t))")
  define u where "u = t\<lparr>d_sys := (d_sys t)\<lparr>sys_w := w', sys_active := [], sys_pending := [], sys_store := st'\<rparr>,
      d_answer := None\<rparr>"
  have u: "dstep B CC RC cronErr t (DBatch LCrash) u" using dstep.Crash [OF c] by (simp add: u_def)
  have q: "queue_view B st' = queue_view B (sys_store (d_sys t)) \<and> queues_ok B st' = queues_ok B (sys_store (d_sys t))"
    using bolt_bucket.reload_queues [OF bolt_healthy.axioms(1) [OF assms(1)] c] .
  have n: "sint (d_now s + batchLeaseMs) = sint (d_now s) + 60000"
    using sint_ge [of "d_now s"] assms(8) sint_add_bounded [of "d_now s" 60000] by (simp add: batchLeaseMs_def)
  have d: "due (d_now s + batchLeaseMs) (leased batchLeaseMs (d_now s) it)"
    using assms(7) n by (simp add: due_def)
  from bolt_healthy.push_round [OF assms(1), of u "leased batchLeaseMs (d_now s) it" "d_now s + batchLeaseMs" RC rep CC cronErr]
  obtain v where v: "drun B CC RC cronErr u [DClock, DBatch LLease, DPush rep (Inr positive_ack) True] v"
      "d_now v = d_now s + batchLeaseMs" "d_received v = [rep, rep]"
    using q t d n assms(9) by (auto simp: u_def)
  from steps_append [OF t(1) steps.Step [OF u v(1)]] show ?thesis using v n by (intro exI [of _ v]) simp
qed

text \<open>A concrete system: one report of the demonstration job, enqueued at 5.\<close>

definition demo_dsys :: "log_bucket dsys" where
  "demo_dsys = \<lparr>d_sys = demo_sys\<lparr>sys_store := snd (snd (QueueEnqueue ref_bolt batchQueue (Some [CHR 0x0A]) 5 empty_store))\<rparr>,
     d_answer = None, d_received = [], d_now = 5\<rparr>"

definition demo_item :: QueueItem where
  "demo_item = zero_item\<lparr>ID := 1, Payload := Some [CHR 0x0A], EnqueuedMs := 5, NotBeforeMs := 5\<rparr>"

lemma demo_dsys_view: "queues_ok ref_bolt (sys_store (d_sys demo_dsys))
  \<and> reports ref_bolt (sys_store (d_sys demo_dsys)) = \<lparr>aq_seq = 1, aq_items = [demo_item]\<rparr>"
proof -
  obtain n e s' where q: "QueueEnqueue ref_bolt batchQueue (Some [CHR 0x0A]) 5 empty_store = (n, e, s')"
    by (cases "QueueEnqueue ref_bolt batchQueue (Some [CHR 0x0A]) 5 empty_store") auto
  have "e = None" using logh.QueueEnqueue_total [OF _ q] by (simp add: batchQueue_def)
  then show ?thesis
    using logb.QueueEnqueue_refines [of _ empty_store batchQueue "Some [CHR 0x0A]" 5 n s'] q
    by (simp add: demo_dsys_def aq_enqueue_def demo_item_def)
qed

lemma demo_dsys_ok: "sys_ok ref_bolt (d_sys demo_dsys)"
  using demo_dsys_view flags_ok_Init by (simp add: sys_ok_def pending_ok_def demo_dsys_def demo_sys_def)

lemma demo_dsys_simps:
  "sys_pending (d_sys demo_dsys) = []" "d_answer demo_dsys = None" "d_received demo_dsys = []" "d_now demo_dsys = 5"
  by (simp_all add: demo_dsys_def demo_sys_def)

lemma demo_item_simps:
  "ID demo_item = 1" "Payload demo_item = Some [CHR 0x0A]" "Attempts demo_item = 0" "EnqueuedMs demo_item = 5"
  "NotBeforeMs demo_item = 5" "LeaseUntilMs demo_item = 0"
  by (simp_all add: demo_item_def zero_item_def)

theorem outage_loses_report_witness:
  "\<exists>ls t. drun ref_bolt (one_codec demo_cmd) (one_codec demo_report) (\<lambda>_. None) demo_dsys ls t
     \<and> sint (d_now t) = 285005 \<and> aq_items (reports ref_bolt (sys_store (d_sys t))) = [] \<and> d_received t = []"
proof -
  have "Unmarshal (one_codec demo_report) (payload_bytes (Payload demo_item)) = Some demo_report"
    by (simp add: demo_item_simps payload_bytes_def one_codec_def)
  from outage_loses_report [OF logh.bolt_healthy_axioms conjunct1 [OF demo_dsys_view] _ demo_dsys_simps(1-3) _ _ _ _ _ this,
      of "one_codec demo_cmd" "\<lambda>_. None"]
  show ?thesis using demo_dsys_view by (simp add: demo_item_simps demo_dsys_simps)
qed

theorem report_can_arrive_twice_witness:
  "\<exists>t. drun ref_bolt (one_codec demo_cmd) (one_codec demo_report) (\<lambda>_. None) demo_dsys
      [DClock, DBatch LLease, DPush demo_report (Inr positive_ack) True, DBatch LCrash, DClock, DBatch LLease, DPush demo_report (Inr positive_ack) True] t
    \<and> sint (d_now t) = 60005 \<and> d_received t = [demo_report, demo_report]"
proof -
  have "Unmarshal (one_codec demo_report) (payload_bytes (Payload demo_item)) = Some demo_report"
    by (simp add: demo_item_simps payload_bytes_def one_codec_def)
  from report_can_arrive_twice [OF logh.bolt_healthy_axioms conjunct1 [OF demo_dsys_view] _ demo_dsys_simps(1-3) _ _ this,
      of "one_codec demo_cmd" "\<lambda>_. None"]
  show ?thesis using demo_dsys_view by (simp add: demo_item_simps demo_dsys_simps due_def)
qed

theorem report_delivered_or_kept_witness:
  "\<exists>t. drun ref_bolt (one_codec demo_cmd) (one_codec demo_report) (\<lambda>_. None) demo_dsys [DClock, DBatch LLease, DPush demo_report (Inl (ErrText ''x'')) False] t
    \<and> d_received t = [] \<and> holds_item 1 (Some [CHR 0x0A]) (reports ref_bolt (sys_store (d_sys t)))"
proof -
  let ?CC = "one_codec demo_cmd" and ?RC = "one_codec demo_report" and ?cr = "\<lambda>_ :: bytes. None :: gerror option"
  have u: "Unmarshal ?RC (payload_bytes (Payload demo_item)) = Some demo_report"
    by (simp add: demo_item_simps payload_bytes_def one_codec_def)
  have its: "aq_items (reports ref_bolt (sys_store (d_sys demo_dsys))) = [demo_item]" using demo_dsys_view by simp
  obtain items err st1 where l: "QueueLease ref_bolt batchQueue 5 batchLeaseMs 5 (sys_store (d_sys demo_dsys)) = (items, err, st1)"
    by (cases "QueueLease ref_bolt batchQueue 5 batchLeaseMs 5 (sys_store (d_sys demo_dsys))") auto
  have err: "err = None" using logh.QueueLease_total [OF conjunct1 [OF demo_dsys_view] l] .
  have it: "items = [leased batchLeaseMs 5 demo_item]"
    using logb.QueueLease_refines [OF conjunct1 [OF demo_dsys_view] l [unfolded err]] its
    by (simp add: aq_lease_def aq_select_def due_def demo_item_simps)
  define t where "t = demo_dsys\<lparr>d_sys := (d_sys demo_dsys)\<lparr>sys_pending := items, sys_store := st1\<rparr>, d_answer := Some (PushBatchReport (\<lambda>_ _. Inl (ErrText ''x'')) demo_report), d_received := []\<rparr>"
  have "drun ref_bolt ?CC ?RC ?cr demo_dsys [DClock, DBatch LLease, DPush demo_report (Inl (ErrText ''x'')) False] t"
  proof (intro steps.intros)
    show "dstep ref_bolt ?CC ?RC ?cr demo_dsys DClock demo_dsys"
      using dstep.Clock [of demo_dsys 5] by (simp add: demo_dsys_def)
    show "dstep ref_bolt ?CC ?RC ?cr demo_dsys (DBatch LLease) (demo_dsys\<lparr>d_sys := (d_sys demo_dsys)\<lparr>sys_pending := items, sys_store := st1\<rparr>\<rparr>)"
      using dstep.Lease [of demo_dsys ref_bolt items err st1 ?CC ?RC ?cr] l err by (simp add: demo_dsys_simps)
    show "dstep ref_bolt ?CC ?RC ?cr (demo_dsys\<lparr>d_sys := (d_sys demo_dsys)\<lparr>sys_pending := items, sys_store := st1\<rparr>\<rparr>)
        (DPush demo_report (Inl (ErrText ''x'')) False) t"
      using dstep.Push [of "demo_dsys\<lparr>d_sys := (d_sys demo_dsys)\<lparr>sys_pending := items, sys_store := st1\<rparr>\<rparr>"
          "leased batchLeaseMs 5 demo_item" "[]" ?RC demo_report ref_bolt ?CC ?cr "Inl (ErrText ''x'')" False] u it
      by (simp add: demo_dsys_simps t_def)
  qed (rule steps.Nil)
  moreover from report_delivered_or_kept [OF logb.bolt_bucket_axioms this demo_dsys_ok demo_dsys_simps(1,2), of demo_item]
  have "holds_item 1 (Some [CHR 0x0A]) (reports ref_bolt (sys_store (d_sys t)))"
    using demo_dsys_view u by (simp add: demo_item_simps t_def demo_dsys_simps)
  ultimately show ?thesis by (intro exI [of _ t]) (simp add: t_def demo_dsys_simps)
qed

end
