(* ===== verification/BatchDedup.thy ===== *)
theory BatchDedup
  imports BatchDelivery
begin

section \<open>Run numbers identify reports at the parent\<close>

text \<open>
  A report may reach the parent more than once (BatchDelivery.thy), so the parent has to recognise a
  repeated one, and the run number is what it has. Here: as long as the counter of run numbers can be
  written, two different reports never carry the same run number, crashes included. (\<open>newRunID\<close>
  ignores a failed write, and two runs of the same second then get the same number.)
\<close>

subsection \<open>Reports in flight\<close>

definition queued :: "BatchReport codec \<Rightarrow> QueueItem set \<Rightarrow> BatchReport set" where
  "queued RC X = {rep. \<exists>x\<in>X. Unmarshal RC (payload_bytes (Payload x)) = Some rep}"

definition in_flight :: "'b bolt \<Rightarrow> BatchReport codec \<Rightarrow> 'b dsys \<Rightarrow> BatchReport set" where
  "in_flight B RC s = queued RC (set (aq_items (reports B (sys_store (d_sys s)))) \<union> set (sys_pending (d_sys s)))
     \<union> set (d_received s)"

lemma queued_mono: "Payload ` X \<subseteq> Payload ` Y \<Longrightarrow> queued RC X \<subseteq> queued RC Y"
  unfolding queued_def by (force simp: image_subset_iff image_iff)

lemma queued_Un: "queued RC (X \<union> Y) = queued RC X \<union> queued RC Y"
  by (auto simp: queued_def)

subsection \<open>Numbers made so far\<close>

text \<open>\<open>A\<close> are the numbers of the runs in progress, \<open>n\<close> is the counter of run numbers.\<close>

definition numbered :: "u64 \<Rightarrow> bytes \<Rightarrow> bool" where
  "numbered n i \<longleftrightarrow> (\<exists>st c. i = ''run-'' @ st @ ''-'' @ itoa c \<and> c \<le> n)"

definition ids_ok :: "BatchReport set \<Rightarrow> bytes list \<Rightarrow> u64 \<Rightarrow> bool" where
  "ids_ok S A n \<longleftrightarrow> inj_on RunId S \<and> distinct A \<and> RunId ` S \<inter> set A = {}
     \<and> (\<forall>i\<in>RunId ` S \<union> set A. numbered n i)"

lemma numbered_mono: "numbered m i \<Longrightarrow> m \<le> n \<Longrightarrow> numbered n i"
  by (auto simp: numbered_def intro: order_trans)

lemma fresh_number:
  assumes "n \<noteq> - 1"
  shows "\<not> numbered n (''run-'' @ st @ ''-'' @ itoa (n + 1))"
proof
  assume "numbered n (''run-'' @ st @ ''-'' @ itoa (n + 1))"
  then obtain st' c where "''run-'' @ st @ ''-'' @ itoa (n + 1) = ''run-'' @ st' @ ''-'' @ itoa c" "c \<le> n"
    unfolding numbered_def by blast
  then have "n + 1 \<le> n" unfolding run_id_inject by blast
  then show False using word_less_succ [OF assms] by simp
qed

lemma ids_ok_shrink:
  "ids_ok S A n \<Longrightarrow> T \<subseteq> S \<Longrightarrow> ids_ok T A n"
  unfolding ids_ok_def by (blast intro: inj_on_subset)

lemma ids_ok_crash:
  "ids_ok S A n \<Longrightarrow> T \<subseteq> S \<Longrightarrow> ids_ok T [] n"
  unfolding ids_ok_def by (auto intro: inj_on_subset)

lemma ids_ok_begin:
  assumes "ids_ok S A n" and "n \<noteq> - 1" and "i = ''run-'' @ st @ ''-'' @ itoa (n + 1)"
  shows "ids_ok S (A @ [i]) (n + 1)"
proof -
  have "i \<notin> RunId ` S \<union> set A" using fresh_number [OF assms(2), of st] assms(1,3) by (auto simp: ids_ok_def)
  moreover have "numbered (n + 1) i" using assms(3) by (auto simp: numbered_def)
  ultimately show ?thesis using assms(1) less_imp_le [OF word_less_succ [OF assms(2)]]
    unfolding ids_ok_def by (auto intro: numbered_mono)
qed

text \<open>The end of a run, its report carrying the number of the run.\<close>

lemma ids_ok_end:
  assumes "ids_ok S (P @ RunId rep # Q) n" and "T \<subseteq> insert rep S"
  shows "ids_ok T (P @ Q) n"
proof -
  have "inj_on RunId (insert rep S)"
    using assms(1) by (auto simp: ids_ok_def intro!: inj_on_insert [THEN iffD2])
  moreover have "RunId ` insert rep S \<inter> set (P @ Q) = {}" "distinct (P @ Q)"
    "RunId ` insert rep S \<union> set (P @ Q) = RunId ` S \<union> set (P @ RunId rep # Q)"
    using assms(1) by (auto simp: ids_ok_def)
  ultimately have "ids_ok (insert rep S) (P @ Q) n" using assms(1) unfolding ids_ok_def by simp
  then show ?thesis by (rule ids_ok_shrink [OF _ assms(2)])
qed

lemma ids_ok_drop: "ids_ok S (P @ i # Q) n \<Longrightarrow> ids_ok S (P @ Q) n"
  unfolding ids_ok_def by auto

text \<open>A report with a number of its own.\<close>

lemma ids_ok_new:
  assumes "ids_ok S A n" and "n \<noteq> - 1" and "RunId rep = ''run-'' @ st @ ''-'' @ itoa (n + 1)" and "T \<subseteq> insert rep S"
  shows "ids_ok T A (n + 1)"
  using ids_ok_end [of S A rep "[]" "n + 1" T] ids_ok_begin [OF assms(1,2)] assms(3,4) by simp

subsection \<open>What the operations do to the counter and to the reports\<close>

definition run_seq :: "'b bolt \<Rightarrow> 'b store \<Rightarrow> u64" where
  "run_seq B s = Counter B ''batch_run_seq'' s"

lemma Counter_cong: "bktCounters s' = bktCounters s \<Longrightarrow> Counter B n s' = Counter B n s"
  by (simp add: Counter_def)

lemma put_queue_bucket_counters [simp]: "bktCounters (put_queue_bucket q b s) = bktCounters s"
  by (simp add: put_queue_bucket_def)

lemma queue_ops_counters:
  "QueueEnqueue B q p now s = (i, e, s') \<Longrightarrow> bktCounters s' = bktCounters s"
  "QueueLease B q mx l now s = (out, e, s') \<Longrightarrow> bktCounters s' = bktCounters s"
  "QueueAck B q i s = (e, s') \<Longrightarrow> bktCounters s' = bktCounters s"
  "QueueNack B q i b now m s = (r, e, s') \<Longrightarrow> bktCounters s' = bktCounters s"
  by (auto simp: QueueEnqueue_def QueueLease_def QueueAck_def QueueNack_def db_Update_def Let_def
      split: prod.splits sum.splits option.splits if_splits)

lemma configure_run_seq:
  "configure B CC cronErr cmd p w s = (w', s') \<Longrightarrow> run_seq B s' = run_seq B s"
  using PutBlob_frame [of B batchJobsBlobKey _ s] unfolding run_seq_def configure_def
  by (auto simp: Let_def Counter_def split: sum.splits if_splits) (metis prod.collapse)+

lemma reload_run_seq:
  "batch_reload B CC cronErr w s = (w', s') \<Longrightarrow> run_seq B s' = run_seq B s"
  by (auto simp: batch_reload_def dest: configure_run_seq split: option.splits list.splits)

lemma skip_counter_other: "''batch_'' @ i @ ''_skipped'' \<noteq> ''batch_run_seq''"
proof
  assume "''batch_'' @ i @ ''_skipped'' = ''batch_run_seq''"
  then have "last (''batch_'' @ i @ ''_skipped'') = last ''batch_run_seq''" by (rule arg_cong)
  then show False by simp
qed

subsection \<open>A new report\<close>

text \<open>At most one report more in the queue, without or with a new number.\<close>

definition may_add :: "'b bolt \<Rightarrow> BatchReport codec \<Rightarrow> BatchReport \<Rightarrow> 'b store \<Rightarrow> 'b store \<Rightarrow> bool" where
  "may_add B RC rep s s' \<longleftrightarrow> run_seq B s' = run_seq B s
     \<and> queued RC (set (aq_items (reports B s'))) \<subseteq> insert rep (queued RC (set (aq_items (reports B s))))"

definition new_report :: "'b bolt \<Rightarrow> BatchReport codec \<Rightarrow> 'b store \<Rightarrow> 'b store \<Rightarrow> bool" where
  "new_report B RC s s' \<longleftrightarrow> (\<exists>rep st. RunId rep = ''run-'' @ st @ ''-'' @ itoa (run_seq B s + 1)
     \<and> run_seq B s' = run_seq B s + 1
     \<and> queued RC (set (aq_items (reports B s'))) \<subseteq> insert rep (queued RC (set (aq_items (reports B s)))))"

lemma new_report_cong_left:
  "run_seq B s1 = run_seq B s \<and> queue_view B s1 = queue_view B s \<Longrightarrow> new_report B RC s1 s' = new_report B RC s s'"
  by (simp add: new_report_def)

text \<open>The condition: increments of the run counter do not fail. Other writes may.\<close>

locale run_counter = bolt_bucket +
  assumes counted: "Incr B ''batch_run_seq'' s = (v, e, s') \<Longrightarrow> e = None"
begin

lemma newRunID_seq:
  assumes "newRunID B st s = (i, s')"
  shows "i = ''run-'' @ st @ ''-'' @ itoa (run_seq B s + 1) \<and> run_seq B s' = run_seq B s + 1"
proof -
  obtain v e s1 where n: "Incr B ''batch_run_seq'' s = (v, e, s1)" by (cases "Incr B ''batch_run_seq'' s") auto
  have "e = None" using counted [OF n] .
  then have "Counter B ''batch_run_seq'' s1 = v" using Counter_Incr n by simp
  then show ?thesis using newRunID_value [OF assms] Incr_value [OF n] n by (simp add: run_seq_def)
qed

lemma Incr_other_seq:
  assumes "n \<noteq> ''batch_run_seq''" and "Incr B n s = (v, e, s')"
  shows "run_seq B s' = run_seq B s"
proof (cases e)
  case None
  then show ?thesis using Counter_Incr [of n s v s' "''batch_run_seq''"] assms by (simp add: run_seq_def)
next
  case (Some x)
  then show ?thesis using Counter_Incr_fail assms(2) by (simp add: run_seq_def)
qed

lemma drain_one_seq:
  assumes "drain_one B RC ans it s = (oc, s')"
  shows "run_seq B s' = run_seq B s"
proof -
  obtain e s1 where a: "QueueAck B batchQueue (ID it) s = (e, s1)" by (cases "QueueAck B batchQueue (ID it) s")
  obtain v e' s2 where i: "Incr B ''batch_reports_sent'' s1 = (v, e', s2)"
    by (cases "Incr B ''batch_reports_sent'' s1") auto
  obtain r e'' s3 where n: "QueueNack B batchQueue (ID it) 15000 (snd (ans it)) 20 s = (r, e'', s3)"
    by (cases "QueueNack B batchQueue (ID it) 15000 (snd (ans it)) 20 s") auto
  have "run_seq B s1 = run_seq B s" "run_seq B s3 = run_seq B s"
    using queue_ops_counters(3) [OF a] queue_ops_counters(4) [OF n] by (simp_all add: run_seq_def Counter_def)
  moreover have "run_seq B s2 = run_seq B s1" by (rule Incr_other_seq [OF _ i]) simp
  moreover have "s' = s1 \<or> s' = s2 \<or> s' = s3"
    using assms a i n by (cases r) (auto simp: drain_one_def split: option.splits)
  ultimately show ?thesis by auto
qed

lemma WithID_adds:
  assumes "proto_codec RC" and "queues_ok B s" and "aq_seq (reports B s) \<noteq> - 1"
  shows "may_add B RC (report_of j rid res) s (enqueueReportWithID B RC now j rid res s)"
proof (cases "Marshal RC (report_of j rid res)")
  case (Inl e)
  then show ?thesis by (auto simp: enqueueReportWithID_def may_add_def)
next
  case (Inr raw)
  obtain n e s' where q: "QueueEnqueue B batchQueue (Some raw) now s = (n, e, s')"
    by (cases "QueueEnqueue B batchQueue (Some raw) now s") auto
  have u: "Unmarshal RC raw = Some (report_of j rid res)" by (rule proto_codec.Unmarshal_Marshal [OF assms(1) Inr])
  have "queued RC (set (aq_items (reports B s'))) \<subseteq> insert (report_of j rid res) (queued RC (set (aq_items (reports B s))))"
  proof (cases e)
    case None
    from QueueEnqueue_refines [OF assms(2,3) q [unfolded None]] show ?thesis
      by (auto simp: queued_def aq_enqueue_def payload_bytes_def u)
  next
    case (Some x)
    from QueueEnqueue_fail [OF assms(2) q [unfolded Some]] show ?thesis by auto
  qed
  moreover have "run_seq B s' = run_seq B s" using queue_ops_counters(1) [OF q] by (simp add: run_seq_def Counter_def)
  ultimately show ?thesis using q Inr by (simp add: enqueueReportWithID_def may_add_def)
qed

lemma report_adds:
  assumes "proto_codec RC" and "queues_ok B s" and "aq_seq (reports B s) \<noteq> - 1"
  shows "new_report B RC s (enqueueReport B RC stamp now j res s)"
proof -
  obtain rid s1 where n: "newRunID B stamp s = (rid, s1)" by (cases "newRunID B stamp s")
  note q = newRunID_queues [OF n]
  have "may_add B RC (report_of j rid res) s1 (enqueueReportWithID B RC now j rid res s1)"
    using WithID_adds [OF assms(1), of s1] q assms(2,3) by simp
  moreover have "RunId (report_of j rid res) = rid" by (simp add: report_of_def)
  ultimately show ?thesis
    using newRunID_seq [OF n] q n unfolding may_add_def new_report_def enqueueReport_def by fastforce
qed

lemma fire_skip_adds:
  assumes "proto_codec RC" and "queues_ok B s" and "aq_seq (reports B s) \<noteq> - 1"
  shows "new_report B RC s (fire_skip B RC F j s)"
proof -
  obtain v e s1 where n: "Incr B (''batch_'' @ Id j @ ''_skipped'') s = (v, e, s1)"
    by (cases "Incr B (''batch_'' @ Id j @ ''_skipped'') s") auto
  have "run_seq B s1 = run_seq B s" by (rule Incr_other_seq [OF skip_counter_other n])
  then show ?thesis
    using report_adds [OF assms(1), of s1] new_report_cong_left [of B s1 s] Incr_queues [OF n] assms(2,3) n
    by (simp add: fire_skip_def)
qed

lemma fire_finish_adds:
  assumes "proto_codec RC" and "queues_ok B s" and "aq_seq (reports B s) \<noteq> - 1"
  shows "new_report B RC s (fire_finish B RC F j rid s)
    \<or> (\<exists>rep. RunId rep = rid \<and> may_add B RC rep s (fire_finish B RC F j rid s))"
proof -
  have "RunId (report_of j rid res) = rid" for res by (simp add: report_of_def)
  then show ?thesis
    using report_adds [OF assms] WithID_adds [OF assms] unfolding fire_finish_def
    by (auto split: option.split sum.split) blast+
qed

end

subsection \<open>The invariant\<close>

definition ids_inv :: "'b bolt \<Rightarrow> BatchReport codec \<Rightarrow> 'b dsys \<Rightarrow> bool" where
  "ids_inv B RC s \<longleftrightarrow> ids_ok (in_flight B RC s) (map run_id (sys_active (d_sys s))) (run_seq B (sys_store (d_sys s)))"

lemma ids_inv_shrink:
  assumes "ids_inv B RC s" and "in_flight B RC t \<subseteq> in_flight B RC s"
    and "sys_active (d_sys t) = sys_active (d_sys s)" and "run_seq B (sys_store (d_sys t)) = run_seq B (sys_store (d_sys s))"
  shows "ids_inv B RC t"
  using ids_ok_shrink assms unfolding ids_inv_def by metis

context run_counter
begin

text \<open>A step that adds a report: a skipped firing, and the end of a run.\<close>

lemma in_flight_work:
  "in_flight B RC s = queued RC (set (aq_items (reports B (sys_store (d_sys s)))))
     \<union> (queued RC (set (sys_pending (d_sys s))) \<union> set (d_received s))"
  by (auto simp: in_flight_def queued_Un)

lemma skip_ids:
  assumes "ids_inv B RC s" and "run_seq B (sys_store (d_sys s)) \<noteq> - 1"
    and "new_report B RC (sys_store (d_sys s)) (sys_store t)"
    and "sys_active t = sys_active (d_sys s)" "sys_pending t = sys_pending (d_sys s)"
  shows "ids_inv B RC (s\<lparr>d_sys := t\<rparr>)
    \<and> run_seq B (sys_store t) = run_seq B (sys_store (d_sys s)) + 1"
proof -
  obtain rep st where r: "RunId rep = ''run-'' @ st @ ''-'' @ itoa (run_seq B (sys_store (d_sys s)) + 1)"
    "run_seq B (sys_store t) = run_seq B (sys_store (d_sys s)) + 1"
    "in_flight B RC (s\<lparr>d_sys := t\<rparr>) \<subseteq> insert rep (in_flight B RC s)"
    using assms(3,5) unfolding new_report_def in_flight_work by auto
  show ?thesis using ids_ok_new [OF assms(1) [unfolded ids_inv_def] assms(2) r(1,3)] r(2) assms(4)
    by (simp add: ids_inv_def)
qed

lemma end_ids:
  assumes "proto_codec RC" and "queues_ok B (sys_store (d_sys s))"
    and "aq_seq (reports B (sys_store (d_sys s))) \<noteq> - 1" and "run_seq B (sys_store (d_sys s)) \<noteq> - 1"
    and old: "ids_ok (in_flight B RC s) (map run_id pre @ run_id r # map run_id post) (run_seq B (sys_store (d_sys s)))"
    and t: "sys_store t = fire_finish B RC F (run_job r) (run_id r) (sys_store (d_sys s))" "sys_active t = pre @ post"
      "sys_pending t = sys_pending (d_sys s)"
  shows "ids_inv B RC (s\<lparr>d_sys := t\<rparr>)
    \<and> (run_seq B (sys_store t) = run_seq B (sys_store (d_sys s)) \<or> run_seq B (sys_store t) = run_seq B (sys_store (d_sys s)) + 1)"
  using fire_finish_adds [OF assms(1-3), of F "run_job r" "run_id r", folded t(1)]
proof (elim disjE exE conjE)
  assume "new_report B RC (sys_store (d_sys s)) (sys_store t)"
  then obtain rep st where r: "RunId rep = ''run-'' @ st @ ''-'' @ itoa (run_seq B (sys_store (d_sys s)) + 1)"
    "run_seq B (sys_store t) = run_seq B (sys_store (d_sys s)) + 1"
    "in_flight B RC (s\<lparr>d_sys := t\<rparr>) \<subseteq> insert rep (in_flight B RC s)"
    using t(3) unfolding new_report_def in_flight_work by auto
  show ?thesis using ids_ok_new [OF ids_ok_drop [OF old] assms(4) r(1,3)] r(2) t(2) by (simp add: ids_inv_def)
next
  fix rep
  assume r: "RunId rep = run_id r" "may_add B RC rep (sys_store (d_sys s)) (sys_store t)"
  then have "in_flight B RC (s\<lparr>d_sys := t\<rparr>) \<subseteq> insert rep (in_flight B RC s)" "run_seq B (sys_store t) = run_seq B (sys_store (d_sys s))"
    using t(3) unfolding may_add_def in_flight_work by auto
  then show ?thesis using ids_ok_end [OF old [folded r(1)]] t(2) by (simp add: ids_inv_def)
qed

lemma work_ids:
  assumes "proto_codec RC" and "ids_inv B RC s" and "queues_ok B (sys_store (d_sys s))"
    and "aq_seq (reports B (sys_store (d_sys s))) \<noteq> - 1" and "run_seq B (sys_store (d_sys s)) \<noteq> - 1"
    and "batch_step B CC RC cronErr (d_sys s) l t" and "is_work l"
  shows "ids_inv B RC (s\<lparr>d_sys := t\<rparr>)
    \<and> (run_seq B (sys_store t) = run_seq B (sys_store (d_sys s)) \<or> run_seq B (sys_store t) = run_seq B (sys_store (d_sys s)) + 1)"
  using assms(6)
proof cases
  case (Configure cmd w' st')
  then show ?thesis using configure_queues [OF Configure(3)] configure_run_seq [OF Configure(3)]
      ids_inv_shrink [OF assms(2), of "s\<lparr>d_sys := t\<rparr>"] by (simp add: in_flight_work)
next
  case (Skip j w' F)
  then show ?thesis using skip_ids [OF assms(2,5), of t] fire_skip_adds [OF assms(1,3,4), of F j] by simp
next
  case (Begin j a w' stamp rid st')
  note n = newRunID_seq [OF Begin(4)]
  have "in_flight B RC (s\<lparr>d_sys := t\<rparr>) = in_flight B RC s"
    using newRunID_queues [OF Begin(4)] Begin(2) by (simp add: in_flight_work)
  then show ?thesis
    using ids_ok_begin [OF assms(2) [unfolded ids_inv_def] assms(5) conjunct1 [OF n]] n Begin(2) by (simp add: ids_inv_def)
next
  case (End pre r post F)
  have "ids_ok (in_flight B RC s) (map run_id pre @ run_id r # map run_id post) (run_seq B (sys_store (d_sys s)))"
    using assms(2) End(3) by (simp add: ids_inv_def)
  then show ?thesis using End(2) by (intro end_ids [OF assms(1,3-5)]) simp_all
qed (use assms(7) in simp_all)

lemma settle_queued:
  assumes "queues_ok B s" and "drain_one B RC ans it s = (oc, s')"
  shows "queued RC (set (aq_items (reports B s'))) \<subseteq> queued RC (set (aq_items (reports B s)))"
proof (rule queued_mono)
  have n: "Payload ` set (aq_items (snd (aq_nack i b now m a))) \<subseteq> Payload ` set (aq_items a)" for i b now m a
    by (auto simp: aq_nack_def aq_ack_def split: option.split)
  show "Payload ` set (aq_items (reports B s')) \<subseteq> Payload ` set (aq_items (reports B s))"
    using drain_one_view [OF assms] n by (elim disjE) (auto simp: aq_ack_def)
qed

lemma lease_queued:
  assumes "queues_ok B s" and "QueueLease B batchQueue 5 batchLeaseMs now s = (items, err, s')"
  shows "queued RC (set (aq_items (reports B s'))) \<subseteq> queued RC (set (aq_items (reports B s)))
    \<and> (err = None \<longrightarrow> queued RC (set items) \<subseteq> queued RC (set (aq_items (reports B s))))"
proof (cases err)
  case (Some x)
  from QueueLease_fail [OF assms(1) assms(2) [unfolded Some]] show ?thesis using Some by simp
next
  case None
  from QueueLease_refines [OF assms(1) assms(2) [unfolded None]]
  have "Payload ` set (aq_items (reports B s')) \<subseteq> Payload ` set (aq_items (reports B s))"
    "Payload ` set items \<subseteq> Payload ` set (aq_items (reports B s))"
    using aq_select_due by (auto simp: aq_lease_def)
  then show ?thesis by (blast dest: queued_mono)
qed

lemma dstep_ids:
  assumes "proto_codec RC" and "dstep B CC RC cronErr s l t" and "ids_inv B RC s" and "sys_ok B (d_sys s)"
    and "aq_seq (reports B (sys_store (d_sys s))) \<noteq> - 1" and "run_seq B (sys_store (d_sys s)) \<noteq> - 1"
  shows "ids_inv B RC t \<and> (run_seq B (sys_store (d_sys t)) = run_seq B (sys_store (d_sys s))
    \<or> run_seq B (sys_store (d_sys t)) = run_seq B (sys_store (d_sys s)) + 1)"
proof -
  have q: "queues_ok B (sys_store (d_sys s))" using assms(4) by (simp add: sys_ok_def)
  note shrink = ids_inv_shrink [OF assms(3), of t]
  from assms(2) show ?thesis
  proof cases
    case (Clock now')
    then show ?thesis using shrink by (simp add: in_flight_def)
  next
    case (Work l' t')
    then show ?thesis using work_ids [OF assms(1,3) q assms(5,6) Work(3,4)] by simp
  next
    case (Lease items err st')
    have "run_seq B st' = run_seq B (sys_store (d_sys s))"
      using queue_ops_counters(2) [OF Lease(4)] by (simp add: run_seq_def Counter_def)
    moreover have "in_flight B RC t \<subseteq> in_flight B RC s"
      using lease_queued [OF q Lease(4), of RC] Lease(2)
      by (cases err) (auto simp: in_flight_def queued_Un queued_def)
    ultimately show ?thesis using shrink Lease(2) by simp
  next
    case (Push it its rep ans got)
    have "rep \<in> queued RC (set (sys_pending (d_sys s)))" using Push(3,5) by (auto simp: queued_def)
    then have "in_flight B RC t \<subseteq> in_flight B RC s" using Push(2) by (auto simp: in_flight_def queued_Un)
    then show ?thesis using shrink Push(2) by simp
  next
    case (Settle it its ans oc st')
    have "queued RC (set its) \<subseteq> queued RC (set (sys_pending (d_sys s)))" using Settle(3) by (auto simp: queued_def)
    then have "in_flight B RC t \<subseteq> in_flight B RC s"
      using settle_queued [OF q Settle(5)] Settle(2) by (auto simp: in_flight_def queued_Un)
    then show ?thesis using shrink drain_one_seq [OF Settle(5)] Settle(2) by simp
  next
    case (Crash w' st')
    have "in_flight B RC t \<subseteq> in_flight B RC s"
      using reload_queues [OF Crash(3)] Crash(2) by (auto simp: in_flight_def queued_Un)
    then show ?thesis using ids_ok_crash assms(3) reload_run_seq [OF Crash(3)] Crash(2) unfolding ids_inv_def by fastforce
  qed
qed

lemma drun_ids:
  assumes "drun B CC RC cronErr s ls t" and "proto_codec RC" and "ids_inv B RC s" and "sys_ok B (d_sys s)"
    and "unat (aq_seq (reports B (sys_store (d_sys s)))) + length ls < 2 ^ 64"
    and "unat (run_seq B (sys_store (d_sys s))) + length ls < 2 ^ 64"
  shows "ids_inv B RC t"
  using assms
proof (induction rule: steps.induct)
  case (Step s l s1 ls t)
  have ne: "aq_seq (reports B (sys_store (d_sys s))) \<noteq> - 1" "run_seq B (sys_store (d_sys s)) \<noteq> - 1"
    using Step.prems(4,5) max_word_64 by auto
  have ok: "sys_ok B (d_sys s1)"
    using dstep_simulated [OF Step.hyps(1)] sys_step [of CC RC cronErr "d_sys s" _ "d_sys s1", OF _ Step.prems(3) ne(1)] Step.prems(3)
    by (cases l) auto
  from dstep_ids [OF Step.prems(1) Step.hyps(1) Step.prems(2,3) ne]
  have "ids_inv B RC s1" "unat (run_seq B (sys_store (d_sys s1))) \<le> Suc (unat (run_seq B (sys_store (d_sys s))))"
    using word_succ_unat [OF ne(2)] by auto
  then show ?case using Step.IH [OF Step.prems(1) _ ok] dstep_seq [OF Step.hyps(1) Step.prems(3) ne(1)] Step.prems(4,5) by simp
qed simp

end

lemma run_counterI:
  "bolt_bucket B \<Longrightarrow> (\<And>s. fst (snd (Incr B ''batch_run_seq'' s)) = None) \<Longrightarrow> run_counter B"
  by (metis fst_conv snd_conv run_counter.intro run_counter_axioms.intro)

lemma healthy_counts: "fst (snd (Incr ref_bolt ''batch_run_seq'' s)) = None"
  using logh.Incr_total [of "''batch_run_seq''" s] by (metis list.discI prod.collapse)

interpretation logc: run_counter "log_bolt (\<lambda>_. None)"
  by (rule run_counterI [OF logb.bolt_bucket_axioms healthy_counts])

subsection \<open>Property\<close>



context bolt_bucket
begin

lemma configure_begin_reports:
  "batch_run B CC RC cronErr s [LConfigure cmd, LBegin j] t \<Longrightarrow>
   reports B (sys_store t) = reports B (sys_store s) \<and> queues_ok B (sys_store t) = queues_ok B (sys_store s)
   \<and> sys_pending t = sys_pending s"
  by (auto elim!: steps_ConsE steps_NilE
      batch_step.cases [of _ _ _ _ _ "LConfigure cmd"] batch_step.cases [of _ _ _ _ _ "LBegin j"]
      dest!: configure_queues newRunID_queues)

end




end
