(* ===== verification/SessionThreads.thy ===== *)
theory SessionThreads
  imports TunnelWorker Steps
begin

section \<open>The goroutines of a tunnel session\<close>

text \<open>
  \<open>session\<close> of internal/worker/tunnel.go with its three goroutines: the heartbeats, the polling of
  commands, and the caller, which waits for the end of the context or for the first error on the
  channel \<open>errCh\<close>. TunnelWorker.thy runs a session as one sequence of events; here the goroutines
  interleave in any order, and errors pass through the channel. The property at the end shows that no
  goroutine is left behind when the session is over.
\<close>

datatype hb_pc = HbSend | HbWait | HbFail gerror | HbDone

datatype poll_pc = PollOpen | PollRecv | PollFail gerror | PollDone

datatype main_pc = Select | Returned "gerror option"

definition errCh_cap :: nat where
  "errCh_cap = 2"

record 'b threads =
  t_hb :: hb_pc
  t_poll :: poll_pc
  t_main :: main_pc
  t_errCh :: "gerror list"
  t_ctx :: bool
  t_sess :: "'b sess"

definition threads_init :: "'b sess \<Rightarrow> 'b threads" where
  "threads_init st = \<lparr>t_hb = HbSend, t_poll = PollOpen, t_main = Select, t_errCh = [], t_ctx = False, t_sess = st\<rparr>"

text \<open>The context of the goroutines ends with the caller's context, and when the caller returns
  (\<open>defer cancel()\<close>).\<close>

definition sctx_done :: "'b threads \<Rightarrow> bool" where
  "sctx_done s \<longleftrightarrow> t_ctx s \<or> t_main s \<noteq> Select"

datatype tlabel = TCtx | TEvent sess_event | TInternal

text \<open>The heartbeat goroutine sends, then waits for its ticker or the end of the context; an error is put
  into the channel as its last action. The polling goroutine puts the result of \<open>Poll\<close> there.\<close>

inductive thread_step :: "'b bolt \<Rightarrow> Client \<Rightarrow> 'b threads \<Rightarrow> tlabel \<Rightarrow> 'b threads \<Rightarrow> bool"
  for B c where
  Ctx: "\<not> t_ctx s \<Longrightarrow> thread_step B c s TCtx (s\<lparr>t_ctx := True\<rparr>)"
| Beat: "t_hb s = HbSend \<Longrightarrow> sess_step B c (Tick i) (t_sess s) = (r, st) \<Longrightarrow>
    thread_step B c s (TEvent (Tick i))
      (s\<lparr>t_hb := (case r of Ended (Some e) \<Rightarrow> HbFail e | _ \<Rightarrow> HbWait), t_sess := st\<rparr>)"
| Ticker: "t_hb s = HbWait \<Longrightarrow> thread_step B c s TInternal (s\<lparr>t_hb := HbSend\<rparr>)"
| HbQuit: "t_hb s = HbWait \<Longrightarrow> sctx_done s \<Longrightarrow> thread_step B c s TInternal (s\<lparr>t_hb := HbDone\<rparr>)"
| HbReport: "t_hb s = HbFail e \<Longrightarrow> length (t_errCh s) < errCh_cap \<Longrightarrow>
    thread_step B c s TInternal (s\<lparr>t_hb := HbDone, t_errCh := t_errCh s @ [e]\<rparr>)"
| Open: "t_poll s = PollOpen \<Longrightarrow> thread_step B c s TInternal (s\<lparr>t_poll := PollRecv\<rparr>)"
| OpenErr: "t_poll s = PollOpen \<Longrightarrow> sess_step B c (PollOpenErr e) (t_sess s) = (Ended (Some e'), st) \<Longrightarrow>
    thread_step B c s (TEvent (PollOpenErr e)) (s\<lparr>t_poll := PollFail e', t_sess := st\<rparr>)"
| Receive: "t_poll s = PollRecv \<Longrightarrow> sess_step B c (Recv now res) (t_sess s) = (r, st) \<Longrightarrow>
    thread_step B c s (TEvent (Recv now res))
      (s\<lparr>t_poll := (case r of Ended (Some e) \<Rightarrow> PollFail e | _ \<Rightarrow> PollRecv), t_sess := st\<rparr>)"
| PollReport: "t_poll s = PollFail e \<Longrightarrow> length (t_errCh s) < errCh_cap \<Longrightarrow>
    thread_step B c s TInternal (s\<lparr>t_poll := PollDone, t_errCh := t_errCh s @ [e]\<rparr>)"
| MainCtx: "t_main s = Select \<Longrightarrow> t_ctx s \<Longrightarrow> thread_step B c s TInternal (s\<lparr>t_main := Returned None\<rparr>)"
| MainErr: "t_main s = Select \<Longrightarrow> t_errCh s = e # es \<Longrightarrow>
    thread_step B c s TInternal (s\<lparr>t_main := Returned (Some e), t_errCh := es\<rparr>)"

abbreviation thread_run :: "'b bolt \<Rightarrow> Client \<Rightarrow> 'b threads \<Rightarrow> tlabel list \<Rightarrow> 'b threads \<Rightarrow> bool" where
  "thread_run B c \<equiv> steps (thread_step B c)"

lemmas thread_run_Nil = steps.Nil [of "thread_step B c" for B c]
  and thread_run_Step = steps.Step [of "thread_step B c" for B c]

subsection \<open>The goroutines do what the sequential session does\<close>

fun events_of :: "tlabel list \<Rightarrow> sess_event list" where
  "events_of [] = []"
| "events_of (TEvent ev # ls) = ev # events_of ls"
| "events_of (l # ls) = events_of ls"

lemma events_of_append [simp]: "events_of (xs @ ys) = events_of xs @ events_of ys"
  by (induction xs rule: events_of.induct) simp_all

definition run_events :: "'b bolt \<Rightarrow> Client \<Rightarrow> sess_event list \<Rightarrow> 'b sess \<Rightarrow> 'b sess" where
  "run_events B c evs st = fold (\<lambda>ev st. snd (sess_step B c ev st)) evs st"

lemma run_events_simps [simp]:
  "run_events B c [] st = st"
  "run_events B c (xs @ ys) st = run_events B c ys (run_events B c xs st)"
  "run_events B c [ev] st = snd (sess_step B c ev st)"
  by (simp_all add: run_events_def)

text \<open>Event \<open>ev\<close> of the sequence failed with \<open>e\<close>.\<close>

definition failed_with :: "'b bolt \<Rightarrow> Client \<Rightarrow> sess_event list \<Rightarrow> 'b sess \<Rightarrow> gerror \<Rightarrow> bool" where
  "failed_with B c evs st e \<longleftrightarrow> (\<exists>xs ev ys. evs = xs @ ev # ys
     \<and> fst (sess_step B c ev (run_events B c xs st)) = Ended (Some e))"

lemma failed_with_more: "failed_with B c evs st e \<Longrightarrow> failed_with B c (evs @ zs) st e"
  unfolding failed_with_def by fastforce

lemma failed_with_last: "fst (sess_step B c ev (run_events B c evs st)) = Ended (Some e) \<Longrightarrow> failed_with B c (evs @ [ev]) st e"
  unfolding failed_with_def by blast

text \<open>As long as no event fails, a session is still running, in the same state.\<close>

lemma sess_loop_running:
  "(\<And>xs ev ys. evs = xs @ ev # ys \<Longrightarrow> fst (sess_step B c ev (run_events B c xs st)) = Running) \<Longrightarrow>
   sess_loop B c (evs @ zs) st = sess_loop B c zs (run_events B c evs st)"
proof (induction evs arbitrary: st)
  case (Cons ev evs)
  obtain st' where s: "sess_step B c ev st = (Running, st')"
    using Cons.prems [of "[]" ev evs] by (cases "sess_step B c ev st") simp
  have "fst (sess_step B c e (run_events B c xs st')) = Running" if "evs = xs @ e # ys" for xs e ys
    using Cons.prems [of "ev # xs" e ys] that s by (simp add: run_events_def)
  then show ?case using Cons.IH [of st'] s by (simp add: run_events_def)
qed simp

text \<open>The errors that are on their way to the caller, and the one it returned.\<close>

definition carried :: "'b threads \<Rightarrow> gerror set" where
  "carried s = set (t_errCh s) \<union> (case t_hb s of HbFail e \<Rightarrow> {e} | _ \<Rightarrow> {})
     \<union> (case t_poll s of PollFail e \<Rightarrow> {e} | _ \<Rightarrow> {}) \<union> (case t_main s of Returned (Some e) \<Rightarrow> {e} | _ \<Rightarrow> {})"

definition threads_inv :: "'b bolt \<Rightarrow> Client \<Rightarrow> tlabel list \<Rightarrow> 'b sess \<Rightarrow> 'b threads \<Rightarrow> bool" where
  "threads_inv B c ls st0 s \<longleftrightarrow> t_sess s = run_events B c (events_of ls) st0
     \<and> (\<forall>e\<in>carried s. failed_with B c (events_of ls) st0 e)
     \<and> (t_main s = Returned None \<longrightarrow> t_ctx s)
     \<and> length (t_errCh s) + (if t_hb s = HbDone then 0 else 1) + (if t_poll s = PollDone then 0 else 1) \<le> 2"

lemma thread_step_inv:
  "thread_step B c s l t \<Longrightarrow> threads_inv B c ls st0 s \<Longrightarrow> threads_inv B c (ls @ [l]) st0 t"
proof (induction rule: thread_step.induct)
  case (Beat s i r st)
  then have "run_events B c (events_of ls) st0 = t_sess s" by (simp add: threads_inv_def)
  then show ?case using Beat failed_with_last [of B c "Tick i" "events_of ls" st0]
    by (auto simp: threads_inv_def carried_def intro: failed_with_more split: sess_end.splits option.splits main_pc.splits)
next
  case (OpenErr s e e' st)
  then have "run_events B c (events_of ls) st0 = t_sess s" by (simp add: threads_inv_def)
  then show ?case using OpenErr failed_with_last [of B c "PollOpenErr e" "events_of ls" st0]
    by (auto simp: threads_inv_def carried_def intro: failed_with_more split: option.splits main_pc.splits)
next
  case (Receive s now res r st)
  then have "run_events B c (events_of ls) st0 = t_sess s" by (simp add: threads_inv_def)
  then show ?case using Receive failed_with_last [of B c "Recv now res" "events_of ls" st0]
    by (auto simp: threads_inv_def carried_def intro: failed_with_more split: sess_end.splits option.splits main_pc.splits)
qed (auto simp: threads_inv_def carried_def split: if_splits)

lemma thread_run_inv:
  assumes "thread_run B c (threads_init st0) ls t"
  shows "threads_inv B c ls st0 t"
  using assms
proof (induction rule: steps_snoc_induct)
  case Nil
  show ?case by (simp add: threads_inv_def threads_init_def carried_def)
qed (rule thread_step_inv)

lemma thread_run_no_ctx: "thread_run B c s ls t \<Longrightarrow> CtxDone \<notin> set (events_of ls)"
  by (induction rule: steps_snoc_induct) (auto elim: thread_step.cases)

subsection \<open>After the end of the context\<close>

text \<open>A call on a context that has ended fails, as gRPC documents.\<close>

definition heeds :: "'b bolt \<Rightarrow> Client \<Rightarrow> 'b threads \<Rightarrow> tlabel \<Rightarrow> bool" where
  "heeds B c s l \<longleftrightarrow> (case l of
     TEvent ev \<Rightarrow> sctx_done s \<longrightarrow> fst (sess_step B c ev (t_sess s)) \<noteq> Running | _ \<Rightarrow> True)"

definition heed_step :: "'b bolt \<Rightarrow> Client \<Rightarrow> 'b threads \<Rightarrow> tlabel \<Rightarrow> 'b threads \<Rightarrow> bool" where
  "heed_step B c s l t \<longleftrightarrow> thread_step B c s l t \<and> heeds B c s l"

abbreviation heed_run :: "'b bolt \<Rightarrow> Client \<Rightarrow> 'b threads \<Rightarrow> tlabel list \<Rightarrow> 'b threads \<Rightarrow> bool" where
  "heed_run B c \<equiv> steps (heed_step B c)"

lemmas heed_run_Nil = steps.Nil [of "heed_step B c" for B c]
  and heed_run_Step = steps.Step [of "heed_step B c" for B c]

lemma heed_run_thread_run: "heed_run B c s ls t \<Longrightarrow> thread_run B c s ls t"
  by (erule steps_mono) (simp add: heed_step_def)

text \<open>What a goroutine still has to do, at most.\<close>

fun hb_rank :: "hb_pc \<Rightarrow> nat" where
  "hb_rank HbWait = 3" | "hb_rank HbSend = 2" | "hb_rank (HbFail e) = 1" | "hb_rank HbDone = 0"

fun poll_rank :: "poll_pc \<Rightarrow> nat" where
  "poll_rank PollOpen = 3" | "poll_rank PollRecv = 2" | "poll_rank (PollFail e) = 1" | "poll_rank PollDone = 0"

definition rank :: "'b threads \<Rightarrow> nat" where
  "rank s = hb_rank (t_hb s) + poll_rank (t_poll s) + (if t_main s = Select then 1 else 0) + (if t_ctx s then 0 else 1)"

lemma rank_bound: "sctx_done s \<Longrightarrow> rank s \<le> 7"
  by (cases "t_hb s"; cases "t_poll s") (auto simp: rank_def sctx_done_def)

lemma failed_event:
  "sess_step B c ev st = (r, st') \<Longrightarrow> r \<noteq> Running \<Longrightarrow> ev \<noteq> CtxDone \<Longrightarrow> \<exists>e. r = Ended (Some e)"
  by (auto simp: sess_step_def split: sess_event.splits prod.splits option.splits sum.splits)

lemma heed_step_rank:
  "thread_step B c s l t \<Longrightarrow> sctx_done s \<Longrightarrow> heeds B c s l \<Longrightarrow> rank t < rank s \<and> sctx_done t"
proof (induction rule: thread_step.induct)
  case (Beat s i r st)
  then show ?case using failed_event [OF Beat(2)] by (auto simp: heeds_def rank_def sctx_done_def)
next
  case (Receive s now res r st)
  then show ?case using failed_event [OF Receive(2)] by (auto simp: heeds_def rank_def sctx_done_def)
qed (auto simp: rank_def sctx_done_def)

lemma failing_beat: "\<exists>i e st'. sess_step B c (Tick i) st = (Ended (Some e), st')"
proof -
  let ?i = "demo_input\<lparr>in_rpc := \<lambda>_ _. Inl (ErrText ''context canceled'')\<rparr>"
  obtain req err h s where h: "hb_send B c ?i (s_hb st) (ag_store (s_agent st)) = (req, err, h, s)"
    by (cases "hb_send B c ?i (s_hb st) (ag_store (s_agent st))") auto
  then have "err \<noteq> None" using hb_send_cases [OF h] by simp
  then show ?thesis using h by (intro exI [of _ ?i]) (auto simp: sess_step_def)
qed

text \<open>A session whose context has ended can go on until all goroutines have.\<close>

lemma heed_progress:
  assumes inv: "threads_inv B c ls st0 s" and "sctx_done s"
    and run: "t_hb s \<noteq> HbDone \<or> t_poll s \<noteq> PollDone \<or> t_main s = Select"
  shows "\<exists>l t. thread_step B c s l t \<and> heeds B c s l"
proof -
  have int: "heeds B c s TInternal" by (simp add: heeds_def)
  have room: "length (t_errCh s) < errCh_cap" if "t_hb s \<noteq> HbDone \<or> t_poll s \<noteq> PollDone"
    using inv that by (auto simp: threads_inv_def errCh_cap_def split: if_splits)
  consider "t_hb s = HbSend" | "t_hb s = HbWait" | e where "t_hb s = HbFail e"
    | "t_poll s = PollOpen" | "t_poll s = PollRecv" | e where "t_poll s = PollFail e" | "t_main s = Select"
    using run by (cases "t_hb s"; cases "t_poll s") auto
  then show ?thesis
  proof cases
    case 1
    obtain i e st' where f: "sess_step B c (Tick i) (t_sess s) = (Ended (Some e), st')" using failing_beat by blast
    then show ?thesis using thread_step.Beat [OF 1 f] by (intro exI) (auto simp: heeds_def)
  next
    case 5
    have "sess_step B c (Recv 0 (Inl (ErrText []))) (t_sess s) = (Ended (Some (poll_recv_error (ErrText []))), t_sess s)"
      by (simp add: sess_step_def)
    from thread_step.Receive [OF 5 this] this show ?thesis by (intro exI) (auto simp: heeds_def)
  next
    case 7
    then have "t_ctx s" using assms(2) by (simp add: sctx_done_def)
    then show ?thesis using thread_step.MainCtx [OF 7] int by blast
  next
    case 2
    then show ?thesis using thread_step.HbQuit [OF 2 assms(2)] int by blast
  next
    case (3 e)
    then show ?thesis using thread_step.HbReport [OF 3 room] int by auto
  next
    case 4
    then show ?thesis using thread_step.Open [OF 4] int by blast
  next
    case (6 e)
    then show ?thesis using thread_step.PollReport [OF 6 room] int by auto
  qed
qed

text \<open>A session whose context has ended drains.\<close>

definition session_over :: "'b bolt \<Rightarrow> Client \<Rightarrow> 'b threads \<Rightarrow> bool" where
  "session_over B c s \<longleftrightarrow> sctx_done s \<and> (\<exists>ls st0. threads_inv B c ls st0 s)"

definition all_ended :: "'b threads \<Rightarrow> bool" where
  "all_ended s \<longleftrightarrow> t_hb s = HbDone \<and> t_poll s = PollDone \<and> t_main s \<noteq> Select"

interpretation over: draining "heed_step B c" "session_over B c" rank all_ended for B c
proof
  fix s t :: "'a threads" and l
  assume s: "heed_step B c s l t" "session_over B c s"
  then show "session_over B c t"
    using heed_step_rank [of B c s l t] thread_step_inv [of B c s l t] unfolding session_over_def heed_step_def by blast
  show "rank t < rank s"
    using s heed_step_rank [of B c s l t] unfolding session_over_def heed_step_def by blast
next
  fix s :: "'a threads"
  assume "session_over B c s" "\<not> all_ended s"
  then show "\<exists>l t. heed_step B c s l t"
    using heed_progress [of B c _ _ s] unfolding session_over_def all_ended_def heed_step_def by blast
qed

subsection \<open>Properties\<close>

text \<open>C16: The goroutines of a session together do what the sequential session does. In any interleaving,
  the heartbeats and commands take effect one after the other in the order they happen; the caller returns an
  error only if a heartbeat or the polling failed with it, and nothing only if its context has ended;
  and until the first failure the sequential session is in the same state and still running.\<close>

theorem session_threads_sequential:
  assumes "thread_run B c (threads_init st0) ls t"
  shows "t_sess t = run_events B c (events_of ls) st0
    \<and> (\<forall>e. t_main t = Returned (Some e) \<longrightarrow> failed_with B c (events_of ls) st0 e)
    \<and> (t_main t = Returned None \<longrightarrow> t_ctx t)
    \<and> (\<not> (\<exists>e. failed_with B c (events_of ls) st0 e) \<longrightarrow> sess_loop B c (events_of ls) st0 = (Running, t_sess t))"
proof -
  have inv: "threads_inv B c ls st0 t" by (rule thread_run_inv [OF assms])
  have noctx: "CtxDone \<notin> set (events_of ls)" using assms by (rule thread_run_no_ctx)
  have "sess_loop B c (events_of ls) st0 = (Running, t_sess t)" if ok: "\<not> (\<exists>e. failed_with B c (events_of ls) st0 e)"
  proof -
    have "fst (sess_step B c ev (run_events B c xs st0)) = Running" if split: "events_of ls = xs @ ev # ys" for xs ev ys
    proof (rule ccontr)
      assume h: "fst (sess_step B c ev (run_events B c xs st0)) \<noteq> Running"
      have "ev \<noteq> CtxDone" using noctx split by auto
      then obtain e where "fst (sess_step B c ev (run_events B c xs st0)) = Ended (Some e)"
        using failed_event [OF prod.collapse [symmetric] h] by blast
      then show False using ok split by (auto simp: failed_with_def)
    qed
    then show ?thesis using sess_loop_running [of "events_of ls" B c st0 "[]"] inv by (simp add: threads_inv_def)
  qed
  then show ?thesis using inv by (auto simp: threads_inv_def carried_def)
qed

text \<open>C13: No goroutine of a session is left behind. Once the session's context has ended, because its caller
  returned or was asked to stop, and calls on the ended context fail, at most seven more steps
  are possible, and when no more is, both goroutines have ended and the caller has
  returned: no goroutine blocks on the error channel, whichever errors come in which order.\<close>

theorem session_goroutines_end:
  assumes "thread_run B c (threads_init st0) ls s" and "sctx_done s" and "heed_run B c s ls' t"
  shows "length ls' \<le> 7
    \<and> ((\<forall>l u. \<not> (thread_step B c t l u \<and> heeds B c t l)) \<longrightarrow>
        t_hb t = HbDone \<and> t_poll t = PollDone \<and> t_main t \<noteq> Select)"
proof -
  have s: "session_over B c s"
    using thread_run_inv [OF assms(1)] assms(2) unfolding session_over_def by blast
  then show ?thesis
    using over.bounded [OF assms(3) s] over.maximal_final [OF assms(3) s] rank_bound [OF assms(2)]
    by (auto simp: all_ended_def heed_step_def)
qed

text \<open>A session whose polling cannot be opened; its first heartbeat fails too, when the caller has returned.\<close>

definition demo_sess :: "log_bucket sess" where
  "demo_sess = \<lparr>s_hb = \<lparr>curMs = 30000, seq = 0, prevCPU = fst (readCPUSample None), prevOK = False,
     tick_period = ms_duration 30000\<rparr>, s_agent = demo_agent, s_sent = []\<rparr>"

definition demo_failed :: "log_bucket threads" where
  "demo_failed = \<lparr>t_hb = HbSend, t_poll = PollDone,
     t_main = Returned (Some (Wrapped ''open pollcommand'' (ErrText ''refused''))), t_errCh = [], t_ctx = False,
     t_sess = demo_sess\<rparr>"

lemma demo_threads:
  "thread_run B c (threads_init demo_sess) [TEvent (PollOpenErr (ErrText ''refused'')), TInternal, TInternal] demo_failed"
proof -
  let ?e = "Wrapped ''open pollcommand'' (ErrText ''refused'')"
  let ?s1 = "(threads_init demo_sess)\<lparr>t_poll := PollFail ?e\<rparr>"
  let ?s2 = "?s1\<lparr>t_poll := PollDone, t_errCh := [?e]\<rparr>"
  have "thread_step B c (threads_init demo_sess) (TEvent (PollOpenErr (ErrText ''refused''))) ?s1"
    using thread_step.OpenErr [of "threads_init demo_sess" B c "ErrText ''refused''" ?e demo_sess]
    by (simp add: threads_init_def sess_step_def)
  moreover have "thread_step B c ?s1 TInternal ?s2"
    using thread_step.PollReport [of ?s1 ?e B c] by (simp add: threads_init_def errCh_cap_def)
  moreover have "thread_step B c ?s2 TInternal demo_failed"
    using thread_step.MainErr [of ?s2 ?e "[]" B c] by (simp add: threads_init_def demo_failed_def)
  ultimately show ?thesis
    using thread_run_Step [OF _ thread_run_Step [OF _ thread_run_Step [OF _ thread_run_Nil]]] by fastforce
qed

theorem session_threads_sequential_witness:
  "\<exists>t. thread_run ref_bolt demo_client (threads_init demo_sess) [TEvent (PollOpenErr (ErrText ''refused'')), TInternal, TInternal] t
     \<and> t_main t \<noteq> Select
     \<and> failed_with ref_bolt demo_client [PollOpenErr (ErrText ''refused'')] demo_sess (Wrapped ''open pollcommand'' (ErrText ''refused''))"
  using session_threads_sequential [OF demo_threads [of ref_bolt demo_client]] demo_threads [of ref_bolt demo_client]
  by (intro exI [of _ demo_failed]) (simp add: demo_failed_def)

theorem session_goroutines_end_witness:
  "\<exists>t ls. thread_run ref_bolt demo_client (threads_init demo_sess)
       ([TEvent (PollOpenErr (ErrText ''refused'')), TInternal, TInternal] @ ls) t
     \<and> length ls \<le> 7 \<and> t_hb t = HbDone \<and> t_poll t = PollDone"
proof -
  obtain i e st where b: "sess_step ref_bolt demo_client (Tick i) demo_sess = (Ended (Some e), st)"
    using failing_beat by blast
  let ?s1 = "demo_failed\<lparr>t_hb := HbFail e, t_sess := st\<rparr>" and ?s2 = "demo_failed\<lparr>t_hb := HbDone, t_errCh := [e], t_sess := st\<rparr>"
  let ?t = "?s2\<lparr>t_ctx := True\<rparr>"
  have 1: "thread_step ref_bolt demo_client demo_failed (TEvent (Tick i)) ?s1" "heeds ref_bolt demo_client demo_failed (TEvent (Tick i))"
    using thread_step.Beat [of demo_failed ref_bolt demo_client i "Ended (Some e)" st] b
    by (simp_all add: demo_failed_def heeds_def)
  have 2: "thread_step ref_bolt demo_client ?s1 TInternal ?s2"
    using thread_step.HbReport [of ?s1 e] by (simp add: demo_failed_def errCh_cap_def)
  have 3: "thread_step ref_bolt demo_client ?s2 TCtx ?t"
    using thread_step.Ctx [of ?s2] by (simp add: demo_failed_def)
  have h: "heeds ref_bolt demo_client x TInternal" "heeds ref_bolt demo_client x TCtx" for x by (simp_all add: heeds_def)
  have r: "heed_run ref_bolt demo_client demo_failed [TEvent (Tick i), TInternal, TCtx] ?t"
    by (rule heed_run_Step [OF _ heed_run_Step [OF _ heed_run_Step [OF _ heed_run_Nil]]])
      (use 1 2 3 h in \<open>simp_all only: heed_step_def simp_thms\<close>)
  have stuck: "\<not> (thread_step ref_bolt demo_client ?t l u \<and> heeds ref_bolt demo_client ?t l)" for l u
    by (auto elim!: thread_step.cases simp: demo_failed_def)
  have "sctx_done demo_failed" by (simp add: sctx_done_def demo_failed_def)
  from session_goroutines_end [OF demo_threads this r] stuck steps_append [OF demo_threads heed_run_thread_run [OF r]]
  show ?thesis by blast
qed

end
