(* ===== verification/WorkerLoops.thy ===== *)
theory WorkerLoops
  imports Proxy
begin

section \<open>The main loops of the batch and proxy workers\<close>

text \<open>
  \<open>Run\<close> of batch.go and of proxy.go: one iteration of the \<open>select\<close> per event, until the context ends. The
  properties follow commands from the parent through the bus into these loops, as long as the channels have
  room for them: the batch worker ends up with the last configuration the parent pushed, and if the store
  took it also after a restart, and the proxy worker starts a handler for every egress command.
\<close>

subsection \<open>The loop of batch.go\<close>

datatype batch_event = BatchCtx | BatchMsg bus_msg

text \<open>At the end of the context the cron is stopped: its entries fire no more.\<close>

definition batch_stop :: "batch_worker \<Rightarrow> batch_worker" where
  "batch_stop w = (case w_cron w of None \<Rightarrow> w | Some es \<Rightarrow> w\<lparr>w_cron := Some []\<rparr>)"

fun batch_loop :: "'b bolt \<Rightarrow> ConfigureBatchCommand codec \<Rightarrow> (bytes \<Rightarrow> gerror option) \<Rightarrow> batch_event list \<Rightarrow>
    batch_worker \<Rightarrow> 'b store \<Rightarrow> bool \<times> batch_worker \<times> 'b store" where
  "batch_loop B CC cronErr [] w s = (False, w, s)"
| "batch_loop B CC cronErr (BatchCtx # evs) w s = (True, batch_stop w, s)"
| "batch_loop B CC cronErr (BatchMsg m # evs) w s =
     (case batch_take B CC cronErr m w s of (w, s) \<Rightarrow> batch_loop B CC cronErr evs w s)"

text \<open>\<open>Run\<close>: the persisted configuration first; the drain goroutine it starts is the one of
  BatchSystem.thy. The result tells whether it has returned.\<close>

definition batch_Run :: "'b bolt \<Rightarrow> ConfigureBatchCommand codec \<Rightarrow> (bytes \<Rightarrow> gerror option) \<Rightarrow> batch_event list \<Rightarrow>
    batch_worker \<Rightarrow> 'b store \<Rightarrow> bool \<times> batch_worker \<times> 'b store" where
  "batch_Run B CC cronErr evs w s = (case batch_reload B CC cronErr w s of
     (w, s) \<Rightarrow> batch_loop B CC cronErr evs w s)"

subsection \<open>The loop of proxy.go\<close>

datatype proxy_event = ProxyCtx | ProxyMsg bus_msg | ProxyRotate bus_msg

text \<open>The handlers started, in order; whether the loop has returned.\<close>

fun proxy_Run :: "proxy_event list \<Rightarrow> proxy_job list \<times> bool" where
  "proxy_Run [] = ([], False)"
| "proxy_Run (ProxyCtx # evs) = ([], True)"
| "proxy_Run (ProxyMsg m # evs) = (case proxy_Run evs of (js, fin) \<Rightarrow>
     ((case proxy_take m of Skip \<Rightarrow> [] | j \<Rightarrow> [j]) @ js, fin))"
| "proxy_Run (ProxyRotate m # evs) = (case proxy_Run evs of (js, fin) \<Rightarrow>
     ((case proxy_take_rotate m of Skip \<Rightarrow> [] | j \<Rightarrow> [j]) @ js, fin))"

subsection \<open>The last configuration\<close>

definition job_table :: "ConfigureBatchCommand \<Rightarrow> bytes \<rightharpoonup> JobSpec" where
  "job_table cb = map_of (rev (map (\<lambda>j. (Id j, j)) (Jobs cb)))"

definition cron_table :: "(bytes \<Rightarrow> gerror option) \<Rightarrow> ConfigureBatchCommand \<Rightarrow> (bytes \<times> JobSpec) list" where
  "cron_table cronErr cb = map (\<lambda>j. (cron_spec j, j)) (filter (armed cronErr) (Jobs cb))"

lemma configure_tables:
  "configure B CC cronErr cmd p w s = (w', s') \<Longrightarrow>
   w_jobs w' = job_table cmd \<and> cron_entries w' = cron_table cronErr cmd"
  by (drule configure_entries) (simp add: job_table_def cron_table_def)

context bolt_healthy
begin

lemma PutBlob_total: "k \<noteq> [] \<Longrightarrow> PutBlob B k v s = (e, s') \<Longrightarrow> e = None"
  using Put_ok [of k] Create_ok [of "''blobs''"] Commit_ok
  by (auto simp: PutBlob_def db_Update_def CreateBucketIfNotExists_def split: prod.splits sum.splits option.splits)

lemma configure_blob:
  assumes "Marshal CC cb = Inr raw" and "configure B CC cronErr cb True w s = (w', s')"
  shows "GetBlob B batchJobsBlobKey s' = copy_bytes raw"
proof -
  obtain e s1 where p: "PutBlob B batchJobsBlobKey raw s = (e, s1)" by (cases "PutBlob B batchJobsBlobKey raw s")
  then have "PutBlob B batchJobsBlobKey raw s = (None, s1)"
    using PutBlob_total [OF _ p] by (simp add: batchJobsBlobKey_def)
  moreover have "s' = s1" using assms p by (auto simp: configure_def)
  ultimately show ?thesis using GetBlob_PutBlob [of batchJobsBlobKey raw s s1 batchJobsBlobKey] by simp
qed

lemma batch_loop_blob:
  assumes "Marshal CC (last cbs) = Inr raw" and "cbs \<noteq> []"
    and "batch_loop B CC cronErr (map (\<lambda>cb. BatchMsg (MsgConfigureBatch cb)) cbs) w s = (fin, w', s')"
  shows "GetBlob B batchJobsBlobKey s' = copy_bytes raw"
  using assms
proof (induction cbs arbitrary: w s)
  case (Cons cb cbs)
  obtain w1 s1 where c: "configure B CC cronErr cb True w s = (w1, s1)" by (cases "configure B CC cronErr cb True w s")
  then have l: "batch_loop B CC cronErr (map (\<lambda>cb. BatchMsg (MsgConfigureBatch cb)) cbs) w1 s1 = (fin, w', s')"
    using Cons.prems(3) by (simp add: batch_take_def)
  show ?case
    using Cons.IH [OF _ _ l] Cons.prems(1) l configure_blob [OF _ c] by (cases "cbs = []") simp_all
qed simp

end

text \<open>The running worker, whatever the store does.\<close>

lemma batch_loop_last:
  assumes "cbs \<noteq> []" and "batch_loop B CC cronErr (map (\<lambda>cb. BatchMsg (MsgConfigureBatch cb)) cbs) w s = (fin, w', s')"
  shows "w_jobs w' = job_table (last cbs) \<and> cron_entries w' = cron_table cronErr (last cbs)"
  using assms
proof (induction cbs arbitrary: w s)
  case (Cons cb cbs)
  obtain w1 s1 where c: "configure B CC cronErr cb True w s = (w1, s1)" by (cases "configure B CC cronErr cb True w s")
  then have l: "batch_loop B CC cronErr (map (\<lambda>cb. BatchMsg (MsgConfigureBatch cb)) cbs) w1 s1 = (fin, w', s')"
    using Cons.prems(2) by (simp add: batch_take_def)
  show ?case using Cons.IH [OF _ l] l configure_tables [OF c] by (cases "cbs = []") simp_all
qed simp

lemma batch_Run_loop:
  "batch_Run B CC cronErr evs w s = (case batch_reload B CC cronErr w s of (w0, s0) \<Rightarrow> batch_loop B CC cronErr evs w0 s0)"
  by (simp add: batch_Run_def)

lemma batch_Run_restart:
  assumes "bolt_healthy B" "proto_codec CC" "Unmarshal CC [] = Some \<lparr>Jobs = []\<rparr>"
    and "Marshal CC (last cbs) = Inr raw" and "cbs \<noteq> []"
    and "batch_Run B CC cronErr (map (\<lambda>cb. BatchMsg (MsgConfigureBatch cb)) cbs) w s = (fin, w', s')"
    and "batch_Run B CC cronErr [] batch_Init s' = (fin2, w2, s2)"
  shows "w_jobs w2 = job_table (last cbs) \<and> cron_entries w2 = cron_table cronErr (last cbs)"
proof -
  obtain w0 s0 where "batch_loop B CC cronErr (map (\<lambda>cb. BatchMsg (MsgConfigureBatch cb)) cbs) w0 s0 = (fin, w', s')"
    using assms(6) by (auto simp: batch_Run_loop split: prod.splits)
  note b = bolt_healthy.batch_loop_blob [OF assms(1,4,5) this]
  have "batch_reload B CC cronErr batch_Init s' = (w2, s2)" using assms(7) by (simp add: batch_Run_loop split: prod.splits)
  from reload_blob [OF b proto_codec.Unmarshal_Marshal [OF assms(2,4)] assms(3) this]
  show ?thesis by (simp add: job_table_def cron_table_def)
qed

subsection \<open>From the parent through the bus\<close>

definition configs_pushed :: "bus_use list \<Rightarrow> ConfigureBatchCommand list" where
  "configs_pushed us = concat (map (\<lambda>u. case u of
     Handle now cmd \<Rightarrow> (case cmd_Payload cmd of Some (Command_ConfigureBatch cb) \<Rightarrow> [cb] | _ \<Rightarrow> []) | _ \<Rightarrow> []) us)"

definition egress_pushed :: "bus_use list \<Rightarrow> EgressOpenCommand list" where
  "egress_pushed us = concat (map (\<lambda>u. case u of
     Handle now cmd \<Rightarrow> (case cmd_Payload cmd of Some (Command_EgressOpen ec) \<Rightarrow> [ec] | _ \<Rightarrow> []) | _ \<Rightarrow> []) us)"

lemmas topic_defs = TopicEgress_def TopicRotate_def TopicSmtp_def TopicBatch_def

lemma commands_for_batch: "commands_for TopicBatch us = map MsgConfigureBatch (configs_pushed us)"
  unfolding commands_for_def configs_pushed_def map_concat map_map
  by (rule arg_cong [where f = concat], rule map_cong)
     (auto simp: msg_of_def topic_defs split: bus_use.split option.split isCommand_Payload.split)

lemma commands_for_egress: "commands_for TopicEgress us = map MsgEgressOpen (egress_pushed us)"
  unfolding commands_for_def egress_pushed_def map_concat map_map
  by (rule arg_cong [where f = concat], rule map_cong)
     (auto simp: msg_of_def topic_defs split: bus_use.split option.split isCommand_Payload.split)

definition is_handler :: "proxy_job \<Rightarrow> bool" where
  "is_handler j = (case j of HandleEgress cmd \<Rightarrow> True | _ \<Rightarrow> False)"

text \<open>What the loop does before the end of the context.\<close>

abbreviation served :: "proxy_event list \<Rightarrow> proxy_event list" where
  "served evs \<equiv> takeWhile (\<lambda>ev. ev \<noteq> ProxyCtx) evs"

lemma proxy_Run_handlers:
  "filter is_handler (fst (proxy_Run evs)) = concat (map (\<lambda>ev. case ev of
      ProxyMsg m \<Rightarrow> (case as_EgressOpen m of Some cmd \<Rightarrow> [HandleEgress cmd] | None \<Rightarrow> []) | _ \<Rightarrow> []) (served evs))"
proof (induction evs rule: proxy_Run.induct)
  case (3 m evs)
  then show ?case by (auto simp: proxy_take_def is_handler_def split: prod.split option.split)
next
  case (4 m evs)
  then show ?case by (auto simp: proxy_take_rotate_def is_handler_def split: prod.split option.split)
qed simp_all

text \<open>The messages a loop takes from the subscription to egress commands.\<close>

definition egress_msgs :: "proxy_event list \<Rightarrow> bus_msg list" where
  "egress_msgs evs = concat (map (\<lambda>ev. case ev of ProxyMsg m \<Rightarrow> [m] | _ \<Rightarrow> []) evs)"

lemma proxy_Run_egress:
  assumes "egress_msgs (served evs) = map MsgEgressOpen cmds"
  shows "filter is_handler (fst (proxy_Run evs)) = map HandleEgress cmds"
proof -
  have "filter is_handler (fst (proxy_Run evs)) =
      concat (map (\<lambda>m. case as_EgressOpen m of Some cmd \<Rightarrow> [HandleEgress cmd] | None \<Rightarrow> []) (egress_msgs (served evs)))"
    unfolding proxy_Run_handlers egress_msgs_def
    by (induction evs) (auto split: proxy_event.split)
  also have "\<dots> = map HandleEgress cmds" unfolding assms by (induction cmds) simp_all
  finally show ?thesis .
qed

text \<open>A worker took the first commands of its topic, and all of them once it has caught up.\<close>

lemma taken_first:
  assumes "bus_ok (ag_bus a)" "Subscribe t (ag_bus a) = (ch, b)" and "room B t ch us (a\<lparr>ag_bus := b\<rparr>)"
  shows "taken B ch us (a\<lparr>ag_bus := b\<rparr>) = take (length (taken B ch us (a\<lparr>ag_bus := b\<rparr>))) (commands_for t us)"
    and "chans (ag_bus (fold (bus_use_step B) us (a\<lparr>ag_bus := b\<rparr>))) ch = [] \<Longrightarrow> taken B ch us (a\<lparr>ag_bus := b\<rparr>) = commands_for t us"
  using commands_with_room [OF assms] by (metis append_eq_conv_conj, simp)

subsection \<open>Properties\<close>

text \<open>C18: The batch worker follows the last configuration. As long as never more than 128 configurations
  wait (the bus drops any beyond), whatever commands the parent pushes, whatever other workers do with the
  bus and whichever writes of the store fail: a batch worker that has taken all its messages has
  the jobs and the cron entries of the last configuration pushed. If this configuration can be encoded and
  the store's writes do not fail, the worker of a restarted agent that hears nothing from the parent has
  them too.\<close>

theorem batch_follows_last_configuration:
  assumes "bus_ok (ag_bus a)" "Subscribe TopicBatch (ag_bus a) = (ch, b)"
    and "room B TopicBatch ch us (a\<lparr>ag_bus := b\<rparr>)"
    and "chans (ag_bus (fold (bus_use_step B) us (a\<lparr>ag_bus := b\<rparr>))) ch = []" "configs_pushed us \<noteq> []"
    and "batch_Run B CC cronErr (map BatchMsg (taken B ch us (a\<lparr>ag_bus := b\<rparr>))) w s = (fin, w', s')"
    and "batch_Run B CC cronErr [] batch_Init s' = (fin2, w2, s2)"
  shows "w_jobs w' = job_table (last (configs_pushed us)) \<and> cron_entries w' = cron_table cronErr (last (configs_pushed us))
    \<and> (bolt_healthy B \<and> proto_codec CC \<and> Unmarshal CC [] = Some \<lparr>Jobs = []\<rparr>
         \<and> (\<exists>raw. Marshal CC (last (configs_pushed us)) = Inr raw) \<longrightarrow>
       w_jobs w2 = job_table (last (configs_pushed us)) \<and> cron_entries w2 = cron_table cronErr (last (configs_pushed us)))"
proof -
  have "map BatchMsg (taken B ch us (a\<lparr>ag_bus := b\<rparr>)) = map (\<lambda>cb. BatchMsg (MsgConfigureBatch cb)) (configs_pushed us)"
    using taken_first(2) [OF assms(1-4)] by (simp add: commands_for_batch)
  note r = assms(6) [unfolded this]
  then obtain w0 s0 where "batch_loop B CC cronErr (map (\<lambda>cb. BatchMsg (MsgConfigureBatch cb)) (configs_pushed us)) w0 s0 = (fin, w', s')"
    by (auto simp: batch_Run_loop split: prod.splits)
  from batch_loop_last [OF assms(5) this] batch_Run_restart [OF _ _ _ _ assms(5) r assms(7)] show ?thesis by blast
qed

text \<open>C19: The proxy worker starts a handler for every egress command it takes, until the end of its context:
  as long as never more than 128 egress commands wait (the bus drops any beyond), the handlers it starts
  are those of the first commands the parent pushed, as many as it took, in their order and
  with nothing changed, whatever rotation requests and other messages come between; once none
  waits, those of all of them.\<close>

theorem proxy_starts_handlers:
  assumes "bus_ok (ag_bus a)" "Subscribe TopicEgress (ag_bus a) = (ch, b)"
    and "room B TopicEgress ch us (a\<lparr>ag_bus := b\<rparr>)"
    and "egress_msgs (served evs) = taken B ch us (a\<lparr>ag_bus := b\<rparr>)"
  shows "filter is_handler (fst (proxy_Run evs)) =
      map HandleEgress (take (length (egress_msgs (served evs))) (egress_pushed us))
    \<and> (chans (ag_bus (fold (bus_use_step B) us (a\<lparr>ag_bus := b\<rparr>))) ch = [] \<longrightarrow>
       filter is_handler (fst (proxy_Run evs)) = map HandleEgress (egress_pushed us))"
  using proxy_Run_egress [of evs "take (length (egress_msgs (served evs))) (egress_pushed us)"]
    proxy_Run_egress [of evs "egress_pushed us"] taken_first [OF assms(1-3)] assms(4)
  by (simp add: commands_for_egress take_map)

text \<open>Two configurations, between them a rotation.\<close>

definition configure_cmd :: "JobSpec list \<Rightarrow> Command" where
  "configure_cmd js = \<lparr>CommandId = ''b'', IssuedAtMs = 0, cmd_Payload = Some (Command_ConfigureBatch \<lparr>Jobs = js\<rparr>)\<rparr>"

definition demo_uses :: "bus_use list" where
  "demo_uses = [Handle 5 (configure_cmd []), Handle 6 demo_rotate, Take 0, Handle 7 (configure_cmd [echo_job]), Take 0]"

lemma demo_uses_configs: "configs_pushed demo_uses = [\<lparr>Jobs = []\<rparr>, \<lparr>Jobs = [echo_job]\<rparr>]"
  by (simp add: configs_pushed_def demo_uses_def configure_cmd_def demo_rotate_def)

lemma two_codec_empty: "Unmarshal two_codec [] = Some \<lparr>Jobs = []\<rparr>"
  by (simp add: two_codec_def)

theorem batch_follows_last_configuration_witness:
  "\<exists>w' s'. batch_Run ref_bolt two_codec (\<lambda>_. None)
       (map BatchMsg (taken ref_bolt 0 demo_uses (demo_agent\<lparr>ag_bus := snd (Subscribe TopicBatch (ag_bus demo_agent))\<rparr>)))
       batch_Init empty_store = (False, w', s')
     \<and> cron_entries (fst (snd (batch_Run ref_bolt two_codec (\<lambda>_. None) [] batch_Init s'))) = [(''0 7 * * *'', echo_job)]"
proof -
  let ?a = "demo_agent\<lparr>ag_bus := snd (Subscribe TopicBatch (ag_bus demo_agent))\<rparr>"
  have m: "msg_of (configure_cmd js) = Some (MsgConfigureBatch \<lparr>Jobs = js\<rparr>)" for js by (simp add: msg_of_def configure_cmd_def)
  have r: "msg_of demo_rotate = Some (MsgRotateEgress \<lparr>rot_RequestId = ''r1''\<rparr>)" by (simp add: msg_of_def demo_rotate_def)
  have e: "chans (ag_bus (fold (bus_use_step ref_bolt) demo_uses ?a)) 0 = []"
    by (simp only: bus_uses_bus demo_uses_def)
       (simp add: m r demo_agent_def Subscribe_def New_def Publish_def Receive_def try_send_def chan_cap_def topic_defs)
  obtain fin w' s' where b: "batch_Run ref_bolt two_codec (\<lambda>_. None) (map BatchMsg (taken ref_bolt 0 demo_uses ?a)) batch_Init empty_store = (fin, w', s')"
    by (metis prod.collapse)
  have c: "\<exists>raw. Marshal two_codec (last (configs_pushed demo_uses)) = Inr raw" "configs_pushed demo_uses \<noteq> []"
    unfolding demo_uses_configs by (simp_all add: two_codec_def)
  have rm: "room ref_bolt TopicBatch 0 demo_uses ?a"
    by (rule room_at_first [OF demo_subscribe(1) demo_subscribe(2) [of TopicBatch]])
       (simp add: commands_for_batch demo_uses_configs)
  have t: "map BatchMsg (taken ref_bolt 0 demo_uses ?a) = map BatchMsg (map MsgConfigureBatch (configs_pushed demo_uses))"
    using taken_first(2) [OF demo_subscribe(1) demo_subscribe(2) [of TopicBatch] rm e] by (simp add: commands_for_batch)
  have "fin = False"
    using b unfolding t demo_uses_configs by (auto simp: batch_Run_def batch_take_def split: prod.splits)
  moreover obtain fin2 w2 s2 where f: "batch_Run ref_bolt two_codec (\<lambda>_. None) [] batch_Init s' = (fin2, w2, s2)"
    by (metis prod.collapse)
  have "cron_entries w2 = cron_table (\<lambda>_. None) (last (configs_pushed demo_uses))"
    using batch_follows_last_configuration [OF demo_subscribe(1) demo_subscribe(2) [of TopicBatch] rm e c(2) b f]
      logh.bolt_healthy_axioms twoc.proto_codec_axioms two_codec_empty c(1) by blast
  ultimately show ?thesis
    using b f by (auto simp: demo_uses_configs cron_table_def armed_def cron_spec_def echo_job_def)
qed

theorem proxy_starts_handlers_witness:
  "filter is_handler (fst (proxy_Run [ProxyRotate (MsgRotateEgress \<lparr>rot_RequestId = ''r1''\<rparr>), ProxyMsg (MsgEgressOpen
       \<lparr>ConnId = ''c1'', Host = ''example.org'', Port = 443, ViaTor = False\<rparr>)])) =
     [HandleEgress \<lparr>ConnId = ''c1'', Host = ''example.org'', Port = 443, ViaTor = False\<rparr>]"
proof -
  let ?a = "demo_agent\<lparr>ag_bus := snd (Subscribe TopicEgress (ag_bus demo_agent))\<rparr>" and ?us = "[Handle 6 demo_rotate, Handle 5 demo_open, Take 0]"
  have m: "msg_of demo_open = Some (MsgEgressOpen \<lparr>ConnId = ''c1'', Host = ''example.org'', Port = 443, ViaTor = False\<rparr>)"
    by (simp add: msg_of_def demo_open_def)
  have r: "msg_of demo_rotate = Some (MsgRotateEgress \<lparr>rot_RequestId = ''r1''\<rparr>)" by (simp add: msg_of_def demo_rotate_def)
  have e: "chans (ag_bus (fold (bus_use_step ref_bolt) ?us ?a)) 0 = []"
    by (simp only: bus_uses_bus)
       (simp add: m r demo_agent_def Subscribe_def New_def Publish_def Receive_def try_send_def chan_cap_def topic_defs)
  have p: "egress_pushed ?us = [\<lparr>ConnId = ''c1'', Host = ''example.org'', Port = 443, ViaTor = False\<rparr>]"
    by (simp add: egress_pushed_def demo_open_def demo_rotate_def)
  have rm: "room ref_bolt TopicEgress 0 ?us ?a"
    by (rule room_at_first [OF demo_subscribe(1) demo_subscribe(2) [of TopicEgress]]) (simp add: commands_for_egress p)
  have "taken ref_bolt 0 ?us ?a = map MsgEgressOpen (egress_pushed ?us)"
    using taken_first(2) [OF demo_subscribe(1) demo_subscribe(2) [of TopicEgress] rm e] by (simp add: commands_for_egress p)
  then show ?thesis
    using proxy_starts_handlers [OF demo_subscribe(1) demo_subscribe(2) [of TopicEgress] rm, of "[ProxyRotate (MsgRotateEgress \<lparr>rot_RequestId = ''r1''\<rparr>), ProxyMsg (MsgEgressOpen
       \<lparr>ConnId = ''c1'', Host = ''example.org'', Port = 443, ViaTor = False\<rparr>)]"] e
    by (simp add: p egress_msgs_def)
qed

end
