(* ===== verification/StubStreams.thy ===== *)
theory StubStreams
  imports ParentStub
begin

section \<open>cmd/parent-stub: command streams and listeners\<close>

text \<open>
  The loops of main.go around the operations of ParentStub.thy: the accept loops of the two proxies, and
  \<open>PollCommand\<close>, which keeps the child's command stream and sends pings on it. The step relation adds the
  command streams to the handlers of ParentStub.thy, with a log of the egress commands sent; the
  property says on which stream they go, and that every client causes one.
\<close>

subsection \<open>Listeners\<close>

text \<open>The connections handed to a handler, and whether the loop has returned: it returns at the first error
  of \<open>Accept\<close>, whatever the error is.\<close>

fun accept_loop :: "(gerror + 'c) list \<Rightarrow> 'c list \<times> bool" where
  "accept_loop [] = ([], False)"
| "accept_loop (Inl e # rs) = ([], True)"
| "accept_loop (Inr c # rs) = (case accept_loop rs of (cs, fin) \<Rightarrow> (c # cs, fin))"

definition serveSocks :: "(gerror + 'c) list \<Rightarrow> 'c list \<times> bool" where
  "serveSocks = accept_loop"

definition serveHTTP :: "(gerror + 'c) list \<Rightarrow> 'c list \<times> bool" where
  "serveHTTP = accept_loop"

text \<open>A listener that fails once accepts no client any more.\<close>

lemma accept_error_final: "accept_loop (map Inr cs @ Inl e # rs) = (cs, True)"
  by (induction cs) simp_all

subsection \<open>PollCommand\<close>

datatype poll_event = PollTick i64 | PollCtxDone

text \<open>One iteration of the loop of stream \<open>cc\<close>: the command to send, whether the handler returns, and the
  server. The error of sending a ping is ignored.\<close>

definition poll_iter :: "nat \<Rightarrow> poll_event \<Rightarrow> server \<Rightarrow> Command option \<times> bool \<times> server" where
  "poll_iter cc ev s = (case ev of
     PollCtxDone \<Rightarrow> (None, True, poll_end cc s)
   | PollTick nowMs \<Rightarrow> (Some (ping_command nowMs), False, s))"

text \<open>The whole handler, over its events; \<open>time.NewTicker\<close> panics on a period that is not positive.\<close>

fun poll_events :: "nat \<Rightarrow> poll_event list \<Rightarrow> server \<Rightarrow> Command list \<times> bool \<times> server" where
  "poll_events cc [] s = ([], False, s)"
| "poll_events cc (ev # evs) s = (case poll_iter cc ev s of
     (cmd, True, s) \<Rightarrow> (case cmd of None \<Rightarrow> [] | Some c \<Rightarrow> [c], True, s)
   | (cmd, False, s) \<Rightarrow> (case poll_events cc evs s of (cmds, fin, t) \<Rightarrow>
       ((case cmd of None \<Rightarrow> [] | Some c \<Rightarrow> [c]) @ cmds, fin, t)))"

definition PollCommand :: "nat \<Rightarrow> i64 \<Rightarrow> poll_event list \<Rightarrow> server \<Rightarrow> (Command list \<times> bool \<times> server) option" where
  "PollCommand cc pingSec evs s =
     (let s = poll_begin cc s in
      if sint (pingSec * 1000000000) \<le> 0 then None else Some (poll_events cc evs s))"

text \<open>A stream that runs undisturbed sends only pings and leaves no child behind.\<close>

lemma PollCommand_pings:
  "PollCommand cc 30 (map PollTick ts @ [PollCtxDone]) s = Some (map ping_command ts, True, s\<lparr>child := None\<rparr>)"
proof -
  have "poll_events cc (map PollTick ts @ [PollCtxDone]) (s\<lparr>child := Some cc\<rparr>) = (map ping_command ts, True, s\<lparr>child := None\<rparr>)"
    by (induction ts) (simp_all add: poll_iter_def poll_end_def)
  then show ?thesis by (simp add: PollCommand_def poll_begin_def)
qed

subsection \<open>Streams and handlers together\<close>

text \<open>\<open>sy_begun\<close> are the streams in the order they began, \<open>sy_ended\<close> those that ended; \<open>sy_log\<close> the egress
  commands sent, as pairs of a stream and a connection id.\<close>

record streams =
  sy_sys :: system
  sy_begun :: "nat list"
  sy_ended :: "nat set"
  sy_log :: "(nat \<times> bytes) list"

definition streams_init :: streams where
  "streams_init = \<lparr>sy_sys = system_init, sy_begun = [], sy_ended = {}, sy_log = []\<rparr>"

text \<open>A handler's step other than the sending of its command leaves the streams alone.\<close>

inductive stream_step :: "streams \<Rightarrow> streams \<Rightarrow> bool" where
  Begin: "k \<notin> set (sy_begun y) \<Longrightarrow>
    stream_step y (y\<lparr>sy_sys := (sy_sys y)\<lparr>srv := poll_begin k (srv (sy_sys y))\<rparr>, sy_begun := sy_begun y @ [k]\<rparr>)"
| Ping: "k \<in> set (sy_begun y) \<Longrightarrow> k \<notin> sy_ended y \<Longrightarrow> poll_iter k (PollTick t) (srv (sy_sys y)) = (Some cmd, False, s) \<Longrightarrow>
    stream_step y (y\<lparr>sy_sys := (sy_sys y)\<lparr>srv := s\<rparr>\<rparr>)"
| End: "k \<in> set (sy_begun y) \<Longrightarrow> k \<notin> sy_ended y \<Longrightarrow> poll_iter k PollCtxDone (srv (sy_sys y)) = (None, True, s) \<Longrightarrow>
    stream_step y (y\<lparr>sy_sys := (sy_sys y)\<lparr>srv := s\<rparr>, sy_ended := insert k (sy_ended y)\<rparr>)"
| Send: "stage_of (sy_sys y) c = Registered k i \<Longrightarrow>
    stream_step y (y\<lparr>sy_sys := set_stage c (Requested i) (sy_sys y), sy_log := sy_log y @ [(k, i)]\<rparr>)"
| Handler: "sys_step (sy_sys y) z \<Longrightarrow> child (srv z) = child (srv (sy_sys y)) \<Longrightarrow>
    (\<And>c i. stage_of z c = Requested i \<Longrightarrow> stage_of (sy_sys y) c = Requested i) \<Longrightarrow>
    stream_step y (y\<lparr>sy_sys := z\<rparr>)"

inductive streams_reachable :: "streams \<Rightarrow> bool" where
  Init: "streams_reachable streams_init"
| Step: "streams_reachable y \<Longrightarrow> stream_step y z \<Longrightarrow> streams_reachable z"

lemma stream_step_sys: "stream_step y z \<Longrightarrow> sys_step (sy_sys y) (sy_sys z) \<or> sy_sys z = sy_sys y"
  by (induction rule: stream_step.induct)
     (auto simp: poll_iter_def intro: sys_step.poll sys_step.poll_done sys_step.send_ok)

lemma streams_reachable_sys: "streams_reachable y \<Longrightarrow> reachable (sy_sys y)"
proof (induction rule: streams_reachable.induct)
  case (Step y z)
  then show ?case using stream_step_sys [OF Step.hyps(2)] reachable.step by metis
qed (simp add: streams_init_def reachable.init)

subsection \<open>Invariant\<close>

text \<open>The child is the latest stream, unless that has ended.\<close>

definition latest :: "streams \<Rightarrow> nat option" where
  "latest y = (if sy_begun y = [] \<or> last (sy_begun y) \<in> sy_ended y then None else Some (last (sy_begun y)))"

text \<open>The stream a handler is going to use.\<close>

fun stream_of :: "stage \<Rightarrow> nat option" where
  "stream_of (Chosen k) = Some k" | "stream_of (Allocated k i) = Some k" | "stream_of (Registered k i) = Some k" | "stream_of _ = None"

text \<open>The handlers whose command has been sent.\<close>

fun requested :: "stage \<Rightarrow> bytes option" where
  "requested (Requested i) = Some i" | "requested (Replied i) = Some i" | "requested _ = None"

definition streams_inv :: "streams \<Rightarrow> bool" where
  "streams_inv y \<longleftrightarrow> child (srv (sy_sys y)) = latest y \<and> distinct (sy_begun y) \<and> sy_ended y \<subseteq> set (sy_begun y)
     \<and> (\<forall>c k. stream_of (stage_of (sy_sys y) c) = Some k \<longrightarrow> k \<in> set (sy_begun y))
     \<and> distinct (map snd (sy_log y)) \<and> fst ` set (sy_log y) \<subseteq> set (sy_begun y)
     \<and> snd ` set (sy_log y) = {i. \<exists>c. requested (stage_of (sy_sys y) c) = Some i}"

lemma requested_id: "requested st = Some i \<Longrightarrow> id_of st = Some i \<and> stream_of st = None"
  by (cases st) simp_all

text \<open>The stages a handler's step can change.\<close>

lemma sys_step_stages:
  "sys_step y z \<Longrightarrow> (\<And>c i. stage_of z c = Requested i \<Longrightarrow> stage_of y c = Requested i) \<Longrightarrow>
   (\<forall>c. requested (stage_of z c) = requested (stage_of y c))
   \<and> (\<forall>c k. stream_of (stage_of z c) = Some k \<longrightarrow> stream_of (stage_of y c) = Some k \<or> child (srv y) = Some k)"
proof (induction rule: sys_step.induct)
  case (send_ok y c k i)
  then show ?case using send_ok.prems [of c i] by simp
qed (auto simp: next_conn_iff)

lemma streams_inv_init: "streams_inv streams_init"
  by (simp add: streams_inv_def streams_init_def system_init_def server_init_def latest_def)

lemma stream_step_inv:
  "stream_step y z \<Longrightarrow> sys_inv (sy_sys y) \<Longrightarrow> streams_inv y \<Longrightarrow> streams_inv z"
proof (induction rule: stream_step.induct)
  case (Begin k y)
  then show ?case by (auto simp: streams_inv_def poll_begin_def latest_def)
next
  case (Ping k y t cmd s)
  then show ?case by (simp add: streams_inv_def poll_iter_def latest_def)
next
  case (End k y s)
  then have "s = poll_end k (srv (sy_sys y))" by (simp add: poll_iter_def)
  then show ?case using End by (auto simp: streams_inv_def poll_end_def latest_def split: if_splits)
next
  case (Send y c k i)
  have new: "requested (stage_of (sy_sys y) d) \<noteq> Some i" for d
  proof
    assume d: "requested (stage_of (sy_sys y) d) = Some i"
    have "id_of (stage_of (sy_sys y) c) = Some i" using Send.hyps by simp
    then have "d = c" using Send.prems(1) requested_id [OF d] unfolding sys_inv_def by blast
    then show False using d Send.hyps by simp
  qed
  have r: "{j. \<exists>d. requested (stage_of (set_stage c (Requested i) (sy_sys y)) d) = Some j}
      = insert i {j. \<exists>d. requested (stage_of (sy_sys y) d) = Some j}"
  proof -
    have "requested (stage_of (sy_sys y) c) = None" using Send.hyps by simp
    then show ?thesis by (auto split: if_splits) (metis option.distinct(1))
  qed
  have "k \<in> set (sy_begun y)" using Send.prems(2) Send.hyps unfolding streams_inv_def by (metis stream_of.simps(3))
  moreover have "i \<notin> snd ` set (sy_log y)" using Send.prems(2) new by (simp add: streams_inv_def)
  ultimately show ?case using Send.prems(2) r by (auto simp: streams_inv_def latest_def split: if_splits)
next
  case (Handler y z)
  note st = sys_step_stages [OF Handler.hyps(1,3)]
  have c: "k \<in> set (sy_begun y)" if "child (srv (sy_sys y)) = Some k" for k
    using that Handler.prems(2) by (auto simp: streams_inv_def latest_def split: if_splits)
  have "\<forall>c k. stream_of (stage_of (sy_sys y) c) = Some k \<longrightarrow> k \<in> set (sy_begun y)"
    using Handler.prems(2) by (simp add: streams_inv_def)
  then have "\<forall>c k. stream_of (stage_of z c) = Some k \<longrightarrow> k \<in> set (sy_begun y)" using st c by metis
  then show ?case using st Handler.hyps(2) Handler.prems(2) by (simp add: streams_inv_def latest_def)
qed

lemma streams_reachable_inv: "streams_reachable y \<Longrightarrow> streams_inv y"
proof (induction rule: streams_reachable.induct)
  case (Step y z)
  then show ?case using stream_step_inv reachable_inv [OF streams_reachable_sys] by blast
qed (rule streams_inv_init)

subsection \<open>Property\<close>

text \<open>One command per client, on the latest stream. In every interleaving of command streams, client
  handlers and egress streams: new clients are sent to the child that connected last, and refused when
  that stream has ended, even if an older one is still open; the commands sent carry different
  connection ids, one for each client whose request was accepted.\<close>

theorem one_command_per_client:
  assumes "streams_reachable y"
  shows "fst (open_alloc (srv (sy_sys y))) = map_option (\<lambda>k. (k, conn_id (connSeq (srv (sy_sys y)) + 1))) (latest y)
    \<and> distinct (map snd (sy_log y))
    \<and> snd ` set (sy_log y) = {i. \<exists>c. requested (stage_of (sy_sys y) c) = Some i}
    \<and> (\<forall>c d i. requested (stage_of (sy_sys y) c) = Some i \<and> requested (stage_of (sy_sys y) d) = Some i \<longrightarrow> c = d)"
proof -
  have inv: "streams_inv y" "sys_inv (sy_sys y)"
    using streams_reachable_inv [OF assms] reachable_inv [OF streams_reachable_sys [OF assms]] by blast+
  have "fst (open_alloc (srv (sy_sys y))) = map_option (\<lambda>k. (k, conn_id (connSeq (srv (sy_sys y)) + 1))) (child (srv (sy_sys y)))"
    by (simp add: open_alloc_def next_conn_def Let_def split: option.split)
  moreover have "c = d" if "requested (stage_of (sy_sys y) c) = Some i" "requested (stage_of (sy_sys y) d) = Some i" for c d i
    using that inv(2) requested_id unfolding sys_inv_def by meson
  ultimately show ?thesis using inv(1) by (auto simp: streams_inv_def)
qed

text \<open>Two streams, of which the later ends: the first is not used again.\<close>

theorem one_command_per_client_witness:
  "\<exists>y. streams_reachable y \<and> sy_begun y = [7, 8] \<and> sy_ended y = {8} \<and> fst (open_alloc (srv (sy_sys y))) = None"
proof -
  let ?y1 = "streams_init\<lparr>sy_sys := system_init\<lparr>srv := server_init\<lparr>child := Some 7\<rparr>\<rparr>, sy_begun := [7]\<rparr>"
  let ?y2 = "?y1\<lparr>sy_sys := system_init\<lparr>srv := server_init\<lparr>child := Some 8\<rparr>\<rparr>, sy_begun := [7, 8]\<rparr>"
  let ?y3 = "?y2\<lparr>sy_sys := system_init\<lparr>srv := server_init\<lparr>child := None\<rparr>\<rparr>, sy_ended := {8}\<rparr>"
  have "stream_step streams_init ?y1"
    using stream_step.Begin [of 7 streams_init] by (simp add: streams_init_def system_init_def poll_begin_def)
  moreover have "stream_step ?y1 ?y2"
    using stream_step.Begin [of 8 ?y1] by (simp add: streams_init_def system_init_def poll_begin_def)
  moreover have "stream_step ?y2 ?y3"
    using stream_step.End [of 8 ?y2] by (simp add: streams_init_def system_init_def poll_iter_def poll_end_def)
  ultimately have r: "streams_reachable ?y3" by (meson streams_reachable.intros)
  have "latest ?y3 = None" by (simp add: latest_def streams_init_def)
  then show ?thesis using one_command_per_client [OF r] r by (intro exI [of _ ?y3]) (simp add: streams_init_def)
qed

end
