(* ===== verification/StubSend.thy ===== *)
theory StubSend
  imports StubStreams
begin

section \<open>cmd/parent-stub: sending on a command stream\<close>

text \<open>
  \<open>childConn\<close> of main.go. A command stream is written by two kinds of goroutines, the \<open>PollCommand\<close> that sends
  its pings and the handlers that send egress commands, and gRPC forbids concurrent sends on a
  stream; the mutex of \<open>childConn\<close> serialises them. In StubStreams.thy a send is one step; here it is the
  waiting for the lock, the write and the return, and a run of this system is a run of that one.
\<close>

subsection \<open>\<open>childConn.send\<close>\<close>

datatype sender = Pinger nat | Opener nat

text \<open>The mutex with its holder, and the commands the stream accepted.\<close>

record childConn =
  cc_mu :: "sender option"
  cc_out :: "Command list"

definition mu_Lock :: "sender \<Rightarrow> childConn \<Rightarrow> childConn option" where
  "mu_Lock x cc = (if cc_mu cc = None then Some (cc\<lparr>cc_mu := Some x\<rparr>) else None)"

definition stream_Send :: "gerror option \<Rightarrow> Command \<Rightarrow> childConn \<Rightarrow> childConn" where
  "stream_Send err cmd cc = (if err = None then cc\<lparr>cc_out := cc_out cc @ [cmd]\<rparr> else cc)"

definition mu_Unlock :: "childConn \<Rightarrow> childConn" where
  "mu_Unlock cc = cc\<lparr>cc_mu := None\<rparr>"

text \<open>The method without interruption; \<open>None\<close> while another sender holds the lock.\<close>

definition childConn_send :: "sender \<Rightarrow> gerror option \<Rightarrow> Command \<Rightarrow> childConn \<Rightarrow> (gerror option \<times> childConn) option" where
  "childConn_send x err cmd cc = (case mu_Lock x cc of
     None \<Rightarrow> None
   | Some cc \<Rightarrow> Some (err, mu_Unlock (stream_Send err cmd cc)))"

lemma childConn_send_effect:
  "cc_mu cc = None \<Longrightarrow> childConn_send x err cmd cc =
     Some (err, cc\<lparr>cc_out := cc_out cc @ (if err = None then [cmd] else [])\<rparr>)"
  by (simp add: childConn_send_def mu_Lock_def stream_Send_def mu_Unlock_def)

subsection \<open>Senders under the lock\<close>

text \<open>Where a sender is: not in \<open>send\<close>, waiting for the lock, holding it before and after the write, or
  returned with an error (a handler, which then withdraws its client).\<close>

datatype spc = Idle | Waiting nat Command | Locked nat Command | Written nat "gerror option" | Refused

record locked =
  l_streams :: streams
  l_conn :: "nat \<Rightarrow> childConn"
  l_pc :: "sender \<Rightarrow> spc"

definition locked_init :: locked where
  "locked_init = \<lparr>l_streams = streams_init, l_conn = (\<lambda>_. \<lparr>cc_mu = None, cc_out = []\<rparr>), l_pc = (\<lambda>_. Idle)\<rparr>"

abbreviation at_pc :: "sender \<Rightarrow> spc \<Rightarrow> locked \<Rightarrow> locked" where
  "at_pc x p y \<equiv> y\<lparr>l_pc := (l_pc y)(x := p)\<rparr>"

abbreviation set_conn :: "nat \<Rightarrow> childConn \<Rightarrow> locked \<Rightarrow> locked" where
  "set_conn k cc y \<equiv> y\<lparr>l_conn := (l_conn y)(k := cc)\<rparr>"

abbreviation stg :: "locked \<Rightarrow> nat \<Rightarrow> stage" where
  "stg y \<equiv> stage_of (sy_sys (l_streams y))"

text \<open>\<open>Other\<close> are the steps of handlers outside \<open>send\<close>, and of egress streams.\<close>

inductive locked_step :: "locked \<Rightarrow> locked \<Rightarrow> bool" where
  Begin: "k \<notin> set (sy_begun (l_streams y)) \<Longrightarrow>
    locked_step y (y\<lparr>l_streams := (l_streams y)\<lparr>sy_sys := (sy_sys (l_streams y))
      \<lparr>srv := poll_begin k (srv (sy_sys (l_streams y)))\<rparr>, sy_begun := sy_begun (l_streams y) @ [k]\<rparr>\<rparr>)"
| End: "k \<in> set (sy_begun (l_streams y)) \<Longrightarrow> k \<notin> sy_ended (l_streams y) \<Longrightarrow> l_pc y (Pinger k) = Idle \<Longrightarrow>
    poll_iter k PollCtxDone (srv (sy_sys (l_streams y))) = (None, True, s) \<Longrightarrow>
    locked_step y (y\<lparr>l_streams := (l_streams y)\<lparr>sy_sys := (sy_sys (l_streams y))\<lparr>srv := s\<rparr>,
      sy_ended := insert k (sy_ended (l_streams y))\<rparr>\<rparr>)"
| PingCall: "k \<in> set (sy_begun (l_streams y)) \<Longrightarrow> k \<notin> sy_ended (l_streams y) \<Longrightarrow> l_pc y (Pinger k) = Idle \<Longrightarrow>
    poll_iter k (PollTick t) (srv (sy_sys (l_streams y))) = (Some cmd, False, srv (sy_sys (l_streams y))) \<Longrightarrow>
    locked_step y (at_pc (Pinger k) (Waiting k cmd) y)"
| OpenCall: "stg y c = Registered k i \<Longrightarrow> l_pc y (Opener c) = Idle \<Longrightarrow>
    locked_step y (at_pc (Opener c) (Waiting k (egress_command i host port t)) y)"
| Acquire: "l_pc y x = Waiting k cmd \<Longrightarrow> mu_Lock x (l_conn y k) = Some cc \<Longrightarrow>
    locked_step y (set_conn k cc (at_pc x (Locked k cmd) y))"
| Write: "l_pc y x = Locked k cmd \<Longrightarrow>
    locked_step y (set_conn k (stream_Send err cmd (l_conn y k)) (at_pc x (Written k err) y))"
| PingReturn: "l_pc y (Pinger j) = Written k err \<Longrightarrow>
    locked_step y (set_conn k (mu_Unlock (l_conn y k)) (at_pc (Pinger j) Idle y))"
| OpenReturn: "l_pc y (Opener c) = Written k None \<Longrightarrow> stg y c = Registered k i \<Longrightarrow>
    locked_step y (set_conn k (mu_Unlock (l_conn y k)) (at_pc (Opener c) Idle
      (y\<lparr>l_streams := (l_streams y)\<lparr>sy_sys := set_stage c (Requested i) (sy_sys (l_streams y)),
         sy_log := sy_log (l_streams y) @ [(k, i)]\<rparr>\<rparr>)))"
| OpenFail: "l_pc y (Opener c) = Written k (Some e) \<Longrightarrow>
    locked_step y (set_conn k (mu_Unlock (l_conn y k)) (at_pc (Opener c) Refused y))"
| Withdraw: "l_pc y (Opener c) = Refused \<Longrightarrow> stg y c = Registered k i \<Longrightarrow>
    takePending i (srv (sy_sys (l_streams y))) = (r, s) \<Longrightarrow>
    locked_step y (y\<lparr>l_streams := (l_streams y)\<lparr>sy_sys :=
      emit c Failure (set_stage c (Closed (Some i)) ((sy_sys (l_streams y))\<lparr>srv := s\<rparr>))\<rparr>\<rparr>)"
| Other: "sys_step (sy_sys (l_streams y)) z \<Longrightarrow> child (srv z) = child (srv (sy_sys (l_streams y))) \<Longrightarrow>
    (\<And>c i. stage_of z c = Requested i \<Longrightarrow> stg y c = Requested i) \<Longrightarrow>
    (\<And>c k i. stg y c = Registered k i \<Longrightarrow> stage_of z c = Registered k i) \<Longrightarrow>
    locked_step y (y\<lparr>l_streams := (l_streams y)\<lparr>sy_sys := z\<rparr>\<rparr>)"

inductive locked_reachable :: "locked \<Rightarrow> bool" where
  Init: "locked_reachable locked_init"
| Step: "locked_reachable y \<Longrightarrow> locked_step y z \<Longrightarrow> locked_reachable z"

text \<open>The write of an egress command takes effect for the rest of the server when \<open>send\<close> returns.\<close>

lemma locked_step_refines: "locked_step y z \<Longrightarrow> stream_step (l_streams y) (l_streams z) \<or> l_streams z = l_streams y"
proof (induction rule: locked_step.induct)
  case (Withdraw y c k i r s)
  have "child s = child (srv (sy_sys (l_streams y)))" using Withdraw(3) by (auto simp: takePending_def)
  then have "stream_step (l_streams y) ((l_streams y)\<lparr>sy_sys :=
      emit c Failure (set_stage c (Closed (Some i)) ((sy_sys (l_streams y))\<lparr>srv := s\<rparr>))\<rparr>)"
    by (intro stream_step.Handler [OF sys_step.send_fail [OF Withdraw(2,3)]]) (auto split: if_splits)
  then show ?case by simp
next
  case (Other y z)
  then show ?case using stream_step.Handler [of "l_streams y" z] by auto
qed (auto intro: stream_step.intros)

lemma locked_reachable_streams: "locked_reachable y \<Longrightarrow> streams_reachable (l_streams y)"
proof (induction rule: locked_reachable.induct)
  case (Step y z)
  then show ?case using locked_step_refines [OF Step.hyps(2)] streams_reachable.Step by metis
qed (simp add: locked_init_def streams_reachable.Init)

subsection \<open>Invariant\<close>

text \<open>The connection ids of the egress commands among the commands of a stream.\<close>

definition cmd_ids :: "Command \<Rightarrow> bytes list" where
  "cmd_ids cmd = (case cmd_Payload cmd of Some (Command_EgressOpen p) \<Rightarrow> [ConnId p] | _ \<Rightarrow> [])"

definition egress_ids :: "Command list \<Rightarrow> bytes list" where
  "egress_ids cs = concat (map cmd_ids cs)"

lemma cmd_ids_simps [simp]: "cmd_ids (egress_command i host port t) = [i]" "cmd_ids (ping_command t) = []"
  by (simp_all add: cmd_ids_def egress_command_def ping_command_def)

lemma egress_ids_simps [simp]: "egress_ids [] = []" "egress_ids (cs @ [cmd]) = egress_ids cs @ cmd_ids cmd"
  by (simp_all add: egress_ids_def)

definition writing :: "nat \<Rightarrow> spc \<Rightarrow> bool" where
  "writing k p \<longleftrightarrow> (case p of Locked j cmd \<Rightarrow> j = k | Written j err \<Rightarrow> j = k | _ \<Rightarrow> False)"

lemma writing_simps [simp]:
  "\<not> writing k Idle" "\<not> writing k (Waiting j cmd)" "writing k (Locked j cmd) \<longleftrightarrow> j = k"
  "writing k (Written j err) \<longleftrightarrow> j = k" "\<not> writing k Refused"
  by (simp_all add: writing_def)

text \<open>The holder of the mutex is the one sender that writes.\<close>

definition excl :: "locked \<Rightarrow> bool" where
  "excl y \<longleftrightarrow> (\<forall>x k. cc_mu (l_conn y k) = Some x \<longleftrightarrow> writing k (l_pc y x))"

lemma exclD: "excl y \<Longrightarrow> cc_mu (l_conn y k) = Some x \<longleftrightarrow> writing k (l_pc y x)"
  by (simp add: excl_def)

lemma excl_pc: "excl y \<Longrightarrow> (\<And>k. writing k p = writing k (l_pc y x)) \<Longrightarrow> excl (at_pc x p y)"
  by (simp add: excl_def)

lemma excl_conn: "excl y \<Longrightarrow> cc_mu cc = cc_mu (l_conn y k) \<Longrightarrow> excl (set_conn k cc y)"
  by (simp add: excl_def)

lemma excl_streams: "excl (y\<lparr>l_streams := s\<rparr>) = excl y"
  by (simp add: excl_def)

lemma excl_acquire:
  assumes "excl y" and "l_pc y x = Waiting k cmd" and "mu_Lock x (l_conn y k) = Some cc"
  shows "excl (set_conn k cc (at_pc x (Locked k cmd) y))"
proof -
  have "cc_mu (l_conn y k) = None" "cc = (l_conn y k)\<lparr>cc_mu := Some x\<rparr>" using assms(3) by (auto simp: mu_Lock_def split: if_splits)
  moreover have "\<not> writing k (l_pc y x')" for x' using exclD [OF assms(1), of k x'] calculation(1) by simp
  ultimately show ?thesis using assms(1,2) exclD [OF assms(1), of _ x] by (auto simp: excl_def)
qed

lemma excl_release:
  assumes "excl y" and "l_pc y x = Written k err" and "\<And>j. \<not> writing j p"
  shows "excl (set_conn k (mu_Unlock (l_conn y k)) (at_pc x p y))"
proof -
  have "x' = x" if "writing k (l_pc y x')" for x'
    using exclD [OF assms(1), of k x'] exclD [OF assms(1), of k x] that assms(2) by simp
  then show ?thesis using assms exclD [OF assms(1), of _ x] by (auto simp: excl_def mu_Unlock_def)
qed

lemma locked_step_excl: "locked_step y z \<Longrightarrow> excl y \<Longrightarrow> excl z"
proof (induction rule: locked_step.induct)
  case (Acquire y x k cmd cc)
  then show ?case by (intro excl_acquire)
next
  case (Write y x k cmd err)
  then show ?case by (intro excl_conn excl_pc) (simp_all add: stream_Send_def)
next
  case (OpenReturn y c k i)
  let ?y = "y\<lparr>l_streams := (l_streams y)\<lparr>sy_sys := set_stage c (Requested i) (sy_sys (l_streams y)),
      sy_log := sy_log (l_streams y) @ [(k, i)]\<rparr>\<rparr>"
  have "excl ?y" using OpenReturn(3) by (simp only: excl_streams)
  from excl_release [OF this, of "Opener c" k None Idle] OpenReturn(1) show ?case by simp
next
  case (PingReturn y j k err)
  then show ?case by (intro excl_release) simp_all
next
  case (OpenFail y c k e)
  then show ?case by (intro excl_release) simp_all
qed (auto simp: excl_streams intro: excl_pc)

text \<open>A handler in \<open>send\<close> is registered and sends its own id; a pinger sends pings on its own stream.\<close>

fun opener_ok :: "stage \<Rightarrow> spc \<Rightarrow> bool" where
  "opener_ok st (Waiting k cmd) = (\<exists>i. st = Registered k i \<and> cmd_ids cmd = [i])"
| "opener_ok st (Locked k cmd) = (\<exists>i. st = Registered k i \<and> cmd_ids cmd = [i])"
| "opener_ok st (Written k err) = (\<exists>i. st = Registered k i)"
| "opener_ok st p = True"

fun pinger_ok :: "nat \<Rightarrow> spc \<Rightarrow> bool" where
  "pinger_ok j (Waiting k cmd) = (k = j \<and> cmd_ids cmd = [])"
| "pinger_ok j (Locked k cmd) = (k = j \<and> cmd_ids cmd = [])"
| "pinger_ok j (Written k err) = (k = j)"
| "pinger_ok j p = True"

definition senders_ok :: "locked \<Rightarrow> bool" where
  "senders_ok y \<longleftrightarrow> (\<forall>c. opener_ok (stg y c) (l_pc y (Opener c))) \<and> (\<forall>j. pinger_ok j (l_pc y (Pinger j)))"

lemma opener_ok_registered:
  "opener_ok st p \<Longrightarrow> (\<And>k i. st = Registered k i \<Longrightarrow> st' = Registered k i) \<Longrightarrow> opener_ok st' p"
  by (cases p) auto

lemma senders_ok_pc:
  "senders_ok y \<Longrightarrow> (case x of Opener c \<Rightarrow> opener_ok (stg y c) p | Pinger j \<Rightarrow> pinger_ok j p) \<Longrightarrow> senders_ok (at_pc x p y)"
  by (auto simp: senders_ok_def split: sender.splits)

lemma senders_okD: "senders_ok y \<Longrightarrow> (case x of Opener c \<Rightarrow> opener_ok (stg y c) (l_pc y x) | Pinger j \<Rightarrow> pinger_ok j (l_pc y x))"
  by (auto simp: senders_ok_def split: sender.splits)

lemma senders_ok_conn: "senders_ok (set_conn k cc y) = senders_ok y"
  by (simp add: senders_ok_def)

lemma locked_step_senders: "locked_step y z \<Longrightarrow> senders_ok y \<Longrightarrow> senders_ok z"
proof (induction rule: locked_step.induct)
  case (PingCall k y t cmd)
  then show ?case by (intro senders_ok_pc) (auto simp: poll_iter_def)
next
  case (OpenCall y c k i host port t)
  then show ?case by (intro senders_ok_pc) simp_all
next
  case (Acquire y x k cmd cc)
  then show ?case using senders_okD [of y x] by (intro senders_ok_conn [THEN iffD2] senders_ok_pc) (simp_all split: sender.splits)
next
  case (Write y x k cmd err)
  then show ?case using senders_okD [of y x] by (intro senders_ok_conn [THEN iffD2] senders_ok_pc) (auto split: sender.splits)
next
  case (Other y z)
  have "opener_ok (stage_of z c) (l_pc y (Opener c))" for c
    by (rule opener_ok_registered [OF _ Other.hyps(4)]) (use Other.prems in \<open>unfold senders_ok_def, blast\<close>)
  then show ?case using Other.prems unfolding senders_ok_def by simp
next
  case (Withdraw y c k i r s)
  then show ?case by (auto simp: senders_ok_def)
qed (auto simp: senders_ok_def)

text \<open>The ids whose command is on stream \<open>k\<close>: those logged, and those whose \<open>send\<close> has not returned yet.\<close>

definition returning :: "locked \<Rightarrow> (nat \<times> bytes) set" where
  "returning y = {(k, i). \<exists>c. stg y c = Registered k i \<and> l_pc y (Opener c) = Written k None}"

definition wire_ids :: "locked \<Rightarrow> nat \<Rightarrow> bytes list" where
  "wire_ids y k = egress_ids (cc_out (l_conn y k))"

definition wire_ok :: "locked \<Rightarrow> bool" where
  "wire_ok y \<longleftrightarrow> (\<forall>k. distinct (wire_ids y k) \<and> set (wire_ids y k) = {i. (k, i) \<in> set (sy_log (l_streams y)) \<union> returning y})"

text \<open>A registered id is not among those logged, and belongs to one handler.\<close>

lemma registered_fresh:
  assumes "sys_inv (sy_sys (l_streams y))" "streams_inv (l_streams y)" "stg y c = Registered k i"
  shows "(j, i) \<notin> set (sy_log (l_streams y))" and "stg y d = Registered j i \<Longrightarrow> d = c"
proof -
  have u: "d = c" if "id_of (stg y d) = Some i" for d
    using assms(1,3) that unfolding sys_inv_def by (metis id_of.simps(4))
  show "stg y d = Registered j i \<Longrightarrow> d = c" by (rule u) simp
  show "(j, i) \<notin> set (sy_log (l_streams y))"
  proof
    assume "(j, i) \<in> set (sy_log (l_streams y))"
    then have "i \<in> snd ` set (sy_log (l_streams y))" by force
    then obtain d where d: "requested (stg y d) = Some i" using assms(2) by (auto simp: streams_inv_def)
    then show False using u requested_id [OF d] assms(3) by fastforce
  qed
qed

text \<open>Steps that start or end no return of a handler.\<close>

definition ok_return :: "spc \<Rightarrow> bool" where
  "ok_return p \<longleftrightarrow> (\<exists>k. p = Written k None)"

lemma ok_return_simps [simp]:
  "\<not> ok_return Idle" "\<not> ok_return (Waiting k cmd)" "\<not> ok_return (Locked k cmd)" "\<not> ok_return Refused"
  "ok_return (Written k err) \<longleftrightarrow> err = None"
  by (simp_all add: ok_return_def)

lemma returning_pc:
  assumes "(\<exists>j. x = Pinger j) \<or> \<not> ok_return (l_pc y x) \<and> \<not> ok_return p"
  shows "returning (at_pc x p y) = returning y"
proof -
  have "(l_pc (at_pc x p y) (Opener c) = Written k None) = (l_pc y (Opener c) = Written k None)" for c k
    using assms by (cases "x = Opener c") (auto simp: ok_return_def)
  then show ?thesis by (simp add: returning_def)
qed

lemma returning_conn: "returning (set_conn k cc y) = returning y"
  by (simp add: returning_def)

lemma wire_ok_pc:
  "wire_ok y \<Longrightarrow> (\<exists>j. x = Pinger j) \<or> \<not> ok_return (l_pc y x) \<and> \<not> ok_return p \<Longrightarrow> wire_ok (at_pc x p y)"
  using returning_pc [of x y p] by (simp add: wire_ok_def wire_ids_def)

lemma wire_ok_conn:
  "wire_ok y \<Longrightarrow> cc_out cc = cc_out (l_conn y k) \<Longrightarrow> wire_ok (set_conn k cc y)"
  using returning_conn [where k = k and cc = cc and y = y] by (simp add: wire_ok_def wire_ids_def)

lemma wire_ok_streams:
  assumes "wire_ok y" and "set (sy_log s) = set (sy_log (l_streams y))"
    and "\<And>c k i. l_pc y (Opener c) = Written k None \<Longrightarrow> stage_of (sy_sys s) c = Registered k i \<longleftrightarrow> stg y c = Registered k i"
  shows "wire_ok (y\<lparr>l_streams := s\<rparr>)"
proof -
  have "returning (y\<lparr>l_streams := s\<rparr>) = returning y" using assms(3) by (auto simp: returning_def)
  then show ?thesis using assms(1,2) by (simp add: wire_ok_def wire_ids_def)
qed

lemma wire_write:
  assumes inv: "sys_inv (sy_sys (l_streams y))" "streams_inv (l_streams y)" and sok: "senders_ok y" and w: "wire_ok y"
    and pc: "l_pc y x = Locked k cmd"
  shows "wire_ok (set_conn k (stream_Send err cmd (l_conn y k)) (at_pc x (Written k err) y))" (is "wire_ok ?z")
proof (cases "\<exists>c. x = Opener c \<and> err = None")
  case True
  then obtain c i where c: "x = Opener c" "err = None" "stg y c = Registered k i" "cmd_ids cmd = [i]"
    using senders_okD [OF sok, of x] pc by auto
  note f = registered_fresh [OF inv c(3)]
  have "(j, i) \<notin> returning y" for j using f(2) pc c(1) by (auto simp: returning_def)
  then have "i \<notin> set (wire_ids y j)" for j using w f(1) by (simp add: wire_ok_def)
  moreover have "returning ?z = insert (k, i) (returning y)"
  proof -
    have "stg y d = Registered j l \<and> l_pc ?z (Opener d) = Written j None \<longleftrightarrow>
        d = c \<and> j = k \<and> l = i \<or> stg y d = Registered j l \<and> l_pc y (Opener d) = Written j None" for d j l
      using c pc by (cases "d = c") auto
    then show ?thesis by (auto simp: returning_def)
  qed
  moreover have "wire_ids ?z j = wire_ids y j @ (if j = k then [i] else [])" for j
    using c by (simp add: wire_ids_def stream_Send_def)
  ultimately show ?thesis using w by (auto simp: wire_ok_def)
next
  case False
  then have p: "(\<exists>j. x = Pinger j) \<or> \<not> ok_return (l_pc y x) \<and> \<not> ok_return (Written k err)"
    using pc by (cases x) auto
  have "cmd_ids cmd = []" if "err = None" using False senders_okD [OF sok, of x] pc that by (auto split: sender.splits)
  then have "wire_ids ?z j = wire_ids y j" for j by (simp add: wire_ids_def stream_Send_def)
  then show ?thesis using w returning_pc [OF p] unfolding wire_ok_def returning_conn by simp
qed

lemma other_registered:
  assumes "senders_ok y" and "\<And>c k i. stg y c = Registered k i \<Longrightarrow> stage_of z c = Registered k i"
    and "l_pc y (Opener c) = Written k None"
  shows "stage_of z c = Registered k i \<longleftrightarrow> stg y c = Registered k i"
proof -
  obtain j where j: "stg y c = Registered k j" using assms(1,3) unfolding senders_ok_def by (metis opener_ok.simps(3))
  show ?thesis using assms(2) [OF j] j by simp
qed

lemma locked_step_wire:
  "locked_step y z \<Longrightarrow> sys_inv (sy_sys (l_streams y)) \<Longrightarrow> streams_inv (l_streams y) \<Longrightarrow> senders_ok y \<Longrightarrow> wire_ok y \<Longrightarrow> wire_ok z"
proof (induction rule: locked_step.induct)
  case (Acquire y x k cmd cc)
  then show ?case by (intro wire_ok_conn wire_ok_pc) (auto simp: mu_Lock_def split: if_splits)
next
  case (Write y x k cmd err)
  then show ?case by (intro wire_write)
next
  case (OpenReturn y c k i)
  let ?z = "set_conn k (mu_Unlock (l_conn y k)) (at_pc (Opener c) Idle (y\<lparr>l_streams := (l_streams y)
    \<lparr>sy_sys := set_stage c (Requested i) (sy_sys (l_streams y)), sy_log := sy_log (l_streams y) @ [(k, i)]\<rparr>\<rparr>))"
  have "stg ?z d = Registered j l \<and> l_pc ?z (Opener d) = Written j None \<longleftrightarrow>
      stg y d = Registered j l \<and> l_pc y (Opener d) = Written j None \<and> (j, l) \<noteq> (k, i)" for d j l
  proof (cases "d = c")
    case True
    then show ?thesis using OpenReturn(1,2) by auto
  next
    case False
    then show ?thesis using registered_fresh(2) [OF OpenReturn(3,4,2), of d j] by auto
  qed
  then have "returning ?z = returning y - {(k, i)}" by (auto simp: returning_def)
  moreover have "(k, i) \<in> returning y" using OpenReturn(1,2) by (auto simp: returning_def)
  moreover have "wire_ids ?z j = wire_ids y j" for j by (simp add: wire_ids_def mu_Unlock_def)
  ultimately show ?case using OpenReturn(6) by (auto simp: wire_ok_def)
next
  case (Other y z)
  then show ?case using other_registered [OF Other.prems(3) Other.hyps(4)] by (intro wire_ok_streams) simp_all
next
  case (Withdraw y c k i r s)
  then show ?case by (intro wire_ok_streams) auto
next
  case (PingReturn y j k err)
  then show ?case by (intro wire_ok_conn wire_ok_pc) (auto simp: mu_Unlock_def)
next
  case (OpenFail y c k e)
  then show ?case by (intro wire_ok_conn wire_ok_pc) (auto simp: mu_Unlock_def)
qed (auto intro: wire_ok_streams wire_ok_pc)

definition locked_inv :: "locked \<Rightarrow> bool" where
  "locked_inv y \<longleftrightarrow> excl y \<and> senders_ok y \<and> wire_ok y"

lemma locked_reachable_inv: "locked_reachable y \<Longrightarrow> locked_inv y"
proof (induction rule: locked_reachable.induct)
  case Init
  show ?case by (simp add: locked_inv_def locked_init_def excl_def senders_ok_def wire_ok_def wire_ids_def
      returning_def streams_init_def system_init_def)
next
  case (Step y z)
  have "sys_inv (sy_sys (l_streams y))" "streams_inv (l_streams y)"
    using locked_reachable_streams [OF Step.hyps(1)] reachable_inv streams_reachable_sys streams_reachable_inv by blast+
  then show ?case
    using Step.IH locked_step_excl [OF Step.hyps(2)] locked_step_senders [OF Step.hyps(2)] locked_step_wire [OF Step.hyps(2)]
    by (simp add: locked_inv_def)
qed

text \<open>An id is carried by one stream.\<close>

lemma carrier_unique:
  assumes inv: "sys_inv (sy_sys (l_streams y))" "streams_inv (l_streams y)"
    and "(j, i) \<in> set (sy_log (l_streams y)) \<union> returning y" "(k, i) \<in> set (sy_log (l_streams y)) \<union> returning y"
  shows "j = k"
proof (cases "(j, i) \<in> returning y \<or> (k, i) \<in> returning y")
  case True
  then obtain c l where c: "stg y c = Registered l i" by (auto simp: returning_def)
  have "(m, i) \<in> returning y \<Longrightarrow> m = l" for m
    using registered_fresh(2) [OF inv c] c by (fastforce simp: returning_def)
  then show ?thesis using assms(3,4) registered_fresh(1) [OF inv c] by blast
next
  case False
  have "inj_on snd (set (sy_log (l_streams y)))" using inv(2) by (simp add: streams_inv_def distinct_map)
  from inj_onD [OF this, of "(j, i)" "(k, i)"] show ?thesis using assms(3,4) False by simp
qed

subsection \<open>Property\<close>

text \<open>C9: Sends on a command stream are exclusive, and every client causes one command, on the latest stream. In every
  interleaving of pings, client handlers, command streams and egress streams: at most one goroutine is
  between the lock and the return of \<open>send\<close> on a stream; new clients get the child that connected last,
  and are refused when that stream has ended, even if an older one is open; and the streams carry, each
  once and on one stream only, the commands of the clients that were accepted or are about to be.\<close>

theorem command_streams:
  assumes "locked_reachable y"
  shows "(\<forall>k x x'. writing k (l_pc y x) \<and> writing k (l_pc y x') \<longrightarrow> x = x')
    \<and> child (srv (sy_sys (l_streams y))) = latest (l_streams y)
    \<and> (\<forall>k. distinct (wire_ids y k)) \<and> (\<forall>j k. j \<noteq> k \<longrightarrow> set (wire_ids y j) \<inter> set (wire_ids y k) = {})
    \<and> (\<Union>k. set (wire_ids y k)) = {i. \<exists>c. requested (stg y c) = Some i} \<union> snd ` returning y"
proof -
  have inv: "excl y" "senders_ok y" "wire_ok y" using locked_reachable_inv [OF assms] by (simp_all add: locked_inv_def)
  have s: "sys_inv (sy_sys (l_streams y))" "streams_inv (l_streams y)"
    using locked_reachable_streams [OF assms] reachable_inv streams_reachable_sys streams_reachable_inv by blast+
  show ?thesis
  proof (intro conjI allI impI)
    show "x = x'" if "writing k (l_pc y x) \<and> writing k (l_pc y x')" for k x x'
      using exclD [OF inv(1), of k x] exclD [OF inv(1), of k x'] that by simp
    show "child (srv (sy_sys (l_streams y))) = latest (l_streams y)" using s(2) by (simp add: streams_inv_def)
    show "distinct (wire_ids y k)" for k using inv(3) by (simp add: wire_ok_def)
    show "set (wire_ids y j) \<inter> set (wire_ids y k) = {}" if "j \<noteq> k" for j k
      using inv(3) carrier_unique [OF s] that unfolding wire_ok_def by blast
    show "(\<Union>k. set (wire_ids y k)) = {i. \<exists>c. requested (stg y c) = Some i} \<union> snd ` returning y"
    proof -
      have "(\<Union>k. set (wire_ids y k)) = snd ` set (sy_log (l_streams y)) \<union> snd ` returning y"
        using inv(3) by (force simp: wire_ok_def)
      then show ?thesis using s(2) by (simp add: streams_inv_def)
    qed
  qed
qed

text \<open>Two streams, of which the later ends while a ping is being written on the first.\<close>

theorem command_streams_witness:
  "\<exists>y. locked_reachable y \<and> writing 7 (l_pc y (Pinger 7)) \<and> latest (l_streams y) = None \<and> (\<Union>k. set (wire_ids y k)) = {}
     \<and> (\<forall>x. writing 7 (l_pc y x) \<longrightarrow> x = Pinger 7)"
proof -
  let ?s1 = "streams_init\<lparr>sy_sys := system_init\<lparr>srv := server_init\<lparr>child := Some 7\<rparr>\<rparr>, sy_begun := [7]\<rparr>"
  let ?s2 = "?s1\<lparr>sy_sys := system_init\<lparr>srv := server_init\<lparr>child := Some 8\<rparr>\<rparr>, sy_begun := [7, 8]\<rparr>"
  let ?s3 = "?s2\<lparr>sy_sys := system_init\<lparr>srv := server_init\<lparr>child := None\<rparr>\<rparr>, sy_ended := {8}\<rparr>"
  let ?y3 = "locked_init\<lparr>l_streams := ?s3\<rparr>"
  let ?y4 = "at_pc (Pinger 7) (Waiting 7 (ping_command 5)) ?y3"
  let ?y5 = "set_conn 7 \<lparr>cc_mu = Some (Pinger 7), cc_out = []\<rparr> (at_pc (Pinger 7) (Locked 7 (ping_command 5)) ?y4)"
  have s1: "locked_step locked_init (locked_init\<lparr>l_streams := ?s1\<rparr>)"
    using locked_step.Begin [of 7 locked_init]
    by (simp add: locked_init_def streams_init_def system_init_def poll_begin_def)
  have s2: "locked_step (locked_init\<lparr>l_streams := ?s1\<rparr>) (locked_init\<lparr>l_streams := ?s2\<rparr>)"
    using locked_step.Begin [of 8 "locked_init\<lparr>l_streams := ?s1\<rparr>"]
    by (simp add: streams_init_def system_init_def poll_begin_def)
  have s3: "locked_step (locked_init\<lparr>l_streams := ?s2\<rparr>) ?y3"
    using locked_step.End [of 8 "locked_init\<lparr>l_streams := ?s2\<rparr>"]
    by (simp add: locked_init_def streams_init_def system_init_def poll_iter_def poll_end_def)
  have s4: "locked_step ?y3 ?y4"
    using locked_step.PingCall [of 7 ?y3 5 "ping_command 5"] by (simp add: locked_init_def poll_iter_def)
  have s5: "locked_step ?y4 ?y5"
    using locked_step.Acquire [of ?y4 "Pinger 7" 7 "ping_command 5"] by (simp add: locked_init_def mu_Lock_def)
  note r = locked_reachable.Step [OF locked_reachable.Step [OF locked_reachable.Step [OF
    locked_reachable.Step [OF locked_reachable.Step [OF locked_reachable.Init s1] s2] s3] s4] s5]
  have l: "latest (l_streams ?y5) = None" by (simp add: latest_def streams_init_def)
  have u: "(\<Union>k. set (wire_ids ?y5 k)) = {}" by (simp add: wire_ids_def locked_init_def)
  have w: "writing 7 (l_pc ?y5 (Pinger 7))" by simp
  from conjunct1 [OF command_streams [OF r]] have "\<forall>x. writing 7 (l_pc ?y5 x) \<longrightarrow> x = Pinger 7" using w by blast
  then show ?thesis using r w l u by (intro exI [of _ ?y5] conjI) assumption+
qed

end
