(* ===== verification/SupervisorThreads.thy ===== *)
theory SupervisorThreads
  imports Supervisor Steps
begin

section \<open>The goroutines of the supervisor\<close>

text \<open>
  \<open>Run\<close> of internal/mop/supervisor.go after the \<open>Init\<close> phase: a goroutine per worker, the wait group
  they share, and the caller, which waits for the end of the context and then for the wait group, at most
  30 seconds. Workers are numbered in the order of their \<open>Init\<close>; every goroutine keeps the trace of what
  \<open>superviseRun\<close> does.
\<close>

datatype wpc = WCheck | WRun | WRan "gerror option" | WSleep "gerror option" | WDone

datatype mpc = MWait | MDrain | MReturned "gerror option"

record sup =
  u_pc :: "nat \<Rightarrow> wpc"
  u_backoff :: "nat \<Rightarrow> i64"
  u_trace :: "nat \<Rightarrow> sup_event list"
  u_wg :: nat
  u_ctx :: bool
  u_main :: mpc

definition sup_init :: "nat \<Rightarrow> sup" where
  "sup_init n = \<lparr>u_pc = (\<lambda>_. WCheck), u_backoff = (\<lambda>_. base_backoff), u_trace = (\<lambda>_. []), u_wg = n,
     u_ctx = False, u_main = MWait\<rparr>"

text \<open>Worker \<open>i\<close> goes on to \<open>pc\<close> with the back-off \<open>b\<close> after the events \<open>es\<close>; at its end it leaves the
  wait group.\<close>

definition worker_to :: "nat \<Rightarrow> wpc \<Rightarrow> i64 \<Rightarrow> sup_event list \<Rightarrow> sup \<Rightarrow> sup" where
  "worker_to i pc b es s = s\<lparr>u_pc := (u_pc s)(i := pc), u_backoff := (u_backoff s)(i := b),
     u_trace := (u_trace s)(i := u_trace s i @ es), u_wg := u_wg s - (if pc = WDone then 1 else 0)\<rparr>"

definition exit_event :: "gerror option \<Rightarrow> i64 \<Rightarrow> sup_event" where
  "exit_event r b = (case r of Some e \<Rightarrow> ExitError e b | None \<Rightarrow> ExitWarn b)"

definition shutdown_error :: gerror where
  "shutdown_error = ErrText ''shutdown timeout: workers still running after 30s''"

text \<open>\<open>Finish\<close>: the worker's \<open>Run\<close> returns \<open>r\<close>; \<open>Timeout\<close>: 30 seconds after the end of the context.\<close>

datatype ulabel = UCtx | UStart nat | UTimeout | UOther

inductive sup_step :: "nat \<Rightarrow> sup \<Rightarrow> ulabel \<Rightarrow> sup \<Rightarrow> bool" for n where
  Ctx: "\<not> u_ctx s \<Longrightarrow> sup_step n s UCtx (s\<lparr>u_ctx := True\<rparr>)"
| Check: "i < n \<Longrightarrow> u_pc s i = WCheck \<Longrightarrow> \<not> u_ctx s \<Longrightarrow>
    sup_step n s (UStart i) (worker_to i WRun (u_backoff s i) [WorkerRun] s)"
| CheckEnd: "i < n \<Longrightarrow> u_pc s i = WCheck \<Longrightarrow> u_ctx s \<Longrightarrow>
    sup_step n s UOther (worker_to i WDone (u_backoff s i) [Returned] s)"
| Finish: "i < n \<Longrightarrow> u_pc s i = WRun \<Longrightarrow> sup_step n s UOther (worker_to i (WRan r) (u_backoff s i) [] s)"
| Ran: "i < n \<Longrightarrow> u_pc s i = WRan r \<Longrightarrow> \<not> u_ctx s \<Longrightarrow>
    sup_step n s UOther (worker_to i (WSleep r) (u_backoff s i) [exit_event r (u_backoff s i)] s)"
| RanEnd: "i < n \<Longrightarrow> u_pc s i = WRan r \<Longrightarrow> u_ctx s \<Longrightarrow>
    sup_step n s UOther (worker_to i WDone (u_backoff s i) [Returned] s)"
| Wake: "i < n \<Longrightarrow> u_pc s i = WSleep r \<Longrightarrow>
    sup_step n s UOther (worker_to i WCheck (next_backoff (u_backoff s i)) [Waited (u_backoff s i)] s)"
| WakeEnd: "i < n \<Longrightarrow> u_pc s i = WSleep r \<Longrightarrow> u_ctx s \<Longrightarrow>
    sup_step n s UOther (worker_to i WDone (u_backoff s i) [Returned] s)"
| Drain: "u_main s = MWait \<Longrightarrow> u_ctx s \<Longrightarrow> sup_step n s UOther (s\<lparr>u_main := MDrain\<rparr>)"
| Drained: "u_main s = MDrain \<Longrightarrow> u_wg s = 0 \<Longrightarrow> sup_step n s UOther (s\<lparr>u_main := MReturned None\<rparr>)"
| Timeout: "u_main s = MDrain \<Longrightarrow> sup_step n s UTimeout (s\<lparr>u_main := MReturned (Some shutdown_error)\<rparr>)"

abbreviation sup_run :: "nat \<Rightarrow> sup \<Rightarrow> ulabel list \<Rightarrow> sup \<Rightarrow> bool" where
  "sup_run n \<equiv> steps (sup_step n)"

lemmas sup_run_Nil = steps.Nil [of "sup_step n" for n]
  and sup_run_Step = steps.Step [of "sup_step n" for n]

subsection \<open>Every goroutine runs the supervision loop\<close>

text \<open>A round without the end of the context.\<close>

definition full_round :: "gerror option \<Rightarrow> round" where
  "full_round r = \<lparr>ctx_before = False, run_err = r, ctx_after = False, ctx_in_wait = False\<rparr>"

lemma supervise_loop_append:
  "supervise_loop b (map full_round es @ rs) =
   supervise_loop b (map full_round es) @ supervise_loop ((next_backoff ^^ length es) b) rs"
  by (induction es arbitrary: b) (simp_all add: full_round_def funpow_swap1)

text \<open>The trace of a worker that has completed the rounds \<open>es\<close>.\<close>

definition worker_ok :: "wpc \<Rightarrow> i64 \<Rightarrow> sup_event list \<Rightarrow> bool \<Rightarrow> bool" where
  "worker_ok pc b tr c \<longleftrightarrow> (if pc = WDone then c \<and> (\<exists>rs. tr = superviseRun rs)
     else (\<exists>es. b = (next_backoff ^^ length es) base_backoff
       \<and> tr = supervise_loop base_backoff (map full_round es) @ (case pc of
           WCheck \<Rightarrow> [] | WSleep r \<Rightarrow> [WorkerRun, exit_event r b] | _ \<Rightarrow> [WorkerRun])))"

lemma superviseRun_stop:
  "superviseRun (map full_round es @ [r]) = supervise_loop base_backoff (map full_round es)
     @ supervise_loop ((next_backoff ^^ length es) base_backoff) [r]"
  unfolding superviseRun_def by (rule supervise_loop_append)

lemma worker_ok_start: "worker_ok WCheck base_backoff [] c"
  by (auto simp: worker_ok_def intro!: exI [of _ "[]"])

lemma worker_ok_run: "worker_ok WCheck b tr c \<Longrightarrow> worker_ok WRun b (tr @ [WorkerRun]) c"
  by (auto simp: worker_ok_def)

lemma worker_ok_ran: "worker_ok WRun b tr c \<Longrightarrow> worker_ok (WRan r) b tr c"
  by (auto simp: worker_ok_def)

lemma worker_ok_sleep: "worker_ok (WRan r) b tr c \<Longrightarrow> worker_ok (WSleep r) b (tr @ [exit_event r b]) c"
  by (auto simp: worker_ok_def)

lemmas worker_ok_moves = worker_ok_start worker_ok_run worker_ok_ran worker_ok_sleep

lemma worker_ok_wake:
  assumes "worker_ok (WSleep r) b tr c"
  shows "worker_ok WCheck (next_backoff b) (tr @ [Waited b]) c"
proof -
  obtain es where es: "b = (next_backoff ^^ length es) base_backoff"
    "tr = supervise_loop base_backoff (map full_round es) @ [WorkerRun, exit_event r b]"
    using assms by (auto simp: worker_ok_def)
  have "supervise_loop base_backoff (map full_round (es @ [r])) = tr @ [Waited b]"
    using supervise_loop_append [of base_backoff es "[full_round r]"] es
    by (simp add: full_round_def exit_event_def)
  then show ?thesis using es(1) unfolding worker_ok_def by (auto intro!: exI [of _ "es @ [r]"])
qed

text \<open>The end of the context ends the loop, before a run, after it, or during the wait.\<close>

lemma worker_ok_end:
  assumes "worker_ok pc b tr True" and "pc \<noteq> WDone" and "pc \<noteq> WRun"
  shows "worker_ok WDone b' (tr @ [Returned]) True"
proof -
  obtain es where es: "b = (next_backoff ^^ length es) base_backoff"
    "tr = supervise_loop base_backoff (map full_round es) @ (case pc of
           WCheck \<Rightarrow> [] | WSleep r \<Rightarrow> [WorkerRun, exit_event r b] | _ \<Rightarrow> [WorkerRun])"
    using assms by (auto simp: worker_ok_def)
  define last where "last = (case pc of
      WCheck \<Rightarrow> \<lparr>ctx_before = True, run_err = None, ctx_after = False, ctx_in_wait = False\<rparr>
    | WSleep r \<Rightarrow> \<lparr>ctx_before = False, run_err = r, ctx_after = False, ctx_in_wait = True\<rparr>
    | _ \<Rightarrow> \<lparr>ctx_before = False, run_err = None, ctx_after = True, ctx_in_wait = False\<rparr>)"
  have "superviseRun (map full_round es @ [last]) = tr @ [Returned]"
    unfolding superviseRun_stop es using assms(2,3) by (cases pc) (simp_all add: last_def exit_event_def es(1))
  then show ?thesis unfolding worker_ok_def by (auto intro: sym)
qed

lemma worker_ok_ctx: "worker_ok pc b tr c \<Longrightarrow> worker_ok pc b tr True"
  by (auto simp: worker_ok_def)

definition sup_inv :: "nat \<Rightarrow> sup \<Rightarrow> bool" where
  "sup_inv n s \<longleftrightarrow> (\<forall>i < n. worker_ok (u_pc s i) (u_backoff s i) (u_trace s i) (u_ctx s))
     \<and> u_wg s = card {i. i < n \<and> u_pc s i \<noteq> WDone}
     \<and> (u_main s \<noteq> MWait \<longrightarrow> u_ctx s) \<and> (u_main s = MReturned None \<longrightarrow> (\<forall>i < n. u_pc s i = WDone))"

lemma worker_to_simps [simp]:
  "u_pc (worker_to i pc b es s) = (u_pc s)(i := pc)" "u_backoff (worker_to i pc b es s) = (u_backoff s)(i := b)"
  "u_trace (worker_to i pc b es s) = (u_trace s)(i := u_trace s i @ es)"
  "u_wg (worker_to i pc b es s) = u_wg s - (if pc = WDone then 1 else 0)"
  "u_ctx (worker_to i pc b es s) = u_ctx s" "u_main (worker_to i pc b es s) = u_main s"
  by (simp_all add: worker_to_def)

lemma wg_move:
  assumes "i < n" "f i \<noteq> WDone"
  shows "card {j. j < n \<and> (f(i := pc)) j \<noteq> WDone} = card {j. j < n \<and> f j \<noteq> WDone} - (if pc = WDone then 1 else 0)"
proof (cases "pc = WDone")
  case True
  have "{j. j < n \<and> (f(i := pc)) j \<noteq> WDone} = {j. j < n \<and> f j \<noteq> WDone} - {i}" using True by auto
  then show ?thesis using True assms by simp
next
  case False
  then have "{j. j < n \<and> (f(i := pc)) j \<noteq> WDone} = {j. j < n \<and> f j \<noteq> WDone}" using assms by auto
  then show ?thesis using False by simp
qed

text \<open>A step of one worker keeps the invariant if it keeps that worker's.\<close>

lemma sup_inv_worker:
  assumes "sup_inv n s" "i < n" "u_pc s i \<noteq> WDone" "worker_ok pc b (u_trace s i @ es) (u_ctx s)"
  shows "sup_inv n (worker_to i pc b es s)"
proof -
  have "u_main s \<noteq> MReturned None" using assms(1-3) by (auto simp: sup_inv_def)
  then show ?thesis
    using assms wg_move [OF assms(2), of "u_pc s" pc] unfolding sup_inv_def worker_to_simps by simp
qed

lemma sup_step_inv: "sup_step n s l t \<Longrightarrow> sup_inv n s \<Longrightarrow> sup_inv n t"
proof (induction rule: sup_step.induct)
  case (Ctx s)
  then show ?case using worker_ok_ctx by (auto simp: sup_inv_def)
next
  case (Drained s)
  then have "card {i. i < n \<and> u_pc s i \<noteq> WDone} = 0" by (simp add: sup_inv_def)
  then have "\<forall>i < n. u_pc s i = WDone" by auto
  then show ?case using Drained by (auto simp: sup_inv_def)
next
  case (Check i s)
  then have "worker_ok WCheck (u_backoff s i) (u_trace s i) (u_ctx s)" by (auto simp: sup_inv_def)
  then show ?case using Check by (intro sup_inv_worker) (auto intro: worker_ok_moves)
next
  case (CheckEnd i s)
  then have "worker_ok WCheck (u_backoff s i) (u_trace s i) True" by (auto simp: sup_inv_def)
  then show ?case using CheckEnd by (intro sup_inv_worker) (auto dest: worker_ok_end)
next
  case (Finish i s r)
  then have "worker_ok WRun (u_backoff s i) (u_trace s i) (u_ctx s)" by (auto simp: sup_inv_def)
  then show ?case using Finish by (intro sup_inv_worker) (auto intro: worker_ok_moves)
next
  case (Ran i s r)
  then have "worker_ok (WRan r) (u_backoff s i) (u_trace s i) (u_ctx s)" by (auto simp: sup_inv_def)
  then show ?case using Ran by (intro sup_inv_worker) (auto intro: worker_ok_moves)
next
  case (RanEnd i s r)
  then have "worker_ok (WRan r) (u_backoff s i) (u_trace s i) True" by (auto simp: sup_inv_def)
  then show ?case using RanEnd by (intro sup_inv_worker) (auto dest: worker_ok_end)
next
  case (Wake i s r)
  then have "worker_ok (WSleep r) (u_backoff s i) (u_trace s i) (u_ctx s)" by (auto simp: sup_inv_def)
  then show ?case using Wake by (intro sup_inv_worker) (auto intro: worker_ok_wake)
next
  case (WakeEnd i s r)
  then have "worker_ok (WSleep r) (u_backoff s i) (u_trace s i) True" by (auto simp: sup_inv_def)
  then show ?case using WakeEnd by (intro sup_inv_worker) (auto dest: worker_ok_end)
qed (auto simp: sup_inv_def)

interpretation sup: invariant_system "sup_step n" "sup_inv n" for n
  by unfold_locales (rule sup_step_inv)

lemma sup_inv_init: "sup_inv n (sup_init n)"
  by (simp add: sup_inv_def sup_init_def worker_ok_moves(1))

subsection \<open>Shutdown\<close>

text \<open>The steps left to a goroutine once the context has ended.\<close>

fun wrank :: "wpc \<Rightarrow> nat" where
  "wrank WCheck = 1" | "wrank WRun = 2" | "wrank (WRan r) = 1" | "wrank (WSleep r) = 2" | "wrank WDone = 0"

fun mrank :: "mpc \<Rightarrow> nat" where
  "mrank MWait = 2" | "mrank MDrain = 1" | "mrank (MReturned r) = 0"

definition sup_rank :: "nat \<Rightarrow> sup \<Rightarrow> nat" where
  "sup_rank n s = (\<Sum>i<n. wrank (u_pc s i)) + mrank (u_main s)"

lemma sup_rank_bound: "sup_rank n s \<le> 2 * n + 2"
proof -
  have "wrank pc \<le> 2" for pc by (cases pc) simp_all
  then have "(\<Sum>i<n. wrank (u_pc s i)) \<le> (\<Sum>i<n. 2)" by (intro sum_mono) simp
  moreover have "mrank (u_main s) \<le> 2" by (cases "u_main s") simp_all
  ultimately show ?thesis by (simp add: sup_rank_def)
qed

lemma sum_move:
  assumes "i < (n :: nat)" "wrank pc < wrank (f i)"
  shows "(\<Sum>j<n. wrank ((f(i := pc)) j)) < (\<Sum>j<n. wrank (f j))"
  by (rule sum_strict_mono_ex1) (use assms in auto)

lemma worker_rank:
  assumes "i < n" "wrank pc < wrank (u_pc s i)"
  shows "sup_rank n (worker_to i pc b es s) < sup_rank n s"
  using sum_move [OF assms(1), of pc "u_pc s"] assms(2) unfolding sup_rank_def worker_to_simps by simp

lemma sup_step_rank:
  "sup_step n s l t \<Longrightarrow> u_ctx s \<Longrightarrow> sup_rank n t < sup_rank n s \<and> u_ctx t \<and> (\<forall>i. l \<noteq> UStart i)"
proof (induction rule: sup_step.induct)
  case (CheckEnd i s)
  then show ?case by (simp add: worker_rank)
next
  case (Finish i s r)
  then show ?case by (simp add: worker_rank)
next
  case (RanEnd i s r)
  then show ?case by (simp add: worker_rank)
next
  case (Wake i s r)
  then show ?case by (simp add: worker_rank)
next
  case (WakeEnd i s r)
  then show ?case by (simp add: worker_rank)
qed (simp_all add: sup_rank_def)

definition drained :: "nat \<Rightarrow> sup \<Rightarrow> bool" where
  "drained n s \<longleftrightarrow> (\<forall>i<n. u_pc s i = WDone) \<and> (\<exists>r. u_main s = MReturned r)"

text \<open>While a goroutine is left, a step is possible.\<close>

lemma sup_progress:
  assumes "u_ctx s" and inv: "sup_inv n s" and stuck: "\<And>l t. \<not> sup_step n s l t"
  shows "drained n s"
  unfolding drained_def
proof
  have "u_pc s i = WDone" if "i < n" for i
    using stuck sup_step.CheckEnd [OF that] sup_step.Finish [OF that] sup_step.RanEnd [OF that] sup_step.WakeEnd [OF that]
      assms(1) by (cases "u_pc s i") blast+
  then show all: "\<forall>i<n. u_pc s i = WDone" by blast
  have "u_wg s = 0" using inv all by (simp add: sup_inv_def)
  then show "\<exists>r. u_main s = MReturned r"
    using stuck sup_step.Drain [of s n] sup_step.Drained [of s n] assms(1) by (cases "u_main s") blast+
qed

interpretation down: draining "sup_step n" "\<lambda>s. u_ctx s \<and> sup_inv n s" "sup_rank n" "drained n" for n
proof
  fix s t l
  assume "sup_step n s l t" "u_ctx s \<and> sup_inv n s"
  then show "u_ctx t \<and> sup_inv n t" "sup_rank n t < sup_rank n s"
    using sup_step_rank sup_step_inv by blast+
next
  fix s
  assume "u_ctx s \<and> sup_inv n s" "\<not> drained n s"
  then show "\<exists>l t. sup_step n s l t" using sup_progress by blast
qed

text \<open>Only the timeout makes the caller return an error.\<close>

lemma no_timeout:
  "sup_run n s ls t \<Longrightarrow> UTimeout \<notin> set ls \<Longrightarrow> (\<forall>e. u_main s \<noteq> MReturned (Some e)) \<Longrightarrow> u_main t \<noteq> MReturned (Some e)"
proof (induction rule: steps_snoc_induct)
  case (Snoc ls t l u)
  then show ?case by (auto elim: sup_step.cases)
qed simp

subsection \<open>Properties\<close>

text \<open>C24: The goroutines of the supervisor. In every interleaving, the trace of a worker whose goroutine
  has ended is one of the supervision loop, so its waits are those of the back-off; the supervisor
  returns without error only when every goroutine has ended; and once the context has ended, no worker is started
  again.\<close>

theorem supervisor_goroutines:
  assumes "sup_run n (sup_init n) ls s"
  shows "(\<forall>i<n. u_pc s i = WDone \<longrightarrow> (\<exists>rs. u_trace s i = superviseRun rs))
    \<and> (u_main s = MReturned None \<longrightarrow> u_ctx s \<and> (\<forall>i<n. u_pc s i = WDone))
    \<and> (u_ctx s \<longrightarrow> (\<forall>i t. \<not> sup_step n s (UStart i) t))"
proof -
  have inv: "sup_inv n s" by (rule sup.inv_steps [OF assms sup_inv_init])
  have "\<exists>rs. u_trace s i = superviseRun rs" if "i < n" "u_pc s i = WDone" for i
  proof -
    have "worker_ok WDone (u_backoff s i) (u_trace s i) (u_ctx s)" using inv that by (auto simp: sup_inv_def)
    then show ?thesis by (simp add: worker_ok_def)
  qed
  moreover have "\<not> sup_step n s (UStart i) t" if "u_ctx s" for i t
    using sup_step_rank [OF _ that, of n "UStart i" t] by blast
  moreover have "u_ctx s \<and> (\<forall>i<n. u_pc s i = WDone)" if "u_main s = MReturned None"
    using inv that by (simp add: sup_inv_def)
  ultimately show ?thesis by blast
qed

text \<open>C22: Shutdown. Once the context has ended and the \<open>Run\<close> of every worker returns, at most \<open>2 n + 2\<close> more
  steps are possible for \<open>n\<close> workers; when no more is, every goroutine has ended and the supervisor has returned,
  without an error unless the 30 seconds were over first.\<close>

theorem shutdown_drains:
  assumes "sup_run n (sup_init n) ls s" and "u_ctx s" and "sup_run n s ls' t"
  shows "length ls' \<le> 2 * n + 2
    \<and> ((\<forall>l u. \<not> sup_step n t l u) \<longrightarrow> (\<forall>i<n. u_pc t i = WDone)
        \<and> (\<exists>r. u_main t = MReturned r \<and> (UTimeout \<notin> set (ls @ ls') \<longrightarrow> r = None)))"
proof -
  have s: "u_ctx s \<and> sup_inv n s" using sup.inv_steps [OF assms(1) sup_inv_init] assms(2) by blast
  have "u_main t \<noteq> MReturned (Some e)" if "UTimeout \<notin> set (ls @ ls')" for e
    using no_timeout [OF steps_append [OF assms(1,3)] that] by (simp add: sup_init_def)
  then have res: "r = None" if "UTimeout \<notin> set (ls @ ls')" "u_main t = MReturned r" for r
    using that by (cases r) auto
  have "length ls' \<le> 2 * n + 2" using down.bounded [OF assms(3) s] sup_rank_bound [of n s] by simp
  moreover have "drained n t" if "\<forall>l u. \<not> sup_step n t l u" using down.maximal_final [OF assms(3) s] that by blast
  ultimately show ?thesis using res unfolding drained_def by metis
qed

text \<open>One worker, which fails once, is asked to stop during its wait, and drained.\<close>

definition demo_sup :: sup where
  "demo_sup = \<lparr>u_pc = (\<lambda>_. WCheck)(0 := WSleep None), u_backoff = (\<lambda>_. base_backoff),
     u_trace = (\<lambda>_. [])(0 := [WorkerRun, ExitWarn base_backoff]), u_wg = 1, u_ctx = True, u_main = MWait\<rparr>"

lemma demo_sup_run: "sup_run 1 (sup_init 1) [UStart 0, UOther, UOther, UCtx] demo_sup"
proof -
  let ?s1 = "worker_to 0 WRun base_backoff [WorkerRun] (sup_init 1)"
  let ?s2 = "worker_to 0 (WRan None) base_backoff [] ?s1"
  let ?s3 = "worker_to 0 (WSleep None) base_backoff [exit_event None base_backoff] ?s2"
  have "sup_step 1 (sup_init 1) (UStart 0) ?s1" using sup_step.Check [of 0 1 "sup_init 1"] by (simp add: sup_init_def)
  moreover have "sup_step 1 ?s1 UOther ?s2" using sup_step.Finish [of 0 1 ?s1 None] by (simp add: sup_init_def)
  moreover have "sup_step 1 ?s2 UOther ?s3" using sup_step.Ran [of 0 1 ?s2 None] by (simp add: sup_init_def)
  moreover have "sup_step 1 ?s3 UCtx (?s3\<lparr>u_ctx := True\<rparr>)" using sup_step.Ctx [of ?s3 1] by (simp add: sup_init_def)
  moreover have "?s3\<lparr>u_ctx := True\<rparr> = demo_sup"
    by (simp add: worker_to_def demo_sup_def sup_init_def exit_event_def fun_upd_idem)
  ultimately show ?thesis
    using sup_run_Step [OF _ sup_run_Step [OF _ sup_run_Step [OF _ sup_run_Step [OF _ sup_run_Nil]]]] by fastforce
qed

definition demo_drained :: sup where
  "demo_drained = (worker_to 0 WDone base_backoff [Returned] demo_sup)\<lparr>u_main := MReturned None\<rparr>"

lemma demo_drained_run: "sup_run 1 demo_sup [UOther, UOther, UOther] demo_drained"
proof -
  let ?s1 = "worker_to 0 WDone base_backoff [Returned] demo_sup"
  have "sup_step 1 demo_sup UOther ?s1" using sup_step.WakeEnd [of 0 1 demo_sup None] by (simp add: demo_sup_def)
  moreover have "sup_step 1 ?s1 UOther (?s1\<lparr>u_main := MDrain\<rparr>)" using sup_step.Drain [of ?s1 1] by (simp add: demo_sup_def)
  moreover have "sup_step 1 (?s1\<lparr>u_main := MDrain\<rparr>) UOther demo_drained"
    using sup_step.Drained [of "?s1\<lparr>u_main := MDrain\<rparr>" 1] by (simp add: demo_sup_def demo_drained_def)
  ultimately show ?thesis
    using sup_run_Step [OF _ sup_run_Step [OF _ sup_run_Step [OF _ sup_run_Nil]]] by fastforce
qed

theorem supervisor_goroutines_witness:
  "\<exists>s rs. sup_run 1 (sup_init 1) ([UStart 0, UOther, UOther, UCtx] @ [UOther, UOther, UOther]) s
     \<and> u_main s = MReturned None \<and> u_trace s 0 = superviseRun rs \<and> u_trace s 0 = [WorkerRun, ExitWarn base_backoff, Returned]"
proof -
  note run = steps_append [OF demo_sup_run demo_drained_run]
  have "u_pc demo_drained 0 = WDone" "u_main demo_drained = MReturned None"
    "u_trace demo_drained 0 = [WorkerRun, ExitWarn base_backoff, Returned]"
    by (simp_all add: demo_drained_def demo_sup_def worker_to_def)
  then show ?thesis using supervisor_goroutines [OF run] run by (metis less_one)
qed

theorem shutdown_drains_witness:
  "\<exists>ls. sup_run 1 demo_sup ls demo_drained \<and> length ls \<le> 4 \<and> u_main demo_drained = MReturned None \<and> u_pc demo_drained 0 = WDone"
proof -
  have stuck: "\<forall>l u. \<not> sup_step 1 demo_drained l u"
    by (auto elim!: sup_step.cases simp: demo_drained_def demo_sup_def worker_to_def)
  have "u_ctx demo_sup" by (simp add: demo_sup_def)
  from shutdown_drains [OF demo_sup_run this demo_drained_run] stuck demo_drained_run show ?thesis
    by (intro exI [of _ "[UOther, UOther, UOther]"]) auto
qed

end
