(* ===== verification/Spec2Isabelle.thy ===== *)
theory Spec2Isabelle
  imports Bus Config Supervisor Smtp BatchSystem BatchReports SysLoad Tor TunnelClient TunnelWorker
    Workers Proxy Egress StubParse ParentStub Program RunnerContract BatchDelivery BatchDedup SessionThreads
    WorkerLoops StubStreams StubSend SupervisorThreads
begin

section \<open>miniMiniHub: a verification development\<close>

text \<open>
  The program. miniMiniHub (src/cmd/miniminihub) is a small agent. A supervisor (src/internal/mop) runs
  its workers (src/internal/worker), which share a local bbolt database (src/internal/store), an
  in-process bus (src/internal/bus), a bootstrap configuration (src/internal/config) and one gRPC
  channel to a parent (src/internal/tunnel). The tunnel worker sends heartbeats and puts the commands of
  the parent on the bus; the role workers take them: proxy (egress connections and tor rotation),
  smtp (delivery to an MX), batch (cron jobs run by the agents of src/internal/batch, whose reports go
  through a durable queue). The other end used by the repository is src/cmd/parent-stub, a parent with a
  SOCKS5 and an HTTP CONNECT proxy whose connections leave through the agent.

  Theories, from the bottom up.

  \<^item> \<open>Prelude\<close>: bytes, words, errors as values, generic lemmas and collections. \<open>Steps\<close>: runs of step
    relations, with the locales \<open>invariant_system\<close> and \<open>draining\<close>. \<open>GoStd\<close>, \<open>GoText\<close>,
    \<open>GoBufio\<close>, \<open>Json\<close>, \<open>Float64\<close>: the parts of the Go standard library the source uses (encoding/binary,
    strconv, base64, hex, strings, net.JoinHostPort, bufio, encoding/json, IEEE arithmetic), as
    executable functions with their round trips. \<open>Proto\<close>: the messages of proto/mmhpb.
  \<^item> \<open>Bolt\<close>, \<open>Store\<close>, \<open>Queue\<close>: store.go, blob.go, queue.go. A bucket is an abstract type with the laws of
    the locale \<open>bolt_bucket\<close>; a write transaction commits as a whole or not at all, and any commit
    may fail. \<open>QueueContract\<close> and \<open>StoreContract\<close> state what clients rely on: the locales
    \<open>durable_queue\<close>, \<open>reliable_queue\<close> and \<open>counters\<close>, interpreted on the store, the refinement of an
    abstract queue, at-least-once delivery, exclusive leases, exact counters, an append-only journal.
  \<^item> \<open>Bus\<close>, \<open>Config\<close>, \<open>Supervisor\<close>: bus.go, config.go, mop.go and supervisor.go. \<open>SupervisorThreads\<close>: the
    goroutines of the supervisor, its wait group and the shutdown, as a step relation that drains.
  \<^item> \<open>Runner\<close>: prompt.go and runner.go; \<open>RunnerContract\<close>: the locale \<open>runner\<close>, interpreted on the three
    runners. \<open>BatchWorker\<close>: batch.go, one definition per method. \<open>BatchContract\<close>, \<open>BatchReports\<close>: its
    operations; \<open>BatchSystem\<close>: all interleavings of its goroutines with crashes, as a step relation
    with invariants over reachable states. \<open>BatchDelivery\<close>: a finer relation with the parent and the clock,
    which it refines; a report stays queued until the parent has answered it without an error, or refused
    it for good (what the parent answers and whether it stores the report are unrelated, since the
    code ignores \<open>ResultAck\<close>). \<open>BatchDedup\<close>: the run number tells reports apart at the parent, while the
    counter of run numbers can be written (locale \<open>run_counter\<close>).
  \<^item> \<open>Smtp\<close>: smtp.go from the recipient check to the classification of the outcome.
  \<^item> \<open>SysLoad\<close>, \<open>Tor\<close>: sysload.go and tor.go. \<open>TunnelClient\<close>: client.go. \<open>TunnelWorker\<close>: tunnel.go; a session is
    a sequence of events (tick, command, errors, end of the context). \<open>SessionThreads\<close>: the goroutines of
    a session and its error channel; they do what the sequence does, and they end. \<open>Workers\<close>: state.go
    and the \<open>Init\<close>, \<open>Run\<close> and \<open>report\<close> of smtp.go. \<open>WorkerLoops\<close>: \<open>Run\<close> of batch.go and proxy.go.
  \<^item> \<open>Relay\<close>, \<open>Proxy\<close>, \<open>Egress\<close>: proxy.go; the two relaying loops, the handler, and the joint runs of the
    exit node and the parent on one connection.
  \<^item> \<open>Program\<close>: main.go of the agent. \<open>StubParse\<close>, \<open>ParentStub\<close>: main.go of the parent stub; the parsing
    of requests, and the table of waiting clients under any interleaving of its goroutines.
    \<open>StubStreams\<close>: its accept loops and the command streams of its children. \<open>StubSend\<close>: the mutex of a
    stream, with a send as waiting, writing and returning.

  How code becomes definitions. A Go struct is a record, a method a function with the state passed
  through, \<open>error\<close> a value of \<open>gerror\<close> (absent is \<open>None\<close>), a pair of value and error that exclude each
  other a sum. \<open>int\<close>, \<open>int64\<close> and \<open>uint64\<close> are 64-bit words and wrap as in Go; \<open>int32\<close>, \<open>uint32\<close> and
  \<open>uint16\<close> have their width. \<open>float64\<close> is the exact rational of the value, rounded to 53 bits
  after each operation. A panic is an outcome of its own. Goroutines are events of a step relation
  or of a sequence, and the granularity is that of the code's locks, transactions and channel operations,
  with these exceptions: the handling of a command and the sending of a heartbeat are one event of a session
  (they touch the store only through atomic increments and appends, and the bus through
  atomic publications), and a firing of a job is its start (compare and swap, run number) and its
  end (run, report, release of the flag). \<open>BatchSystem\<close> takes the push of a report and its settlement as one
  step; \<open>BatchDelivery\<close> separates them. Two views of the same code are connected by theorems: runs
  of \<open>BatchDelivery\<close> are runs of \<open>BatchSystem\<close>, the goroutines of a session do what the sequential
  session does, each goroutine of the supervisor does what \<open>superviseRun\<close> does alone, and runs of
  \<open>StubSend\<close> are runs of \<open>StubStreams\<close>, whose sends are one step.

  Arguments of the definitions stand for what is not under src/: bbolt (\<open>'b bolt\<close>), the protobuf wire
  format (\<open>'a codec\<close>), gRPC calls and streams (functions and lists of answers), the TLS library, the
  resolver and the SMTP dialogue, processes and HTTP of the runners, templates, the cron parser, sockets,
  files, the environment, the clock, and Unicode tables beyond ASCII. Named hypotheses about them are
  only documented behaviour: the bucket laws, that a marshalled message unmarshals to itself, and
  where a theorem says so the absence of write faults. That a file keeps what was committed is a matter of
  bbolt: \<open>Open\<close> reads the buckets its argument for \<open>bolt.Open\<close> returns, and \<open>Close\<close> only calls bbolt. The loop of \<open>QueueLease\<close> puts elements while its
  cursor traverses the bucket; the model takes the traversal to be that of the bucket before the puts.

  Loops. Structural recursion or a \<open>termination\<close> proof everywhere; no definition takes fuel. A loop that
  serves until its environment stops it (supervision, polling, heartbeats, relaying, worker loops) is
  a function of the list of what its environment does, and the result says whether it is still running.

  Bounds in statements come from the code: 128 messages per channel, leases of 60 s, 5 reports per
  tick and 20 attempts of one report, of which the last comes at least 285 s after the first
  (the sum of the back-offs), two errors in \<open>errCh\<close>, at most seven steps of a session and \<open>2 n + 2\<close> of a
  supervisor with \<open>n\<close> workers after the end of the context, buffers of 32 KiB and lines below 64 KiB, 9223372036854 ms as the
  longest interval that fits a \<open>time.Duration\<close>.

  Not modelled: log output; the generated gRPC glue and the reflection of the messages; TLS, HTTP/2 and
  cryptography; what \<open>Serve\<close> and \<open>GracefulStop\<close> of gRPC do (the stub is modelled up to the answer of
  \<open>Serve\<close> and its exit status); signal handling other than
  as the end of the context; data races inside one step (the source guards shared data with locks and
  atomics, which the steps take as atomic); memory exhaustion; the tests, the shell scripts of
  deploy and the documents.
\<close>

section \<open>Across components\<close>

text \<open>
  A command joins the messages that wait for the one subscriber of its topic, unless 128 wait; and
  what a worker takes that receives again and again.
\<close>

lemma command_joins:
  assumes "bus_ok (ag_bus a)" "ch \<in> set (subs (ag_bus a) t)" "length (chans (ag_bus a) ch) < 128"
    and "msg_of cmd = Some m" "topic_of m = t"
  shows "chans (ag_bus (handleCommand B now cmd a)) ch = chans (ag_bus a) ch @ [m]"
  using assms by (simp add: handleCommand_bus Publish_chan [OF assms(1)] chan_cap_def)

lemma take_all:
  "chans (ag_bus a) ch = ms @ rest \<Longrightarrow> taken B ch (replicate (length ms) (Take ch)) a = ms"
proof (induction ms arbitrary: a)
  case (Cons m ms)
  then show ?case by (simp add: Receive_def)
qed simp

lemma command_is_next:
  assumes "bus_ok (ag_bus a)" "Subscribe t (ag_bus a) = (ch, b)"
    and "msg_of cmd = Some m" "topic_of m = t"
  shows "fst (Receive ch (ag_bus (handleCommand B now cmd (a\<lparr>ag_bus := b\<rparr>)))) = Some m"
proof -
  note b = subscribed [OF assms(1,2)]
  have "chans (ag_bus (handleCommand B now cmd (a\<lparr>ag_bus := b\<rparr>))) ch = [m]"
    using command_joins [of "a\<lparr>ag_bus := b\<rparr>" ch t cmd m] b assms(3,4) by simp
  then show ?thesis by (simp add: Receive_def)
qed

lemma proxy_target_port:
  "proxy_target \<lparr>ConnId = i, Host = host, Port = ucast (port :: u16), ViaTor = v\<rparr> = JoinHostPort host (dec_nat (unat port))"
proof -
  have "unat port < 65536" using unsigned_less [of port] by simp
  then have "unat (ucast port :: u32) = unat port" by (simp add: unsigned_ucast_eq take_bit_nat_eq_self)
  then show ?thesis by (simp add: proxy_target_def)
qed

text \<open>C6: An egress request from the client of the parent to the exit node and back. The parent has
  accepted the opening of a host and port, and its command is received by a child whose proxy worker
  subscribed before, after any use \<open>us\<close> of the bus since then. If fewer than 128 commands wait for the worker
  (the bus drops a command beyond), the command is the message it takes after those that wait; the worker
  handles it, dials exactly that host and port, and the frame it announces itself with makes the parent
  relay exactly the client that asked, if the parent has forgotten none of the clients that waited.\<close>

theorem egress_request_end_to_end:
  assumes "openEgress send nowMs c host port s = (True, Some cmd, s')"
    and "bus_ok (ag_bus a)" "Subscribe TopicEgress (ag_bus a) = (ch, b)"
    and "x = fold (bus_use_step B) us (a\<lparr>ag_bus := b\<rparr>)" "length (chans (ag_bus x) ch) < 128"
    and "pending s' \<subseteq>\<^sub>m pending t"
  shows "\<exists>m ec. taken B ch (replicate (length (chans (ag_bus x) ch) + 1) (Take ch)) (handleCommand B now cmd x)
        = chans (ag_bus x) ch @ [m]
    \<and> proxy_take m = HandleEgress ec \<and> proxy_target ec = JoinHostPort host (dec_nat (unat port))
    \<and> fst (stream_open (announce_frame ec) t) = Relaying c"
proof -
  let ?i = "conn_id (connSeq s + 1)"
  let ?ec = "\<lparr>ConnId = ?i, Host = host, Port = ucast port, ViaTor = False\<rparr>"
  have o': "cmd = egress_command ?i host port nowMs" "pending s' ?i = Some c"
    using assms(1) by (auto simp: openEgress_def open_alloc_def next_conn_def registerPending_def Let_def split: option.splits)
  have t: "pending t ?i = Some c" using assms(6) o'(2) by (auto simp: map_le_def dom_def)
  note b = subscribed [OF assms(2,3)]
  have x: "bus_ok (ag_bus x)" "ch \<in> set (subs (ag_bus x) TopicEgress)"
    using b bus_uses_ok [of "a\<lparr>ag_bus := b\<rparr>" B us] bus_uses_subs [of ch "a\<lparr>ag_bus := b\<rparr>" TopicEgress B us]
    by (simp_all add: assms(4))
  have "chans (ag_bus (handleCommand B now cmd x)) ch = chans (ag_bus x) ch @ [MsgEgressOpen ?ec]"
    by (rule command_joins [OF x assms(5)]) (simp_all add: msg_of_def o'(1) egress_command_def)
  then have "taken B ch (replicate (length (chans (ag_bus x) ch) + 1) (Take ch)) (handleCommand B now cmd x)
      = chans (ag_bus x) ch @ [MsgEgressOpen ?ec]"
    using take_all [of "handleCommand B now cmd x" ch "chans (ag_bus x) ch @ [MsgEgressOpen ?ec]" "[]" B] by simp
  moreover have "proxy_take (MsgEgressOpen ?ec) = HandleEgress ?ec" by (simp add: proxy_take_def)
  moreover have "fst (stream_open (announce_frame ?ec) t) = Relaying c"
    using t by (simp add: stream_open_def takePending_def announce_frame_def)
  ultimately show ?thesis using proxy_target_port by blast
qed

text \<open>With one command waiting, the new one is taken after it.\<close>

theorem egress_request_end_to_end_witness:
  "\<exists>m ec cmd s'. openEgress (\<lambda>_ _. None) 0 5 ''2001:db8::1'' 443 (server_init\<lparr>child := Some 7\<rparr>) = (True, Some cmd, s')
     \<and> taken ref_bolt 0 [Take 0, Take 0] (handleCommand ref_bolt 0 cmd
         (fold (bus_use_step ref_bolt) [Handle 5 demo_open] (demo_agent\<lparr>ag_bus := snd (Subscribe TopicEgress (ag_bus demo_agent))\<rparr>)))
       = [MsgEgressOpen \<lparr>ConnId = ''c1'', Host = ''example.org'', Port = 443, ViaTor = False\<rparr>, m]
     \<and> proxy_take m = HandleEgress ec \<and> proxy_target ec = ''[2001:db8::1]:443''
     \<and> fst (stream_open (announce_frame ec) s') = Relaying 5"
proof -
  let ?s = "server_init\<lparr>child := Some 7\<rparr>" and ?b = "snd (Subscribe TopicEgress (ag_bus demo_agent))"
  let ?x = "fold (bus_use_step ref_bolt) [Handle 5 demo_open] (demo_agent\<lparr>ag_bus := ?b\<rparr>)"
  let ?m = "MsgEgressOpen \<lparr>ConnId = ''c1'', Host = ''example.org'', Port = 443, ViaTor = False\<rparr>"
  obtain cmd s' where o': "openEgress (\<lambda>_ _. None) 0 5 ''2001:db8::1'' 443 ?s = (True, Some cmd, s')"
    by (simp add: openEgress_def open_alloc_def next_conn_def server_init_def Let_def)
  have j: "JoinHostPort ''2001:db8::1'' (dec_nat (unat (443 :: u16))) = ''[2001:db8::1]:443''" by code_simp
  have m: "msg_of demo_open = Some ?m" "topic_of ?m = TopicEgress"
    by (simp_all add: msg_of_def demo_open_def)
  have b: "bus_ok ?b" "0 \<in> set (subs ?b TopicEgress)" "chans ?b 0 = []"
    using subscribed [OF demo_subscribe(1) demo_subscribe(2) [of TopicEgress]] .
  have w: "chans (ag_bus ?x) 0 = [?m]"
    using command_joins [of "demo_agent\<lparr>ag_bus := ?b\<rparr>" 0 TopicEgress demo_open ?m ref_bolt 5] b m by simp
  have "length (chans (ag_bus ?x) 0) < 128" by (simp only: w) simp
  from egress_request_end_to_end [OF o' demo_subscribe(1) demo_subscribe(2) [of TopicEgress] HOL.refl this map_le_refl]
  show ?thesis using o' unfolding w j by (auto simp: numeral_2_eq_2 simp del: taken.simps fold_simps)
qed

text \<open>The batch jobs follow the parent's configuration. When the parent pushes a configuration, it is
  the next message the batch worker takes; the worker then arms a cron entry for exactly the enabled,
  scheduled jobs whose schedule parses, and if the configuration could be stored, a restarted
  worker has the same jobs and entries without hearing from the parent.\<close>

theorem batch_configuration_end_to_end:
  assumes "bus_ok (ag_bus a)" "Subscribe TopicBatch (ag_bus a) = (ch, b)"
    and "cmd_Payload cmd = Some (Command_ConfigureBatch cb)"
    and "bolt_bucket B" "proto_codec CC" "Unmarshal CC [] = Some \<lparr>Jobs = []\<rparr>"
    and "Marshal CC cb = Inr raw" "PutBlob B batchJobsBlobKey raw s = (None, s1)"
  shows "\<exists>m w' s'. fst (Receive ch (ag_bus (handleCommand B now cmd (a\<lparr>ag_bus := b\<rparr>)))) = Some m
    \<and> batch_take B CC cronErr m w s = (w', s') \<and> cron_entries w' = map (\<lambda>j. (cron_spec j, j)) (filter (armed cronErr) (Jobs cb))
    \<and> w_jobs (fst (batch_reload B CC cronErr batch_Init s')) = w_jobs w'
    \<and> cron_entries (fst (batch_reload B CC cronErr batch_Init s')) = cron_entries w'"
proof -
  obtain w' s' where c: "configure B CC cronErr cb True w s = (w', s')"
    by (cases "configure B CC cronErr cb True w s")
  have "batch_take B CC cronErr (MsgConfigureBatch cb) w s = (w', s')" using c by (simp add: batch_take_def)
  moreover have "fst (Receive ch (ag_bus (handleCommand B now cmd (a\<lparr>ag_bus := b\<rparr>)))) = Some (MsgConfigureBatch cb)"
    using assms(1-3) by (intro command_is_next) (simp_all add: msg_of_def)
  ultimately show ?thesis
    using config_survives_restart [OF assms(4-8) c prod.collapse [symmetric]] configure_entries [OF c] by blast
qed

definition demo_configure :: Command where
  "demo_configure = \<lparr>CommandId = ''b1'', IssuedAtMs = 0, cmd_Payload = Some (Command_ConfigureBatch \<lparr>Jobs = [echo_job]\<rparr>)\<rparr>"

theorem batch_configuration_end_to_end_witness:
  "\<exists>m w' s'. fst (Receive 0 (ag_bus (handleCommand ref_bolt 0 demo_configure
       (demo_agent\<lparr>ag_bus := snd (Subscribe TopicBatch (ag_bus demo_agent))\<rparr>)))) = Some m
    \<and> batch_take ref_bolt two_codec (\<lambda>_. None) m batch_Init empty_store = (w', s')
    \<and> cron_entries (fst (batch_reload ref_bolt two_codec (\<lambda>_. None) batch_Init s')) = [(''0 7 * * *'', echo_job)]"
proof -
  have "fst (PutBlob ref_bolt batchJobsBlobKey ''j'' empty_store) = None" by code_simp
  then have p: "PutBlob ref_bolt batchJobsBlobKey ''j'' empty_store =
      (None, snd (PutBlob ref_bolt batchJobsBlobKey ''j'' empty_store))"
    by (metis prod.collapse)
  have e: "map (\<lambda>j. (cron_spec j, j)) (filter (armed (\<lambda>_. None)) [echo_job]) = [(''0 7 * * *'', echo_job)]"
    by (simp add: armed_def cron_spec_def echo_job_def)
  have c: "cmd_Payload demo_configure = Some (Command_ConfigureBatch \<lparr>Jobs = [echo_job]\<rparr>)"
    by (simp add: demo_configure_def)
  have "Unmarshal two_codec [] = Some \<lparr>Jobs = []\<rparr>" "Marshal two_codec \<lparr>Jobs = [echo_job]\<rparr> = Inr ''j''"
    by (simp_all add: two_codec_def)
  from batch_configuration_end_to_end [OF demo_subscribe(1) demo_subscribe(2) [of TopicBatch] c log_bolt_bucket
      twoc.proto_codec_axioms this p, of 0 "\<lambda>_. None" batch_Init]
  show ?thesis unfolding ConfigureBatchCommand.simps e by metis
qed

end
